theory Spec2Isabelle
  imports Complex_Main
begin

section \<open>The three-point correlation engine of Corr3.cpp\<close>

text \<open>
  A shallow embedding of \<^verbatim>\<open>src/src/Corr3.cpp\<close>.

  Conventions of the model.
  \<^item> A C++ \<^verbatim>\<open>double\<close> is a \<^typ>\<open>real\<close>: rounding, infinities and NaN are not modelled.
    \<^verbatim>\<open>log\<close> is \<^term>\<open>ln\<close>, \<^verbatim>\<open>SQR(x)\<close> is \<open>x * x\<close>.
  \<^item> A C++ \<^verbatim>\<open>int\<close> or \<^verbatim>\<open>long\<close> is an \<^typ>\<open>int\<close>: signed overflow is undefined in C++,
    so no wrap-around is written out.
  \<^item> A \<^verbatim>\<open>double*\<close> array is the memory seen from its base pointer: a function from the
    offset to the value stored there.
  \<^item> \<^verbatim>\<open>Assert\<close> (dbg.h, not among the sources) is taken as a build parameter: the flag
    \<open>A\<close> says whether assertions are compiled in. An active assertion that fails aborts
    with \<open>AssertFailed\<close>; \<^verbatim>\<open>XAssert\<close> (the extra debugging checks) is off.
    Dereferencing a null child pointer aborts with \<open>NullPointer\<close>. An abort of one of
    the recursive procedures carries the state reached when it happens.
  \<^item> The classes the file only uses (cells, metrics, the projection of shears, the zeta
    arrays) are declared in headers that are not among the sources; they are modelled
    from the specification, see the comment of each.
\<close>

subsection \<open>Cells, metrics, errors\<close>

text \<open>
  Modelled from the spec: the class \<^verbatim>\<open>BaseCell<C>\<close> (Cell.h) is missing. A cell is a read-only
  tree node with a position, a bounding size, a total weight, a point count, the weighted
  scalar and the weighted shear of its points, and two child pointers, each of which may be
  null.
\<close>

datatype 'p cell =
  Cell (getPos: 'p) (getSize: real) (getW: real) (getN: int) (getWK: real) (getWG: complex)
       (getLeft: "'p cell option") (getRight: "'p cell option")

text \<open>
  Modelled from the spec: the class \<^verbatim>\<open>MetricHelper<M,0>\<close> (Metric.h) is missing. The engine
  calls only the squared distance (with the two sizes) and the orientation test.
\<close>

record 'p metric =
  DistSq :: "'p \<Rightarrow> 'p \<Rightarrow> real \<Rightarrow> real \<Rightarrow> real"
  CCW :: "'p \<Rightarrow> 'p \<Rightarrow> 'p \<Rightarrow> bool"

datatype error = AssertFailed | NullPointer

type_synonym array = "int \<Rightarrow> real"

type_synonym ref = nat

definition SQR :: "real \<Rightarrow> real" where
  "SQR x = x * x"

text \<open>The depth of a cell's tree: a leaf has depth 1.\<close>

fun depth :: "'p cell \<Rightarrow> nat" where
  "depth (Cell p s w n k g l r) =
     Suc (max (case l of None \<Rightarrow> 0 | Some c \<Rightarrow> depth c)
              (case r of None \<Rightarrow> 0 | Some c \<Rightarrow> depth c))"

text \<open>
  \<^verbatim>\<open>Assert(c.getLeft()); Assert(c.getRight());\<close> followed by the dereferences
  \<^verbatim>\<open>*c.getLeft()\<close>, \<^verbatim>\<open>*c.getRight()\<close> of the calls that come after.
\<close>

definition children :: "bool \<Rightarrow> 'p cell \<Rightarrow> error + ('p cell \<times> 'p cell)" where
  "children A c =
     (case getLeft c of
        None \<Rightarrow> Inl (if A then AssertFailed else NullPointer)
      | Some l \<Rightarrow>
          (case getRight c of
             None \<Rightarrow> Inl (if A then AssertFailed else NullPointer)
           | Some r \<Rightarrow> Inr (l, r)))"

text \<open>Sequencing of two steps of a computation that may abort.\<close>

definition ebind :: "'e + 'a \<Rightarrow> ('a \<Rightarrow> 'e + 'b) \<Rightarrow> 'e + 'b" where
  "ebind m f = (case m of Inl e \<Rightarrow> Inl e | Inr x \<Rightarrow> f x)"

subsection \<open>The binning parameters (BaseCorr3)\<close>

record BaseCorr3 =
  minsep :: real
  maxsep :: real
  nbins :: int
  binsize :: real
  b :: real
  minu :: real
  maxu :: real
  nubins :: int
  ubinsize :: real
  bu :: real
  minv :: real
  maxv :: real
  nvbins :: int
  vbinsize :: real
  bv :: real
  xp :: real
  yp :: real
  zp :: real
  logminsep :: real
  halfminsep :: real
  halfmind3 :: real
  minsepsq :: real
  maxsepsq :: real
  minusq :: real
  maxusq :: real
  minvsq :: real
  maxvsq :: real
  bsq :: real
  busq :: real
  bvsq :: real
  sqrttwobv :: real
  nvbins2 :: int
  nuv :: int
  ntot :: int
  coords :: int

text \<open>The constructor \<^verbatim>\<open>BaseCorr3::BaseCorr3\<close> (the bin type is not used by it).\<close>

definition BaseCorr3_ctor ::
  "real \<Rightarrow> real \<Rightarrow> int \<Rightarrow> real \<Rightarrow> real \<Rightarrow> real \<Rightarrow> real \<Rightarrow> int \<Rightarrow> real \<Rightarrow> real \<Rightarrow>
   real \<Rightarrow> real \<Rightarrow> int \<Rightarrow> real \<Rightarrow> real \<Rightarrow> real \<Rightarrow> real \<Rightarrow> real \<Rightarrow> BaseCorr3" where
  "BaseCorr3_ctor minsep0 maxsep0 nbins0 binsize0 b0 minu0 maxu0 nubins0 ubinsize0 bu0
       minv0 maxv0 nvbins0 vbinsize0 bv0 xp0 yp0 zp0 =
     \<lparr> minsep = minsep0, maxsep = maxsep0, nbins = nbins0, binsize = binsize0, b = b0,
       minu = minu0, maxu = maxu0, nubins = nubins0, ubinsize = ubinsize0, bu = bu0,
       minv = minv0, maxv = maxv0, nvbins = nvbins0, vbinsize = vbinsize0, bv = bv0,
       xp = xp0, yp = yp0, zp = zp0,
       logminsep = ln minsep0,
       halfminsep = 0.5 * minsep0,
       halfmind3 = 0.5 * minsep0 * minu0,
       minsepsq = minsep0 * minsep0,
       maxsepsq = maxsep0 * maxsep0,
       minusq = minu0 * minu0,
       maxusq = maxu0 * maxu0,
       minvsq = minv0 * minv0,
       maxvsq = maxv0 * maxv0,
       bsq = b0 * b0,
       busq = bu0 * bu0,
       bvsq = bv0 * bv0,
       sqrttwobv = sqrt (2 * bv0),
       nvbins2 = nvbins0 * 2,
       nuv = nubins0 * (nvbins0 * 2),
       ntot = nbins0 * (nubins0 * (nvbins0 * 2)),
       coords = - 1 \<rparr>"

subsection \<open>The pruning predicate stop111\<close>

text \<open>
  The second component is the value left in the reference parameter \<^verbatim>\<open>d2\<close>: the caller
  initialises it to 0 and stop111 sets it to \<open>sqrt d2sq\<close> once the first two tests are
  passed.
\<close>

definition stop111 ::
  "real \<Rightarrow> real \<Rightarrow> real \<Rightarrow> real \<Rightarrow> real \<Rightarrow> real \<Rightarrow>
   real \<Rightarrow> real \<Rightarrow> real \<Rightarrow> real \<Rightarrow> real \<Rightarrow> real \<Rightarrow> real \<Rightarrow> real \<Rightarrow>
   real \<Rightarrow> real \<Rightarrow> real \<Rightarrow> real \<Rightarrow> bool \<times> real" where
  "stop111 d1sq d2sq d3sq s1 s2 s3 minsep0 minsepsq0 maxsep0 maxsepsq0
       minu0 minusq0 maxu0 maxusq0 minv0 minvsq0 maxv0 maxvsq0 =
     (if d2sq < minsepsq0 \<and> s1 + s3 < minsep0 \<and> s1 + s2 < minsep0 \<and>
         (s1 + s3 = 0 \<or> d2sq < SQR (minsep0 - s1 - s3)) \<and>
         (s1 + s2 = 0 \<or> d3sq < SQR (minsep0 - s1 - s2))
      then (True, 0)
      else if d2sq \<ge> maxsepsq0 \<and>
         (s1 + s3 = 0 \<or> d2sq \<ge> SQR (maxsep0 + s1 + s3)) \<and>
         (s2 + s3 = 0 \<or> d1sq \<ge> SQR (maxsep0 + s2 + s3))
      then (True, 0)
      else
        let d2 = sqrt d2sq in
        if minu0 > 0 \<and> d3sq < minusq0 * d2sq \<and> d2 > s1 + s3 \<and>
           (let temp = minu0 * (d2 - s1 - s3) in
            temp > s1 + s2 \<and> d3sq < SQR (temp - s1 - s2) \<and>
            (let minusq_d1sq = minusq0 * d1sq in
             d3sq < minusq_d1sq \<and> d1sq > 2 * SQR (s2 + s3) \<and>
             minusq_d1sq > 2 * d3sq + 2 * SQR (s1 + s2 + minu0 * (s2 + s3))))
        then (True, d2)
        else if maxu0 < 1 \<and> d3sq \<ge> maxusq0 * d2sq \<and>
           d3sq \<ge> SQR (maxu0 * (d2 + s1 + s3) + s1 + s2) \<and>
           d2sq > SQR (s1 + s3) \<and> d1sq > SQR (s2 + s3) \<and>
           (s2 > s3 \<or> d3sq \<le> SQR (d2 - s3 + s2)) \<and>
           (s1 > s3 \<or> d1sq \<ge> 2 * d3sq + 2 * SQR (s3 - s1))
        then (True, d2)
        else
          let sum_s = s1 + s2 + s3 in
          if maxv0 < 1 \<and> d1sq > SQR ((1 + maxv0) * d2 + sum_s + maxv0 * (s1 + s2))
          then (True, d2)
          else if minv0 > 0 \<and> d3sq > SQR (s1 + s2) \<and>
             minvsq0 * d3sq > SQR ((d1sq - d2sq) / (2 * d2) + sum_s + minv0 * (s1 + s2))
          then (True, d2)
          else if s2 = 0 \<and> s3 = 0 \<and> d1sq = 0 then (True, d2)
          else if s1 = 0 \<and> s3 = 0 \<and> d2sq = 0 then (True, d2)
          else if s1 = 0 \<and> s2 = 0 \<and> d3sq = 0 then (True, d2)
          else (False, d2))"

subsection \<open>The split decision of process111Sorted\<close>

text \<open>
  The expression assigned to \<^verbatim>\<open>split3\<close> (lines 724 to 748). The second disjunct assigns
  \<^verbatim>\<open>s1ps3 = s1+s3\<close> before testing it.
\<close>

definition split3_expr :: "BaseCorr3 \<Rightarrow> real \<Rightarrow> real \<Rightarrow> real \<Rightarrow> real \<Rightarrow> real \<Rightarrow> bool" where
  "split3_expr P d2sq d3sq d2 s1 s3 =
     (s3 > 0 \<and>
       (s3 > d2 * b P \<or>
        (s1 + s3 > 0 \<and> s1 + s3 > d2 * b P \<and> s3 \<ge> s1) \<or>
        (bu P < b P \<and> SQR s3 * d3sq > SQR (bu P * d2sq)) \<or>
        (bv P < b P \<and> s3 > d2 * bv P)))"

text \<open>
  The values the side effects of that expression leave in \<^verbatim>\<open>s1ps3\<close> and \<^verbatim>\<open>d2split\<close>
  (both start as 0 and false): the second disjunct is evaluated only when \<open>s3 > 0\<close> holds
  and the first disjunct fails, and \<^verbatim>\<open>d2split=true\<close> is reached only when its first two
  conjuncts hold.
\<close>

definition s1ps3_after :: "BaseCorr3 \<Rightarrow> real \<Rightarrow> real \<Rightarrow> real \<Rightarrow> real" where
  "s1ps3_after P d2 s1 s3 = (if s3 > 0 \<and> \<not> s3 > d2 * b P then s1 + s3 else 0)"

definition d2split_after :: "BaseCorr3 \<Rightarrow> real \<Rightarrow> real \<Rightarrow> real \<Rightarrow> bool" where
  "d2split_after P d2 s1 s3 =
     (s3 > 0 \<and> \<not> s3 > d2 * b P \<and> s1 + s3 > 0 \<and> s1 + s3 > d2 * b P)"

text \<open>
  Lines 700 to 822: the result is \<open>(split, split1, split2, split3, d1, d3, u, v)\<close> as the
  variables stand when the decision is made; \<open>d1, d3, u, v\<close> keep their initial \<open>-1\<close> where
  the code does not reach their assignment.
\<close>

definition decide_split ::
  "BaseCorr3 \<Rightarrow> real \<Rightarrow> real \<Rightarrow> real \<Rightarrow> real \<Rightarrow> real \<Rightarrow> real \<Rightarrow> real \<Rightarrow>
   bool \<times> bool \<times> bool \<times> bool \<times> real \<times> real \<times> real \<times> real" where
  "decide_split P d1sq d2sq d3sq d2 s1 s2 s3 =
     (let factor2 = 0.7;
          s1ps3 = s1ps3_after P d2 s1 s3;
          d2split = d2split_after P d2 s1 s3
      in
      if split3_expr P d2sq d3sq d2 s1 s3 then
        let temp = factor2 * SQR s3 * d3sq in
        (True, SQR s1 * d2sq > temp, SQR s2 * d2sq > temp, True, - 1, - 1, - 1, - 1)
      else if s1 > 0 \<or> s2 > 0 then
        let split1 = (s1 > 0 \<and> (d2split \<or> (s3 = 0 \<and> s3 > d2 * b P) \<or> SQR s1 > d3sq));
            split2 = (s2 > 0 \<and> (SQR s2 > d3sq \<or>
                        (s2 > s3 \<and> d3sq > SQR (d2 - s2 + s3)) \<or>
                        (s2 > s1 \<and> d1sq < SQR (d2 + s2 - s1))))
        in
        if split1 \<or> split2 then
          (True, split1 \<or> s1 \<ge> s2, split2 \<or> s2 \<ge> s1, False, - 1, - 1, - 1, - 1)
        else
          let d3 = sqrt d3sq; u = d3 / d2; s1ps2 = s1 + s2 in
          if SQR (s1ps2 + s1ps3 * u) > d2sq * busq P then
            (True, split1 \<or> s1 \<ge> s2, split2 \<or> s2 \<ge> s1, False, - 1, d3, u, - 1)
          else
            let d1 = sqrt d1sq; v = (d1 - d2) / d3 in
            if SQR (s1ps2 * (1 + v)) > d3sq * bvsq P then
              (True, split1 \<or> s1 \<ge> s2, split2 \<or> s2 \<ge> s1, False, d1, d3, u, v)
            else
              (False, split1, split2, False, d1, d3, u, v)
      else
        let d1 = sqrt d1sq; d3 = sqrt d3sq; u = d3 / d2; v = (d1 - d2) / d3 in
        (False, False, False, False, d1, d3, u, v))"


subsection \<open>Committing a triangle (the last block of process111Sorted)\<close>

text \<open>
  Lines 930 to 1010: the range checks, the three bin indices, the sign of \<open>v\<close> and the flat
  index. The result is \<open>None\<close> where the code returns without a call of
  \<^verbatim>\<open>directProcess111\<close>, and otherwise the \<open>(logr, v, index)\<close> it passes on. \<open>ccw\<close> is the
  value of \<^verbatim>\<open>metric.CCW\<close> at the three positions.

  The code holds \<^verbatim>\<open>kr\<close>, \<^verbatim>\<open>ku\<close>, \<^verbatim>\<open>kv\<close> and \<^verbatim>\<open>index\<close> in 32-bit \<^verbatim>\<open>int\<close>; the definition
  computes them on the unbounded integers. The two agree exactly where every conversion
  \<^verbatim>\<open>int(floor(..))\<close> and every intermediate value of the integer arithmetic is representable
  in \<^verbatim>\<open>int\<close>, which is the predicate \<open>commit_fits_int\<close> below. Outside it the C++ conversion
  and the signed overflow are undefined behaviour (on x86 the conversion yields
  \<^verbatim>\<open>INT_MIN\<close>, so that for a very small \<^verbatim>\<open>_binsize\<close> the code can reach index 0 and commit
  where this definition returns \<open>None\<close>): the definition says nothing about the code there.
\<close>

definition commit_bins ::
  "bool \<Rightarrow> BaseCorr3 \<Rightarrow> bool \<Rightarrow> real \<Rightarrow> real \<Rightarrow> real \<Rightarrow> real \<Rightarrow> real \<Rightarrow>
   error + (real \<times> real \<times> int) option" where
  "commit_bins A P ccw d1 d2 d3 u v =
     (if A \<and> \<not> d1 > 0 then Inl AssertFailed
      else if A \<and> \<not> d3 > 0 then Inl AssertFailed
      else if A \<and> \<not> u > 0 then Inl AssertFailed
      else if A \<and> \<not> v \<ge> 0 then Inl AssertFailed
      else if d2 < minsep P \<or> d2 \<ge> maxsep P then Inr None
      else if u < minu P \<or> u \<ge> maxu P then Inr None
      else if v < minv P \<or> v \<ge> maxv P then Inr None
      else
        let logr = ln d2;
            kr0 = \<lfloor>(logr - logminsep P) / binsize P\<rfloor>
        in
        if A \<and> \<not> kr0 \<ge> 0 then Inl AssertFailed
        else if A \<and> \<not> kr0 \<le> nbins P then Inl AssertFailed
        else
          let kr = (if kr0 = nbins P then kr0 - 1 else kr0) in
          if A \<and> \<not> kr < nbins P then Inl AssertFailed
          else
            let ku0 = \<lfloor>(u - minu P) / ubinsize P\<rfloor> in
            if ku0 \<ge> nubins P \<and> A \<and> \<not> ku0 = nubins P then Inl AssertFailed
            else
              let ku = (if ku0 \<ge> nubins P then ku0 - 1 else ku0) in
              if A \<and> \<not> ku \<ge> 0 then Inl AssertFailed
              else if A \<and> \<not> ku < nubins P then Inl AssertFailed
              else
                let kv0 = \<lfloor>(v - minv P) / vbinsize P\<rfloor> in
                if kv0 \<ge> nvbins P \<and> A \<and> \<not> kv0 = nvbins P then Inl AssertFailed
                else
                  let kv1 = (if kv0 \<ge> nvbins P then kv0 - 1 else kv0) in
                  if A \<and> \<not> kv1 \<ge> 0 then Inl AssertFailed
                  else if A \<and> \<not> kv1 < nvbins P then Inl AssertFailed
                  else
                    let v' = (if \<not> ccw then - v else v);
                        kv = (if \<not> ccw then nvbins P - kv1 - 1 else kv1 + nvbins P)
                    in
                    if A \<and> \<not> kv \<ge> 0 then Inl AssertFailed
                    else if A \<and> \<not> kv < nvbins2 P then Inl AssertFailed
                    else
                      let index = kr * nuv P + ku * nvbins2 P + kv in
                      if A \<and> \<not> index \<ge> 0 then Inl AssertFailed
                      else if A \<and> \<not> index < ntot P then Inl AssertFailed
                      else if index < 0 \<or> index \<ge> ntot P then Inr None
                      else Inr (Some (logr, v', index)))"



text \<open>
  \<^verbatim>\<open>BaseCorr3::directProcess111\<close> calls the virtual \<^verbatim>\<open>finishProcess\<close> of the accumulator it
  is invoked on. The recursion is written over any state \<open>'s\<close> and any kernel commit
  \<open>fin\<close>; \<open>fin this\<close> is \<^verbatim>\<open>finishProcess\<close> of the object at address \<open>this\<close>.
\<close>

type_synonym ('p, 's) finish =
  "ref \<Rightarrow> 'p cell \<Rightarrow> 'p cell \<Rightarrow> 'p cell \<Rightarrow> real \<Rightarrow> real \<Rightarrow> real \<Rightarrow> real \<Rightarrow> real \<Rightarrow> real \<Rightarrow> int \<Rightarrow> 's \<Rightarrow> 's"

definition directProcess111 ::
  "('p, 's) finish \<Rightarrow> ref \<Rightarrow> 'p cell \<Rightarrow> 'p cell \<Rightarrow> 'p cell \<Rightarrow>
   real \<Rightarrow> real \<Rightarrow> real \<Rightarrow> real \<Rightarrow> real \<Rightarrow> real \<Rightarrow> int \<Rightarrow> 's \<Rightarrow> 's" where
  "directProcess111 fin this c1 c2 c3 d1 d2 d3 logr u v index st =
     fin this c1 c2 c3 d1 d2 d3 logr u v index st"

subsection \<open>The recursion over triples of cells\<close>

text \<open>
  Lines 829 to 929: the calls of \<^verbatim>\<open>process111\<close> that process111Sorted makes once it has
  decided to split, in the order of the source. Each entry is the three cells and the three
  squared sides passed (0 for a side left to its default argument). The assertions on the
  child pointers come before the first call of a branch.
\<close>

type_synonym 'p call111 = "'p cell \<times> 'p cell \<times> 'p cell \<times> real \<times> real \<times> real"

definition split_calls ::
  "bool \<Rightarrow> bool \<Rightarrow> bool \<Rightarrow> bool \<Rightarrow> 'p cell \<Rightarrow> 'p cell \<Rightarrow> 'p cell \<Rightarrow>
   real \<Rightarrow> real \<Rightarrow> real \<Rightarrow> error + 'p call111 list" where
  "split_calls A split1 split2 split3 c1 c2 c3 d1sq d2sq d3sq =
     (if split3 then
        if split2 then
          if split1 then
          (case children A c1 of Inl e \<Rightarrow> Inl e | Inr (c1l, c1r) \<Rightarrow>
          (case children A c2 of Inl e \<Rightarrow> Inl e | Inr (c2l, c2r) \<Rightarrow>
          (case children A c3 of Inl e \<Rightarrow> Inl e | Inr (c3l, c3r) \<Rightarrow>
            Inr [(c1l, c2l, c3l, 0, 0, 0),
                 (c1l, c2l, c3r, 0, 0, 0),
                 (c1l, c2r, c3l, 0, 0, 0),
                 (c1l, c2r, c3r, 0, 0, 0),
                 (c1r, c2l, c3l, 0, 0, 0),
                 (c1r, c2l, c3r, 0, 0, 0),
                 (c1r, c2r, c3l, 0, 0, 0),
                 (c1r, c2r, c3r, 0, 0, 0)])))
          else
          (case children A c2 of Inl e \<Rightarrow> Inl e | Inr (c2l, c2r) \<Rightarrow>
          (case children A c3 of Inl e \<Rightarrow> Inl e | Inr (c3l, c3r) \<Rightarrow>
            Inr [(c1, c2l, c3l, 0, 0, 0),
                 (c1, c2l, c3r, 0, 0, 0),
                 (c1, c2r, c3l, 0, 0, 0),
                 (c1, c2r, c3r, 0, 0, 0)]))
        else
          if split1 then
          (case children A c1 of Inl e \<Rightarrow> Inl e | Inr (c1l, c1r) \<Rightarrow>
          (case children A c3 of Inl e \<Rightarrow> Inl e | Inr (c3l, c3r) \<Rightarrow>
            Inr [(c1l, c2, c3l, 0, 0, 0),
                 (c1l, c2, c3r, 0, 0, 0),
                 (c1r, c2, c3l, 0, 0, 0),
                 (c1r, c2, c3r, 0, 0, 0)]))
          else
          (case children A c3 of Inl e \<Rightarrow> Inl e | Inr (c3l, c3r) \<Rightarrow>
            Inr [(c1, c2, c3l, 0, 0, d3sq),
                 (c1, c2, c3r, 0, 0, d3sq)])
      else
        if split2 then
          if split1 then
          (case children A c1 of Inl e \<Rightarrow> Inl e | Inr (c1l, c1r) \<Rightarrow>
          (case children A c2 of Inl e \<Rightarrow> Inl e | Inr (c2l, c2r) \<Rightarrow>
            Inr [(c1l, c2l, c3, 0, 0, 0),
                 (c1l, c2r, c3, 0, 0, 0),
                 (c1r, c2l, c3, 0, 0, 0),
                 (c1r, c2r, c3, 0, 0, 0)]))
          else
          (case children A c2 of Inl e \<Rightarrow> Inl e | Inr (c2l, c2r) \<Rightarrow>
            Inr [(c1, c2l, c3, 0, d2sq, 0),
                 (c1, c2r, c3, 0, d2sq, 0)])
        else
        (case children A c1 of Inl e \<Rightarrow> Inl e | Inr (c1l, c1r) \<Rightarrow>
          Inr [(c1l, c2, c3, d1sq, 0, 0),
               (c1r, c2, c3, d1sq, 0, 0)]))"

text \<open>Running a sequence of calls on the state; the first abort ends it.\<close>

fun run_calls :: "('a \<Rightarrow> 's \<Rightarrow> error \<times> 's + 's) \<Rightarrow> 'a list \<Rightarrow> 's \<Rightarrow> error \<times> 's + 's" where
  "run_calls f [] st = Inr st"
| "run_calls f (x # xs) st = ebind (f x st) (run_calls f xs)"

lemma children_depth:
  "children A c = Inr (l, r) \<Longrightarrow> depth l < depth c \<and> depth r < depth c"
  by (cases c) (auto simp: children_def split: option.splits)

lemma run_calls_cong [fundef_cong]:
  "xs = ys \<Longrightarrow> st = st' \<Longrightarrow> (\<And>x s. x \<in> set ys \<Longrightarrow> f x s = g x s) \<Longrightarrow>
   run_calls f xs st = run_calls g ys st'"
proof -
  assume g: "\<And>x s. x \<in> set ys \<Longrightarrow> f x s = g x s" and e: "xs = ys" "st = st'"
  have "(\<forall>x s. x \<in> set ys \<longrightarrow> f x s = g x s) \<Longrightarrow> run_calls f ys s0 = run_calls g ys s0" for s0
    by (induction ys arbitrary: s0) (auto simp: ebind_def split: sum.splits)
  with g e show ?thesis by blast
qed

lemma split_calls_depth:
  assumes "split_calls A split1 split2 split3 c1 c2 c3 d1sq d2sq d3sq = Inr cs"
    and "(a1, a2, a3, x1, x2, x3) \<in> set cs"
  shows "depth a1 + depth a2 + depth a3 < depth c1 + depth c2 + depth c3"
  using assms
  by (auto simp: split_calls_def split: if_splits sum.splits dest!: children_depth)

text \<open>
  \<^verbatim>\<open>process111\<close> and \<^verbatim>\<open>process111Sorted\<close> are members of \<^verbatim>\<open>BaseCorr3\<close>: \<open>this\<close> is the address of
  the accumulator they are invoked on, \<open>bc132 ... bc321\<close> are the addresses of the other
  five. The binning parameters are constant members, read from the table \<open>prm\<close>.
  A squared side passed as 0 is one the caller does not know (the default argument).
\<close>

function
  process111 ::
    "('p, 's) finish \<Rightarrow> (ref \<Rightarrow> BaseCorr3) \<Rightarrow> bool \<Rightarrow> 'p metric \<Rightarrow>
     ref \<Rightarrow> ref \<Rightarrow> ref \<Rightarrow> ref \<Rightarrow> ref \<Rightarrow> ref \<Rightarrow> 'p cell \<Rightarrow> 'p cell \<Rightarrow> 'p cell \<Rightarrow>
     real \<Rightarrow> real \<Rightarrow> real \<Rightarrow> 's \<Rightarrow> error \<times> 's + 's"
and
  process111Sorted ::
    "('p, 's) finish \<Rightarrow> (ref \<Rightarrow> BaseCorr3) \<Rightarrow> bool \<Rightarrow> 'p metric \<Rightarrow>
     ref \<Rightarrow> ref \<Rightarrow> ref \<Rightarrow> ref \<Rightarrow> ref \<Rightarrow> ref \<Rightarrow> 'p cell \<Rightarrow> 'p cell \<Rightarrow> 'p cell \<Rightarrow>
     real \<Rightarrow> real \<Rightarrow> real \<Rightarrow> 's \<Rightarrow> error \<times> 's + 's"
where
  "process111 fin prm A M this bc132 bc213 bc231 bc312 bc321 c1 c2 c3 d1sq0 d2sq0 d3sq0 st =
     (if getW c1 = 0 then Inr st
      else if getW c2 = 0 then Inr st
      else if getW c3 = 0 then Inr st
      else
        let s = 0;
            d1sq = (if d1sq0 = 0 then DistSq M (getPos c2) (getPos c3) s s else d1sq0);
            d2sq = (if d2sq0 = 0 then DistSq M (getPos c1) (getPos c3) s s else d2sq0);
            d3sq = (if d3sq0 = 0 then DistSq M (getPos c1) (getPos c2) s s else d3sq0);
            bc123 = this
        in
        if d1sq > d2sq then
          if d2sq > d3sq then
            process111Sorted fin prm A M bc123 bc132 bc213 bc231 bc312 bc321
              c1 c2 c3 d1sq d2sq d3sq st
          else if d1sq > d3sq then
            process111Sorted fin prm A M bc132 bc123 bc312 bc321 bc213 bc231
              c1 c3 c2 d1sq d3sq d2sq st
          else
            process111Sorted fin prm A M bc312 bc321 bc132 bc123 bc231 bc213
              c3 c1 c2 d3sq d1sq d2sq st
        else
          if d1sq > d3sq then
            process111Sorted fin prm A M bc213 bc231 bc123 bc132 bc321 bc312
              c2 c1 c3 d2sq d1sq d3sq st
          else if d2sq > d3sq then
            process111Sorted fin prm A M bc231 bc213 bc321 bc312 bc123 bc132
              c2 c3 c1 d2sq d3sq d1sq st
          else
            process111Sorted fin prm A M bc321 bc312 bc231 bc213 bc132 bc123
              c3 c2 c1 d3sq d2sq d1sq st)"
| "process111Sorted fin prm A M this bc132 bc213 bc231 bc312 bc321 c1 c2 c3 d1sq d2sq d3sq st =
     (let P = prm this;
          s1 = getSize c1;
          s2 = getSize c2;
          s3 = getSize c3
      in
      if A \<and> \<not> d1sq \<ge> d2sq then Inl (AssertFailed, st)
      else if A \<and> \<not> d2sq \<ge> d3sq then Inl (AssertFailed, st)
      else
        (case stop111 d1sq d2sq d3sq s1 s2 s3
                (minsep P) (minsepsq P) (maxsep P) (maxsepsq P)
                (minu P) (minusq P) (maxu P) (maxusq P)
                (minv P) (minvsq P) (maxv P) (maxvsq P) of
           (True, d2) \<Rightarrow> Inr st
         | (False, d2) \<Rightarrow>
           (case decide_split P d1sq d2sq d3sq d2 s1 s2 s3 of
              (split, split1, split2, split3, d1, d3, u, v) \<Rightarrow>
              if split then
                if A \<and> \<not> (split1 = False \<or> s1 > 0) then Inl (AssertFailed, st)
                else if A \<and> \<not> (split2 = False \<or> s2 > 0) then Inl (AssertFailed, st)
                else if A \<and> \<not> (split3 = False \<or> s3 > 0) then Inl (AssertFailed, st)
                else
                  (case split_calls A split1 split2 split3 c1 c2 c3 d1sq d2sq d3sq of
                     Inl e \<Rightarrow> Inl (e, st)
                   | Inr calls \<Rightarrow>
                       run_calls
                         (\<lambda>(a1, a2, a3, x1, x2, x3) s.
                            process111 fin prm A M this bc132 bc213 bc231 bc312 bc321
                              a1 a2 a3 x1 x2 x3 s)
                         calls st)
              else
                (case commit_bins A P
                        (CCW M (getPos c1) (getPos c2) (getPos c3)) d1 d2 d3 u v of
                   Inl e \<Rightarrow> Inl (e, st)
                 | Inr None \<Rightarrow> Inr st
                 | Inr (Some (logr, v', index)) \<Rightarrow>
                     Inr (directProcess111 fin this c1 c2 c3 d1 d2 d3 logr u v' index st)))))"
  by pat_completeness auto

termination
  by (relation "measure (\<lambda>x. case x of
        Inl (fin, prm, A, M, this, bc132, bc213, bc231, bc312, bc321, c1, c2, c3, r) \<Rightarrow>
          2 * (depth c1 + depth c2 + depth c3) + 1
      | Inr (fin, prm, A, M, this, bc132, bc213, bc231, bc312, bc321, c1, c2, c3, r) \<Rightarrow>
          2 * (depth c1 + depth c2 + depth c3))")
     (auto dest!: split_calls_depth)

declare process111.simps [simp del] process111Sorted.simps [simp del]


text \<open>
  \<^verbatim>\<open>process12\<close>: all triangles with one point in \<open>c1\<close> and two points in \<open>c2\<close>. The call of
  \<^verbatim>\<open>process111\<close> passes \<^verbatim>\<open>*this, bc212, bc221, bc212, bc221\<close> as the other five.
\<close>

function process12 ::
  "('p, 's) finish \<Rightarrow> (ref \<Rightarrow> BaseCorr3) \<Rightarrow> bool \<Rightarrow> 'p metric \<Rightarrow>
   ref \<Rightarrow> ref \<Rightarrow> ref \<Rightarrow> 'p cell \<Rightarrow> 'p cell \<Rightarrow> 's \<Rightarrow> error \<times> 's + 's" where
  "process12 fin prm A M this bc212 bc221 c1 c2 st =
     (let P = prm this in
      if getW c1 = 0 then Inr st
      else if getW c2 = 0 then Inr st
      else
        let s2 = getSize c2 in
        if s2 = 0 then Inr st
        else if s2 < halfmind3 P then Inr st
        else
          let s1 = getSize c1;
              dsq = DistSq M (getPos c1) (getPos c2) s1 s2;
              s1ps2 = s1 + s2
          in
          if dsq < minsepsq P \<and> s1ps2 < minsep P \<and> dsq < SQR (minsep P - s1ps2) then Inr st
          else if dsq \<ge> maxsepsq P \<and> dsq \<ge> SQR (maxsep P + s1ps2) then Inr st
          else if dsq > SQR (s1 + s2) \<and> minusq P * dsq > SQR (2 * s2 + minu P * (s1 + s2))
          then Inr st
          else
            (case children A c2 of
               Inl e \<Rightarrow> Inl (e, st)
             | Inr (c2l, c2r) \<Rightarrow>
                 ebind (process12 fin prm A M this bc212 bc221 c1 c2l st) (\<lambda>st.
                 ebind (process12 fin prm A M this bc212 bc221 c1 c2r st) (\<lambda>st.
                 process111 fin prm A M this this bc212 bc221 bc212 bc221
                   c1 c2l c2r 0 0 0 st))))"
  by pat_completeness auto

termination
  by (relation "measure (\<lambda>(fin, prm, A, M, this, bc212, bc221, c1, c2, st). depth c2)")
     (auto dest!: children_depth)

declare process12.simps [simp del]

text \<open>\<^verbatim>\<open>process3\<close>: all triangles with three points in \<open>c1\<close>.\<close>

function process3 ::
  "('p, 's) finish \<Rightarrow> (ref \<Rightarrow> BaseCorr3) \<Rightarrow> bool \<Rightarrow> 'p metric \<Rightarrow>
   ref \<Rightarrow> 'p cell \<Rightarrow> 's \<Rightarrow> error \<times> 's + 's" where
  "process3 fin prm A M this c1 st =
     (let P = prm this in
      if getW c1 = 0 then Inr st
      else if getSize c1 < halfminsep P then Inr st
      else
        (case children A c1 of
           Inl e \<Rightarrow> Inl (e, st)
         | Inr (c1l, c1r) \<Rightarrow>
             ebind (process3 fin prm A M this c1l st) (\<lambda>st.
             ebind (process3 fin prm A M this c1r st) (\<lambda>st.
             ebind (process12 fin prm A M this this this c1l c1r st) (\<lambda>st.
             process12 fin prm A M this this this c1r c1l st)))))"
  by pat_completeness auto

termination
  by (relation "measure (\<lambda>(fin, prm, A, M, this, c1, st). depth c1)")
     (auto dest!: children_depth)

declare process3.simps [simp del]

subsection \<open>The accumulator (Corr3) and its kernel commit\<close>

text \<open>
  Modelled from the spec: the class \<^verbatim>\<open>ZetaData\<close> (Corr3.h) is missing. It holds the up to
  eight arrays \<^verbatim>\<open>zeta0 ... zeta7\<close> the constructor passes: none is used by the count
  kernel, the scalar kernel calls the first one \<^verbatim>\<open>zeta\<close>, the shear kernel calls them
  \<^verbatim>\<open>gam0r, gam0i, gam1r, gam1i, gam2r, gam2i, gam3r, gam3i\<close> in this order.
\<close>

record ZetaData =
  zeta0 :: array
  zeta1 :: array
  zeta2 :: array
  zeta3 :: array
  zeta4 :: array
  zeta5 :: array
  zeta6 :: array
  zeta7 :: array

text \<open>
  \<^verbatim>\<open>Corr3<D1,D2,D3>\<close> derives from \<^verbatim>\<open>BaseCorr3\<close>: the field \<open>base\<close> is the base class part.
\<close>

record Corr3 =
  base :: BaseCorr3
  owns_data :: bool
  zeta :: ZetaData
  meand1 :: array
  meanlogd1 :: array
  meand2 :: array
  meanlogd2 :: array
  meand3 :: array
  meanlogd3 :: array
  meanu :: array
  meanv :: array
  weight :: array
  ntri :: array

datatype DataKind = NData | KData | GData

text \<open>
  Lines 1066 to 1092: the eight increments of the shear kernel, computed from the projected
  \<open>g1, g2, g3\<close> with 12 multiplications.
\<close>

definition GGG_increments ::
  "complex \<Rightarrow> complex \<Rightarrow> complex \<Rightarrow> real \<times> real \<times> real \<times> real \<times> real \<times> real \<times> real \<times> real" where
  "GGG_increments g1 g2 g3 =
     (let g1rg2r = Re g1 * Re g2;
          g1rg2i = Re g1 * Im g2;
          g1ig2r = Im g1 * Re g2;
          g1ig2i = Im g1 * Im g2;
          g1g2r = g1rg2r - g1ig2i;
          g1g2i = g1rg2i + g1ig2r;
          g1cg2r = g1rg2r + g1ig2i;
          g1cg2i = g1rg2i - g1ig2r;
          g1g2rg3r = g1g2r * Re g3;
          g1g2rg3i = g1g2r * Im g3;
          g1g2ig3r = g1g2i * Re g3;
          g1g2ig3i = g1g2i * Im g3;
          g1cg2rg3r = g1cg2r * Re g3;
          g1cg2rg3i = g1cg2r * Im g3;
          g1cg2ig3r = g1cg2i * Re g3;
          g1cg2ig3i = g1cg2i * Im g3
      in
      (g1g2rg3r - g1g2ig3i,
       g1g2rg3i + g1g2ig3r,
       g1cg2rg3r - g1cg2ig3i,
       g1cg2rg3i + g1cg2ig3r,
       g1cg2rg3r + g1cg2ig3i,
       g1cg2rg3i - g1cg2ig3r,
       g1g2rg3r + g1g2ig3i,
       - g1g2rg3i + g1g2ig3r))"

text \<open>
  \<^verbatim>\<open>DirectHelper<D,D,D>::ProcessZeta\<close> for the three kernels. \<open>Project\<close> is
  \<^verbatim>\<open>ProjectHelper<C>::Project\<close> (ProjectHelper.h, not among the sources), which rotates the
  three shears in place; it is a parameter.
\<close>

type_synonym 'p project =
  "'p cell \<Rightarrow> 'p cell \<Rightarrow> 'p cell \<Rightarrow> complex \<times> complex \<times> complex \<Rightarrow> complex \<times> complex \<times> complex"

definition ProcessZeta ::
  "DataKind \<Rightarrow> 'p project \<Rightarrow> 'p cell \<Rightarrow> 'p cell \<Rightarrow> 'p cell \<Rightarrow> real \<Rightarrow> real \<Rightarrow> real \<Rightarrow>
   ZetaData \<Rightarrow> int \<Rightarrow> ZetaData" where
  "ProcessZeta D Project c1 c2 c3 d1 d2 d3 z index =
     (case D of
        NData \<Rightarrow> z
      | KData \<Rightarrow>
          z\<lparr>zeta0 := (zeta0 z)(index := zeta0 z index + getWK c1 * getWK c2 * getWK c3)\<rparr>
      | GData \<Rightarrow>
          (case Project c1 c2 c3 (getWG c1, getWG c2, getWG c3) of
             (g1, g2, g3) \<Rightarrow>
               (case GGG_increments g1 g2 g3 of
                  (i0r, i0i, i1r, i1i, i2r, i2i, i3r, i3i) \<Rightarrow>
                    z\<lparr>zeta0 := (zeta0 z)(index := zeta0 z index + i0r),
                      zeta1 := (zeta1 z)(index := zeta1 z index + i0i),
                      zeta2 := (zeta2 z)(index := zeta2 z index + i1r),
                      zeta3 := (zeta3 z)(index := zeta3 z index + i1i),
                      zeta4 := (zeta4 z)(index := zeta4 z index + i2r),
                      zeta5 := (zeta5 z)(index := zeta5 z index + i2i),
                      zeta6 := (zeta6 z)(index := zeta6 z index + i3r),
                      zeta7 := (zeta7 z)(index := zeta7 z index + i3i)\<rparr>)))"

text \<open>\<^verbatim>\<open>Corr3<D1,D2,D3>::finishProcess\<close> on the accumulator object \<open>a\<close>.\<close>

definition finishProcess ::
  "DataKind \<Rightarrow> 'p project \<Rightarrow> 'p cell \<Rightarrow> 'p cell \<Rightarrow> 'p cell \<Rightarrow>
   real \<Rightarrow> real \<Rightarrow> real \<Rightarrow> real \<Rightarrow> real \<Rightarrow> real \<Rightarrow> int \<Rightarrow> Corr3 \<Rightarrow> Corr3" where
  "finishProcess D Project c1 c2 c3 d1 d2 d3 logr u v index a =
     (let nnn = real_of_int (getN c1) * real_of_int (getN c2) * real_of_int (getN c3);
          www = getW c1 * getW c2 * getW c3
      in
      a\<lparr>ntri := (ntri a)(index := ntri a index + nnn),
        meand1 := (meand1 a)(index := meand1 a index + www * d1),
        meanlogd1 := (meanlogd1 a)(index := meanlogd1 a index + www * ln d1),
        meand2 := (meand2 a)(index := meand2 a index + www * d2),
        meanlogd2 := (meanlogd2 a)(index := meanlogd2 a index + www * logr),
        meand3 := (meand3 a)(index := meand3 a index + www * d3),
        meanlogd3 := (meanlogd3 a)(index := meanlogd3 a index + www * ln d3),
        meanu := (meanu a)(index := meanu a index + www * u),
        meanv := (meanv a)(index := meanv a index + www * v),
        weight := (weight a)(index := weight a index + www),
        zeta := ProcessZeta D Project c1 c2 c3 d1 d2 d3 (zeta a) index\<rparr>)"

text \<open>
  The accumulators live in a store, addressed by reference, since one object may be passed
  in several of the six places. The virtual call of \<^verbatim>\<open>finishProcess\<close> updates the object at
  address \<open>this\<close>.
\<close>

type_synonym store = "ref \<Rightarrow> Corr3"

definition finishProcess_at :: "DataKind \<Rightarrow> 'p project \<Rightarrow> ('p, store) finish" where
  "finishProcess_at D Project this c1 c2 c3 d1 d2 d3 logr u v index st =
     st(this := finishProcess D Project c1 c2 c3 d1 d2 d3 logr u v index (st this))"

subsection \<open>Accumulator operations\<close>

text \<open>The loop \<^verbatim>\<open>for (int i=0; i<n; ++i) x[i] += y[i];\<close>\<close>

definition add_loop :: "int \<Rightarrow> array \<Rightarrow> array \<Rightarrow> array" where
  "add_loop n x y = fold (\<lambda>i x. x(i := x i + y i)) [0..n - 1] x"

text \<open>The loop \<^verbatim>\<open>for (int i=0; i<n; ++i) x[i] = 0.;\<close>\<close>

definition zero_loop :: "int \<Rightarrow> array \<Rightarrow> array" where
  "zero_loop n x = fold (\<lambda>i x. x(i := 0)) [0..n - 1] x"

text \<open>
  Modelled from the spec: \<^verbatim>\<open>ZetaData::add\<close> and \<^verbatim>\<open>ZetaData::clear\<close> (Corr3.h) are missing;
  the addition is element-wise over all arrays, clearing zeroes every array.
\<close>

definition zeta_add :: "ZetaData \<Rightarrow> ZetaData \<Rightarrow> int \<Rightarrow> ZetaData" where
  "zeta_add z rhs n =
     \<lparr> zeta0 = add_loop n (zeta0 z) (zeta0 rhs), zeta1 = add_loop n (zeta1 z) (zeta1 rhs),
       zeta2 = add_loop n (zeta2 z) (zeta2 rhs), zeta3 = add_loop n (zeta3 z) (zeta3 rhs),
       zeta4 = add_loop n (zeta4 z) (zeta4 rhs), zeta5 = add_loop n (zeta5 z) (zeta5 rhs),
       zeta6 = add_loop n (zeta6 z) (zeta6 rhs), zeta7 = add_loop n (zeta7 z) (zeta7 rhs) \<rparr>"

definition zeta_clear :: "ZetaData \<Rightarrow> int \<Rightarrow> ZetaData" where
  "zeta_clear z n =
     \<lparr> zeta0 = zero_loop n (zeta0 z), zeta1 = zero_loop n (zeta1 z),
       zeta2 = zero_loop n (zeta2 z), zeta3 = zero_loop n (zeta3 z),
       zeta4 = zero_loop n (zeta4 z), zeta5 = zero_loop n (zeta5 z),
       zeta6 = zero_loop n (zeta6 z), zeta7 = zero_loop n (zeta7 z) \<rparr>"

text \<open>
  \<^verbatim>\<open>Corr3::operator+=\<close>, as \<^verbatim>\<open>a += rhs\<close> on the objects at the addresses \<open>ra\<close> and \<open>rb\<close> of
  the store. Each loop reads and writes element \<open>i\<close> only, so the result is the same when
  the two addresses are equal.
\<close>

definition plus_eq :: "bool \<Rightarrow> ref \<Rightarrow> ref \<Rightarrow> store \<Rightarrow> error \<times> store + store" where
  "plus_eq A ra rb st =
     (let a = st ra; rhs = st rb; n = ntot (base a) in
      if A \<and> \<not> ntot (base rhs) = n then Inl (AssertFailed, st)
      else
        Inr (st(ra := a\<lparr>
          zeta := zeta_add (zeta a) (zeta rhs) n,
          meand1 := add_loop n (meand1 a) (meand1 rhs),
          meanlogd1 := add_loop n (meanlogd1 a) (meanlogd1 rhs),
          meand2 := add_loop n (meand2 a) (meand2 rhs),
          meanlogd2 := add_loop n (meanlogd2 a) (meanlogd2 rhs),
          meand3 := add_loop n (meand3 a) (meand3 rhs),
          meanlogd3 := add_loop n (meanlogd3 a) (meanlogd3 rhs),
          meanu := add_loop n (meanu a) (meanu rhs),
          meanv := add_loop n (meanv a) (meanv rhs),
          weight := add_loop n (weight a) (weight rhs),
          ntri := add_loop n (ntri a) (ntri rhs)\<rparr>)))"

text \<open>\<^verbatim>\<open>Corr3::clear\<close>.\<close>

definition clear :: "Corr3 \<Rightarrow> Corr3" where
  "clear a =
     (let n = ntot (base a) in
      a\<lparr>zeta := zeta_clear (zeta a) n,
        meand1 := zero_loop n (meand1 a),
        meanlogd1 := zero_loop n (meanlogd1 a),
        meand2 := zero_loop n (meand2 a),
        meanlogd2 := zero_loop n (meanlogd2 a),
        meand3 := zero_loop n (meand3 a),
        meanlogd3 := zero_loop n (meanlogd3 a),
        meanu := zero_loop n (meanu a),
        meanv := zero_loop n (meanv a),
        weight := zero_loop n (weight a),
        ntri := zero_loop n (ntri a),
        base := (base a)\<lparr>coords := - 1\<rparr>\<rparr>)"

subsection \<open>The drivers\<close>

text \<open>
  The three \<^verbatim>\<open>BaseCorr3::process\<close> entry points, in the build without OpenMP, where the
  working accumulators are the ones passed (\<^verbatim>\<open>bc3 = *this\<close>). A field is the list of its
  top-level cells; \<open>C\<close> is the coordinate kind of the field. A loop over the indices
  \<open>i < n\<close> with inner loops over \<open>j > i\<close> is a recursion over the list and its tails.
  The progress dots are output only and are left out.
\<close>

fun auto_loop_k ::
  "('p, 's) finish \<Rightarrow> (ref \<Rightarrow> BaseCorr3) \<Rightarrow> bool \<Rightarrow> 'p metric \<Rightarrow> ref \<Rightarrow>
   'p cell \<Rightarrow> 'p cell \<Rightarrow> 'p cell list \<Rightarrow> 's \<Rightarrow> error \<times> 's + 's" where
  "auto_loop_k fin prm A M bc3 c1 c2 [] st = Inr st"
| "auto_loop_k fin prm A M bc3 c1 c2 (c3 # cs) st =
     ebind (process111 fin prm A M bc3 bc3 bc3 bc3 bc3 bc3 c1 c2 c3 0 0 0 st)
       (auto_loop_k fin prm A M bc3 c1 c2 cs)"

fun auto_loop_j ::
  "('p, 's) finish \<Rightarrow> (ref \<Rightarrow> BaseCorr3) \<Rightarrow> bool \<Rightarrow> 'p metric \<Rightarrow> ref \<Rightarrow>
   'p cell \<Rightarrow> 'p cell list \<Rightarrow> 's \<Rightarrow> error \<times> 's + 's" where
  "auto_loop_j fin prm A M bc3 c1 [] st = Inr st"
| "auto_loop_j fin prm A M bc3 c1 (c2 # cs) st =
     ebind (process12 fin prm A M bc3 bc3 bc3 c1 c2 st) (\<lambda>st.
     ebind (process12 fin prm A M bc3 bc3 bc3 c2 c1 st) (\<lambda>st.
     ebind (auto_loop_k fin prm A M bc3 c1 c2 cs st)
       (auto_loop_j fin prm A M bc3 c1 cs)))"

fun auto_loop_i ::
  "('p, 's) finish \<Rightarrow> (ref \<Rightarrow> BaseCorr3) \<Rightarrow> bool \<Rightarrow> 'p metric \<Rightarrow> ref \<Rightarrow>
   'p cell list \<Rightarrow> 's \<Rightarrow> error \<times> 's + 's" where
  "auto_loop_i fin prm A M bc3 [] st = Inr st"
| "auto_loop_i fin prm A M bc3 (c1 # cs) st =
     ebind (process3 fin prm A M bc3 c1 st) (\<lambda>st.
     ebind (auto_loop_j fin prm A M bc3 c1 cs st)
       (auto_loop_i fin prm A M bc3 cs))"

definition process_auto ::
  "DataKind \<Rightarrow> 'p project \<Rightarrow> bool \<Rightarrow> 'p metric \<Rightarrow> int \<Rightarrow> ref \<Rightarrow> 'p cell list \<Rightarrow> store \<Rightarrow>
   error \<times> store + store" where
  "process_auto D Project A M C this field st =
     (if A \<and> \<not> (coords (base (st this)) = - 1 \<or> coords (base (st this)) = C)
      then Inl (AssertFailed, st)
      else
        let st1 = st(this := (st this)\<lparr>base := (base (st this))\<lparr>coords := C\<rparr>\<rparr>);
            n1 = int (length field)
        in
        if A \<and> \<not> n1 > 0 then Inl (AssertFailed, st1)
        else auto_loop_i (finishProcess_at D Project) (\<lambda>r. base (st1 r)) A M this field st1)"

fun cross12_loop_k ::
  "('p, 's) finish \<Rightarrow> (ref \<Rightarrow> BaseCorr3) \<Rightarrow> bool \<Rightarrow> 'p metric \<Rightarrow> ref \<Rightarrow> ref \<Rightarrow> ref \<Rightarrow>
   'p cell \<Rightarrow> 'p cell \<Rightarrow> 'p cell list \<Rightarrow> 's \<Rightarrow> error \<times> 's + 's" where
  "cross12_loop_k fin prm A M bc122 bc212 bc221 c1 c2 [] st = Inr st"
| "cross12_loop_k fin prm A M bc122 bc212 bc221 c1 c2 (c3 # cs) st =
     ebind (process111 fin prm A M bc122 bc122 bc212 bc221 bc212 bc221 c1 c2 c3 0 0 0 st)
       (cross12_loop_k fin prm A M bc122 bc212 bc221 c1 c2 cs)"

fun cross12_loop_j ::
  "('p, 's) finish \<Rightarrow> (ref \<Rightarrow> BaseCorr3) \<Rightarrow> bool \<Rightarrow> 'p metric \<Rightarrow> ref \<Rightarrow> ref \<Rightarrow> ref \<Rightarrow>
   'p cell \<Rightarrow> 'p cell list \<Rightarrow> 's \<Rightarrow> error \<times> 's + 's" where
  "cross12_loop_j fin prm A M bc122 bc212 bc221 c1 [] st = Inr st"
| "cross12_loop_j fin prm A M bc122 bc212 bc221 c1 (c2 # cs) st =
     ebind (process12 fin prm A M bc122 bc212 bc221 c1 c2 st) (\<lambda>st.
     ebind (cross12_loop_k fin prm A M bc122 bc212 bc221 c1 c2 cs st)
       (cross12_loop_j fin prm A M bc122 bc212 bc221 c1 cs))"

fun cross12_loop_i ::
  "('p, 's) finish \<Rightarrow> (ref \<Rightarrow> BaseCorr3) \<Rightarrow> bool \<Rightarrow> 'p metric \<Rightarrow> ref \<Rightarrow> ref \<Rightarrow> ref \<Rightarrow>
   'p cell list \<Rightarrow> 'p cell list \<Rightarrow> 's \<Rightarrow> error \<times> 's + 's" where
  "cross12_loop_i fin prm A M bc122 bc212 bc221 [] field2 st = Inr st"
| "cross12_loop_i fin prm A M bc122 bc212 bc221 (c1 # cs) field2 st =
     ebind (cross12_loop_j fin prm A M bc122 bc212 bc221 c1 field2 st)
       (cross12_loop_i fin prm A M bc122 bc212 bc221 cs field2)"

definition process_cross12 ::
  "DataKind \<Rightarrow> 'p project \<Rightarrow> bool \<Rightarrow> 'p metric \<Rightarrow> int \<Rightarrow> ref \<Rightarrow> ref \<Rightarrow> ref \<Rightarrow>
   'p cell list \<Rightarrow> 'p cell list \<Rightarrow> store \<Rightarrow> error \<times> store + store" where
  "process_cross12 D Project A M C this corr212 corr221 field1 field2 st =
     (if A \<and> \<not> (coords (base (st this)) = - 1 \<or> coords (base (st this)) = C)
      then Inl (AssertFailed, st)
      else
        let st1 = st(this := (st this)\<lparr>base := (base (st this))\<lparr>coords := C\<rparr>\<rparr>);
            n1 = int (length field1);
            n2 = int (length field2)
        in
        if A \<and> \<not> n1 > 0 then Inl (AssertFailed, st1)
        else if A \<and> \<not> n2 > 0 then Inl (AssertFailed, st1)
        else cross12_loop_i (finishProcess_at D Project) (\<lambda>r. base (st1 r)) A M
               this corr212 corr221 field1 field2 st1)"

fun cross_loop_k ::
  "('p, 's) finish \<Rightarrow> (ref \<Rightarrow> BaseCorr3) \<Rightarrow> bool \<Rightarrow> 'p metric \<Rightarrow>
   ref \<Rightarrow> ref \<Rightarrow> ref \<Rightarrow> ref \<Rightarrow> ref \<Rightarrow> ref \<Rightarrow>
   'p cell \<Rightarrow> 'p cell \<Rightarrow> 'p cell list \<Rightarrow> 's \<Rightarrow> error \<times> 's + 's" where
  "cross_loop_k fin prm A M bc123 bc132 bc213 bc231 bc312 bc321 c1 c2 [] st = Inr st"
| "cross_loop_k fin prm A M bc123 bc132 bc213 bc231 bc312 bc321 c1 c2 (c3 # cs) st =
     ebind (process111 fin prm A M bc123 bc132 bc213 bc231 bc312 bc321 c1 c2 c3 0 0 0 st)
       (cross_loop_k fin prm A M bc123 bc132 bc213 bc231 bc312 bc321 c1 c2 cs)"

fun cross_loop_j ::
  "('p, 's) finish \<Rightarrow> (ref \<Rightarrow> BaseCorr3) \<Rightarrow> bool \<Rightarrow> 'p metric \<Rightarrow>
   ref \<Rightarrow> ref \<Rightarrow> ref \<Rightarrow> ref \<Rightarrow> ref \<Rightarrow> ref \<Rightarrow>
   'p cell \<Rightarrow> 'p cell list \<Rightarrow> 'p cell list \<Rightarrow> 's \<Rightarrow> error \<times> 's + 's" where
  "cross_loop_j fin prm A M bc123 bc132 bc213 bc231 bc312 bc321 c1 [] field3 st = Inr st"
| "cross_loop_j fin prm A M bc123 bc132 bc213 bc231 bc312 bc321 c1 (c2 # cs) field3 st =
     ebind (cross_loop_k fin prm A M bc123 bc132 bc213 bc231 bc312 bc321 c1 c2 field3 st)
       (cross_loop_j fin prm A M bc123 bc132 bc213 bc231 bc312 bc321 c1 cs field3)"

fun cross_loop_i ::
  "('p, 's) finish \<Rightarrow> (ref \<Rightarrow> BaseCorr3) \<Rightarrow> bool \<Rightarrow> 'p metric \<Rightarrow>
   ref \<Rightarrow> ref \<Rightarrow> ref \<Rightarrow> ref \<Rightarrow> ref \<Rightarrow> ref \<Rightarrow>
   'p cell list \<Rightarrow> 'p cell list \<Rightarrow> 'p cell list \<Rightarrow> 's \<Rightarrow> error \<times> 's + 's" where
  "cross_loop_i fin prm A M bc123 bc132 bc213 bc231 bc312 bc321 [] field2 field3 st = Inr st"
| "cross_loop_i fin prm A M bc123 bc132 bc213 bc231 bc312 bc321 (c1 # cs) field2 field3 st =
     ebind (cross_loop_j fin prm A M bc123 bc132 bc213 bc231 bc312 bc321 c1 field2 field3 st)
       (cross_loop_i fin prm A M bc123 bc132 bc213 bc231 bc312 bc321 cs field2 field3)"

definition process_cross ::
  "DataKind \<Rightarrow> 'p project \<Rightarrow> bool \<Rightarrow> 'p metric \<Rightarrow> int \<Rightarrow>
   ref \<Rightarrow> ref \<Rightarrow> ref \<Rightarrow> ref \<Rightarrow> ref \<Rightarrow> ref \<Rightarrow>
   'p cell list \<Rightarrow> 'p cell list \<Rightarrow> 'p cell list \<Rightarrow> store \<Rightarrow> error \<times> store + store" where
  "process_cross D Project A M C this corr132 corr213 corr231 corr312 corr321
       field1 field2 field3 st =
     (if A \<and> \<not> (coords (base (st this)) = - 1 \<or> coords (base (st this)) = C)
      then Inl (AssertFailed, st)
      else
        let st1 = st(this := (st this)\<lparr>base := (base (st this))\<lparr>coords := C\<rparr>\<rparr>);
            n1 = int (length field1);
            n2 = int (length field2);
            n3 = int (length field3)
        in
        if A \<and> \<not> n1 > 0 then Inl (AssertFailed, st1)
        else if A \<and> \<not> n2 > 0 then Inl (AssertFailed, st1)
        else if A \<and> \<not> n3 > 0 then Inl (AssertFailed, st1)
        else cross_loop_i (finishProcess_at D Project) (\<lambda>r. base (st1 r)) A M
               this corr132 corr213 corr231 corr312 corr321 field1 field2 field3 st1)"

text \<open>The per-bin arrays of an accumulator: the zeta payload, the means, weight and ntri.\<close>

definition array_fields :: "(Corr3 \<Rightarrow> array) list" where
  "array_fields =
     [\<lambda>a. zeta0 (zeta a), \<lambda>a. zeta1 (zeta a), \<lambda>a. zeta2 (zeta a), \<lambda>a. zeta3 (zeta a),
      \<lambda>a. zeta4 (zeta a), \<lambda>a. zeta5 (zeta a), \<lambda>a. zeta6 (zeta a), \<lambda>a. zeta7 (zeta a),
      meand1, meanlogd1, meand2, meanlogd2, meand3, meanlogd3,
      meanu, meanv, weight, ntri]"

subsection \<open>Concrete inputs\<close>

text \<open>
  A store for the examples: every address holds an accumulator with one bin per axis
  (\<open>ntot = 2\<close>), \<open>minsep = 1\<close>, \<open>maxsep = 2\<close>, and \<open>weight\<close> and \<open>ntri\<close> filled with the
  address.
\<close>

definition store0 :: store where
  "store0 = (\<lambda>r. \<lparr> base = BaseCorr3_ctor 1 2 1 1 1 0 1 1 1 1 0 1 1 1 1 0 0 0,
      owns_data = False,
      zeta = \<lparr> zeta0 = (\<lambda>i. 0), zeta1 = (\<lambda>i. 0), zeta2 = (\<lambda>i. 0), zeta3 = (\<lambda>i. 0),
               zeta4 = (\<lambda>i. 0), zeta5 = (\<lambda>i. 0), zeta6 = (\<lambda>i. 0), zeta7 = (\<lambda>i. 0) \<rparr>,
      meand1 = (\<lambda>i. 0), meanlogd1 = (\<lambda>i. 0), meand2 = (\<lambda>i. 0), meanlogd2 = (\<lambda>i. 0),
      meand3 = (\<lambda>i. 0), meanlogd3 = (\<lambda>i. 0), meanu = (\<lambda>i. 0), meanv = (\<lambda>i. 0),
      weight = (\<lambda>i. real r), ntri = (\<lambda>i. real r) \<rparr>)"

text \<open>
  The condition for splitting \<open>c3\<close> in the words of the specification (section 4.6, step 2),
  where \<open>d2\<^sup>2\<close> and \<open>d3\<^sup>2\<close> are the squared sides \<open>d2sq\<close> and \<open>d3sq\<close>.
\<close>

definition split3_spec :: "BaseCorr3 \<Rightarrow> real \<Rightarrow> real \<Rightarrow> real \<Rightarrow> real \<Rightarrow> real \<Rightarrow> bool" where
  "split3_spec P d2sq d3sq d2 s1 s3 =
     (s3 > 0 \<and>
       (s3 > b P * d2 \<or>
        (s1 + s3 > b P * d2 \<and> s3 \<ge> s1) \<or>
        (bu P < b P \<and> s3\<^sup>2 * d3sq > (bu P)\<^sup>2 * d2sq) \<or>
        (bv P < b P \<and> s3 > bv P * d2)))"

text \<open>Parameters with \<open>b = bv = 1\<close> and \<open>bu = 1/10\<close>, separations from 1 to 10.\<close>

definition params3 :: BaseCorr3 where
  "params3 = BaseCorr3_ctor 1 10 1 3 1 0 1 1 1 (1/10) 0 1 1 1 1 0 0 0"

text \<open>
  Permutations of the three places, written as the triple of labels that names a sibling
  accumulator: \<open>(1, 3, 2)\<close> is the permutation of \<^verbatim>\<open>bc132\<close>. A permutation \<open>p = (i, j, k)\<close>
  acts on a triple by selecting its components \<open>i, j, k\<close>; acting with \<open>q\<close> on the labels
  of \<open>p\<close> gives the labels of the composition (first \<open>q\<close>, then \<open>p\<close>). The table of the
  six accumulators a call holds maps each permutation to its accumulator.
\<close>

definition sel3 :: "nat \<Rightarrow> 'a \<times> 'a \<times> 'a \<Rightarrow> 'a" where
  "sel3 i x = (case x of (x1, x2, x3) \<Rightarrow> if i = 1 then x1 else if i = 2 then x2 else x3)"

definition act :: "nat \<times> nat \<times> nat \<Rightarrow> 'a \<times> 'a \<times> 'a \<Rightarrow> 'a \<times> 'a \<times> 'a" where
  "act p x = (case p of (i, j, k) \<Rightarrow> (sel3 i x, sel3 j x, sel3 k x))"

definition perms3 :: "(nat \<times> nat \<times> nat) list" where
  "perms3 = [(1, 2, 3), (1, 3, 2), (2, 1, 3), (2, 3, 1), (3, 1, 2), (3, 2, 1)]"

definition slot :: "ref \<times> ref \<times> ref \<times> ref \<times> ref \<times> ref \<Rightarrow> nat \<times> nat \<times> nat \<Rightarrow> ref" where
  "slot T p =
     (case T of (bc123, bc132, bc213, bc231, bc312, bc321) \<Rightarrow>
        if p = (1, 2, 3) then bc123
        else if p = (1, 3, 2) then bc132
        else if p = (2, 1, 3) then bc213
        else if p = (2, 3, 1) then bc231
        else if p = (3, 1, 2) then bc312
        else bc321)"

text \<open>
  The bin indices in the words of the specification (section 4.6, step 4): the floor, moved
  back by one where rounding puts it on the upper edge; the flat index with the \<open>v\<close> bin
  mirrored for a triangle that is not counter-clockwise.
\<close>

definition spec_kr :: "BaseCorr3 \<Rightarrow> real \<Rightarrow> int" where
  "spec_kr P d2 =
     (let k = \<lfloor>(ln d2 - logminsep P) / binsize P\<rfloor> in if k = nbins P then nbins P - 1 else k)"

definition spec_ku :: "BaseCorr3 \<Rightarrow> real \<Rightarrow> int" where
  "spec_ku P u =
     (let k = \<lfloor>(u - minu P) / ubinsize P\<rfloor> in if k \<ge> nubins P then k - 1 else k)"

definition spec_kv :: "BaseCorr3 \<Rightarrow> real \<Rightarrow> int" where
  "spec_kv P v =
     (let k = \<lfloor>(v - minv P) / vbinsize P\<rfloor> in if k \<ge> nvbins P then k - 1 else k)"


text \<open>What the commit block passes on when no assertion fails.\<close>

definition commit_spec ::
  "BaseCorr3 \<Rightarrow> bool \<Rightarrow> real \<Rightarrow> real \<Rightarrow> real \<Rightarrow> (real \<times> real \<times> int) option" where
  "commit_spec P ccw d2 u v =
     (if d2 < minsep P \<or> d2 \<ge> maxsep P \<or> u < minu P \<or> u \<ge> maxu P \<or>
         v < minv P \<or> v \<ge> maxv P
      then None
      else
        let index = spec_kr P d2 * nuv P + spec_ku P u * nvbins2 P +
                    (if ccw then spec_kv P v + nvbins P else nvbins P - spec_kv P v - 1)
        in if index < 0 \<or> index \<ge> ntot P then None
           else Some (ln d2, if ccw then v else - v, index))"

text \<open>
  Modelled from the spec: the Euclidean metric on flat coordinates (Metric.h is missing):
  the exact squared distance of the centres, the sizes unused, and the orientation of the
  three points by the sign of the cross product.
\<close>

definition Flat_Euclidean :: "(real \<times> real) metric" where
  "Flat_Euclidean =
     \<lparr> DistSq = (\<lambda>p q s1 s2. SQR (fst p - fst q) + SQR (snd p - snd q)),
       CCW = (\<lambda>p1 p2 p3.
          (fst p2 - fst p1) * (snd p3 - snd p1) - (fst p3 - fst p1) * (snd p2 - snd p1) > 0) \<rparr>"

text \<open>A leaf cell holding \<open>n0\<close> points of total weight \<open>w0\<close> at position \<open>p\<close>.\<close>

definition leaf :: "real \<times> real \<Rightarrow> real \<Rightarrow> int \<Rightarrow> (real \<times> real) cell" where
  "leaf p w0 n0 = Cell p 0 w0 n0 0 0 None None"

text \<open>
  A kernel commit that only records its call: the accumulator, the cells, and
  \<open>(d1, d2, d3, logr, u, v, index)\<close>. The state is the list of the calls made so far.
\<close>

type_synonym 'p commit =
  "ref \<times> 'p cell \<times> 'p cell \<times> 'p cell \<times> real \<times> real \<times> real \<times> real \<times> real \<times> real \<times> int"

definition record_commit :: "('p, 'p commit list) finish" where
  "record_commit this c1 c2 c3 d1 d2 d3 logr u v index tr =
     tr @ [(this, c1, c2, c3, d1, d2, d3, logr, u, v, index)]"

text \<open>
  The isosceles triangle \<open>(0,0), (10,0), (5,12)\<close> with sides 13, 13, 10, as three leaves of
  weight 1; parameters with one bin per axis, separations from 13 to 26; the same with
  \<open>ubinsize = 1/10\<close>, which does not fit \<open>nubins = 1\<close>.
\<close>

definition cellA :: "(real \<times> real) cell" where "cellA = leaf (0, 0) 1 1"
definition cellB :: "(real \<times> real) cell" where "cellB = leaf (10, 0) 1 1"
definition cellC :: "(real \<times> real) cell" where "cellC = leaf (5, 12) 1 1"

definition params13 :: BaseCorr3 where
  "params13 = BaseCorr3_ctor 13 26 1 1 (1/10) 0 1 1 1 (1/10) 0 1 1 1 (1/10) 0 0 0"


text \<open>
  The right triangle \<open>(4,0), (4,-3), (0,0)\<close> with sides 5, 4, 3, listed clockwise, as three
  leaves of weight 1; parameters with one bin per axis, separations from 4 to 8; a store
  of zeroed accumulators with given parameters.
\<close>

definition cellD :: "(real \<times> real) cell" where "cellD = leaf (4, 0) 1 1"
definition cellE :: "(real \<times> real) cell" where "cellE = leaf (4, - 3) 1 1"
definition cellF :: "(real \<times> real) cell" where "cellF = leaf (0, 0) 1 1"

definition params4 :: BaseCorr3 where
  "params4 = BaseCorr3_ctor 4 8 1 1 (1/10) 0 1 1 1 (1/10) 0 1 1 1 (1/10) 0 0 0"

definition zero_store :: "BaseCorr3 \<Rightarrow> store" where
  "zero_store P = (\<lambda>r. \<lparr> base = P,
      owns_data = False,
      zeta = \<lparr> zeta0 = (\<lambda>i. 0), zeta1 = (\<lambda>i. 0), zeta2 = (\<lambda>i. 0), zeta3 = (\<lambda>i. 0),
               zeta4 = (\<lambda>i. 0), zeta5 = (\<lambda>i. 0), zeta6 = (\<lambda>i. 0), zeta7 = (\<lambda>i. 0) \<rparr>,
      meand1 = (\<lambda>i. 0), meanlogd1 = (\<lambda>i. 0), meand2 = (\<lambda>i. 0), meanlogd2 = (\<lambda>i. 0),
      meand3 = (\<lambda>i. 0), meanlogd3 = (\<lambda>i. 0), meanu = (\<lambda>i. 0), meanv = (\<lambda>i. 0),
      weight = (\<lambda>i. 0), ntri = (\<lambda>i. 0) \<rparr>)"

text \<open>The projection that leaves the three shears as they are.\<close>

definition no_projection :: "'p project" where
  "no_projection c1 c2 c3 g = g"

text \<open>
  The state a procedure leaves behind, whether it returned or aborted: an abort keeps the
  updates made before it.
\<close>

definition outcome_state :: "error \<times> 's + 's \<Rightarrow> 's" where
  "outcome_state r = (case r of Inl (e, s) \<Rightarrow> s | Inr s \<Rightarrow> s)"

subsection \<open>Predicates of the specification\<close>

text \<open>
  The accepted ranges of a triangle: \<open>minsep \<le> d2 < maxsep\<close>, \<open>minu \<le> u < maxu\<close> and
  \<open>minv \<le> |v| < maxv\<close>; and a recorded kernel commit whose arguments lie in them, with an
  index inside the arrays.
\<close>

definition in_ranges :: "BaseCorr3 \<Rightarrow> real \<Rightarrow> real \<Rightarrow> real \<Rightarrow> bool" where
  "in_ranges P d2 u v =
     (minsep P \<le> d2 \<and> d2 < maxsep P \<and> minu P \<le> u \<and> u < maxu P \<and>
      minv P \<le> \<bar>v\<bar> \<and> \<bar>v\<bar> < maxv P)"

definition commit_in_ranges :: "(ref \<Rightarrow> BaseCorr3) \<Rightarrow> 'p commit \<Rightarrow> bool" where
  "commit_in_ranges prm e =
     (case e of (this, c1, c2, c3, d1, d2, d3, logr, u, v, index) \<Rightarrow>
        in_ranges (prm this) d2 u v \<and> 0 \<le> index \<and> index < ntot (prm this))"

text \<open>
  The early returns of \<^verbatim>\<open>process12\<close> and \<^verbatim>\<open>process3\<close>, as the disjunction of their tests
  in the order of the source.
\<close>

definition returns12 :: "BaseCorr3 \<Rightarrow> 'p metric \<Rightarrow> 'p cell \<Rightarrow> 'p cell \<Rightarrow> bool" where
  "returns12 P M c1 c2 =
     (let s1 = getSize c1; s2 = getSize c2;
          dsq = DistSq M (getPos c1) (getPos c2) s1 s2
      in
      getW c1 = 0 \<or> getW c2 = 0 \<or> s2 = 0 \<or> s2 < halfmind3 P \<or>
      (dsq < minsepsq P \<and> s1 + s2 < minsep P \<and> dsq < SQR (minsep P - (s1 + s2))) \<or>
      (dsq \<ge> maxsepsq P \<and> dsq \<ge> SQR (maxsep P + (s1 + s2))) \<or>
      (dsq > SQR (s1 + s2) \<and> minusq P * dsq > SQR (2 * s2 + minu P * (s1 + s2))))"

definition returns3 :: "BaseCorr3 \<Rightarrow> 'p cell \<Rightarrow> bool" where
  "returns3 P c1 = (getW c1 = 0 \<or> getSize c1 < halfminsep P)"

text \<open>
  A run of a procedure on the trace \<open>tr\<close> of the recording kernel keeps \<open>tr\<close> and adds only
  commits whose arguments lie in the accepted ranges.
\<close>

definition extends_in_ranges ::
  "(ref \<Rightarrow> BaseCorr3) \<Rightarrow> 'p commit list \<Rightarrow> error \<times> 'p commit list + 'p commit list \<Rightarrow> bool" where
  "extends_in_ranges prm tr r =
     (take (length tr) (outcome_state r) = tr \<and>
      list_all (commit_in_ranges prm) (drop (length tr) (outcome_state r)))"

text \<open>
  The shape of a cell tree the recursions expect: a cell without a left child has no right
  child and size 0; a cell with a left child has a right child, and both are of this shape.
\<close>

fun wf_cell :: "'p cell \<Rightarrow> bool" where
  "wf_cell (Cell p s w n wk wg l r) =
     (case l of
        None \<Rightarrow> r = None \<and> s = 0
      | Some cl \<Rightarrow> (case r of None \<Rightarrow> False | Some cr \<Rightarrow> wf_cell cl \<and> wf_cell cr))"

text \<open>
  A cell of size 5 with the leaves \<open>(0,0)\<close> and \<open>(10,0)\<close> as children, and parameters with
  \<open>minsep = 0\<close>.
\<close>

definition cellAB :: "(real \<times> real) cell" where
  "cellAB = Cell (5, 0) 5 2 2 0 0 (Some cellA) (Some cellB)"

definition params0 :: BaseCorr3 where
  "params0 = BaseCorr3_ctor 0 8 1 1 (1/10) 0 1 1 1 (1/10) 0 1 1 1 (1/10) 0 0 0"

subsection \<open>The recursive calls and their measure\<close>

text \<open>
  The arguments of a call of \<^verbatim>\<open>process111\<close> or \<^verbatim>\<open>process111Sorted\<close>, of \<^verbatim>\<open>process12\<close> and of
  \<^verbatim>\<open>process3\<close>, as the call relations \<open>process111_process111Sorted_rel\<close>, \<open>process12_rel\<close>
  and \<open>process3_rel\<close> of the three definitions have them (a call of \<^verbatim>\<open>process111\<close> is
  \<open>Inl\<close>, one of \<^verbatim>\<open>process111Sorted\<close> is \<open>Inr\<close>), and the cells they recurse on.
\<close>

type_synonym ('p, 's) args111 =
  "('p, 's) finish \<times> (ref \<Rightarrow> BaseCorr3) \<times> bool \<times> 'p metric \<times>
   ref \<times> ref \<times> ref \<times> ref \<times> ref \<times> ref \<times> 'p cell \<times> 'p cell \<times> 'p cell \<times>
   real \<times> real \<times> real \<times> 's"

type_synonym ('p, 's) args12 =
  "('p, 's) finish \<times> (ref \<Rightarrow> BaseCorr3) \<times> bool \<times> 'p metric \<times>
   ref \<times> ref \<times> ref \<times> 'p cell \<times> 'p cell \<times> 's"

type_synonym ('p, 's) args3 =
  "('p, 's) finish \<times> (ref \<Rightarrow> BaseCorr3) \<times> bool \<times> 'p metric \<times> ref \<times> 'p cell \<times> 's"

definition cells111 :: "('p, 's) args111 \<Rightarrow> 'p cell \<times> 'p cell \<times> 'p cell" where
  "cells111 x =
     (case x of (fin, prm, A, M, this, bc132, bc213, bc231, bc312, bc321, c1, c2, c3, r) \<Rightarrow>
        (c1, c2, c3))"

definition cell12 :: "('p, 's) args12 \<Rightarrow> 'p cell" where
  "cell12 x = (case x of (fin, prm, A, M, this, bc212, bc221, c1, c2, st) \<Rightarrow> c2)"

definition cell3 :: "('p, 's) args3 \<Rightarrow> 'p cell" where
  "cell3 x = (case x of (fin, prm, A, M, this, c1, st) \<Rightarrow> c1)"

text \<open>
  The measure of a call of the triple recursion: twice the sum of the depths of the three
  cells, plus one for \<^verbatim>\<open>process111\<close>, which passes its cells on to \<^verbatim>\<open>process111Sorted\<close>.
\<close>

definition depth3 :: "'p cell \<times> 'p cell \<times> 'p cell \<Rightarrow> nat" where
  "depth3 t = (case t of (c1, c2, c3) \<Rightarrow> depth c1 + depth c2 + depth c3)"

definition level111 :: "('p, 's) args111 + ('p, 's) args111 \<Rightarrow> nat" where
  "level111 x = (case x of Inl a \<Rightarrow> 2 * depth3 (cells111 a) + 1
                         | Inr a \<Rightarrow> 2 * depth3 (cells111 a))"

text \<open>
  A split step from the cells \<open>(c1, c2, c3)\<close> to \<open>(a1, a2, a3)\<close>: each cell is kept or replaced
  by one of its children, and at least one cell of positive size is replaced.
\<close>

definition is_child :: "'p cell \<Rightarrow> 'p cell \<Rightarrow> bool" where
  "is_child a c = (getLeft c = Some a \<or> getRight c = Some a)"

definition split_step :: "'p cell \<times> 'p cell \<times> 'p cell \<Rightarrow> 'p cell \<times> 'p cell \<times> 'p cell \<Rightarrow> bool" where
  "split_step t' t =
     (case t' of (a1, a2, a3) \<Rightarrow> case t of (c1, c2, c3) \<Rightarrow>
        (a1 = c1 \<or> is_child a1 c1) \<and> (a2 = c2 \<or> is_child a2 c2) \<and>
        (a3 = c3 \<or> is_child a3 c3) \<and>
        ((is_child a1 c1 \<and> 0 < getSize c1) \<or> (is_child a2 c2 \<and> 0 < getSize c2) \<or>
         (is_child a3 c3 \<and> 0 < getSize c3)))"

text \<open>A cell of size 5 at \<open>(5,12)\<close> with the leaves \<open>(2,8)\<close> and \<open>(8,16)\<close> as children.\<close>

definition cellG :: "(real \<times> real) cell" where "cellG = leaf (2, 8) 1 1"
definition cellH :: "(real \<times> real) cell" where "cellH = leaf (8, 16) 1 1"
definition cellGH :: "(real \<times> real) cell" where
  "cellGH = Cell (5, 12) 5 2 2 0 0 (Some cellG) (Some cellH)"

subsection \<open>Fields of unit-weight points and the count of triangles\<close>

text \<open>
  The points of a cell are the positions of its leaves. A cell of a field of points of
  weight 1 at distinct positions: its weight is its number of points, its size is not
  negative, a leaf has size 0 and one point, and any other cell has both children, with
  disjoint points, and as many points as the two together.
\<close>

fun pts :: "'p cell \<Rightarrow> 'p list" where
  "pts (Cell p s w n wk wg l r) =
     (case l of None \<Rightarrow> [p]
      | Some cl \<Rightarrow> pts cl @ (case r of None \<Rightarrow> [] | Some cr \<Rightarrow> pts cr))"

fun unit_cell :: "'p cell \<Rightarrow> bool" where
  "unit_cell (Cell p s w n wk wg l r) =
     (w = real_of_int n \<and> 0 \<le> s \<and>
      (case l of
         None \<Rightarrow> r = None \<and> s = 0 \<and> n = 1
       | Some cl \<Rightarrow>
           (case r of
              None \<Rightarrow> False
            | Some cr \<Rightarrow> n = getN cl + getN cr \<and> unit_cell cl \<and> unit_cell cr \<and>
                         set (pts cl) \<inter> set (pts cr) = {})))"

text \<open>
  All the cells of a tree, and of a field (the list of its top-level cells); all the points
  of a field; two cells are separate when they share no point.
\<close>

fun subcells :: "'p cell \<Rightarrow> 'p cell list" where
  "subcells (Cell p s w n wk wg l r) =
     Cell p s w n wk wg l r #
     (case l of None \<Rightarrow> [] | Some cl \<Rightarrow> subcells cl) @
     (case r of None \<Rightarrow> [] | Some cr \<Rightarrow> subcells cr)"

definition field_cells :: "'p cell list \<Rightarrow> 'p cell list" where
  "field_cells f = concat (map subcells f)"

definition field_pts :: "'p cell list \<Rightarrow> 'p list" where
  "field_pts f = concat (map pts f)"

definition sep :: "'p cell \<Rightarrow> 'p cell \<Rightarrow> bool" where
  "sep a c = (set (pts a) \<inter> set (pts c) = {})"

text \<open>
  The number of points of a cell as \<^verbatim>\<open>finishProcess\<close> reads it (\<^verbatim>\<open>getN\<close> converted to
  \<^verbatim>\<open>double\<close>), the squared distance of two cell centres as \<^verbatim>\<open>process111\<close> computes it, and
  the numbers of pairs and of triples among \<open>n\<close> points.
\<close>

definition npts :: "'p cell \<Rightarrow> real" where
  "npts c = real_of_int (getN c)"

definition centre_dsq :: "'p metric \<Rightarrow> 'p cell \<Rightarrow> 'p cell \<Rightarrow> real" where
  "centre_dsq M a c = DistSq M (getPos a) (getPos c) 0 0"

definition choose2 :: "real \<Rightarrow> real" where
  "choose2 n = n * (n - 1) / 2"

definition choose3 :: "real \<Rightarrow> real" where
  "choose3 n = n * (n - 1) * (n - 2) / 6"

text \<open>
  A run from the state \<open>st\<close> returns normally and raises the measure \<open>\<mu>\<close> of the state by \<open>k\<close>.
\<close>

definition adds :: "('s \<Rightarrow> real) \<Rightarrow> real \<Rightarrow> 's \<Rightarrow> error \<times> 's + 's \<Rightarrow> bool" where
  "adds \<mu> k st res = (case res of Inl e \<Rightarrow> False | Inr st' \<Rightarrow> \<mu> st' = \<mu> st + k)"

text \<open>
  A triple of cells with the squared sides \<open>d1sq, d2sq, d3sq\<close> is not pruned by
  \<^verbatim>\<open>process111Sorted\<close> under the parameters \<open>P\<close>: \<^verbatim>\<open>stop111\<close> is false, and the triple is split
  or the commit block reaches \<^verbatim>\<open>directProcess111\<close>. For a triple of cells in a given order
  this is asked when the order is the sorted one, for every accumulator of the list \<open>R\<close>.
  For a pair and for a single cell: the early returns of \<^verbatim>\<open>process12\<close> do not fire when
  the second cell has two points or more, nor those of \<^verbatim>\<open>process3\<close> when the cell has
  three or more.
\<close>

definition passes ::
  "bool \<Rightarrow> BaseCorr3 \<Rightarrow> 'p metric \<Rightarrow> 'p cell \<Rightarrow> 'p cell \<Rightarrow> 'p cell \<Rightarrow> real \<Rightarrow> real \<Rightarrow> real \<Rightarrow> bool"
  where
  "passes A P M c1 c2 c3 d1sq d2sq d3sq =
     (case stop111 d1sq d2sq d3sq (getSize c1) (getSize c2) (getSize c3)
             (minsep P) (minsepsq P) (maxsep P) (maxsepsq P)
             (minu P) (minusq P) (maxu P) (maxusq P)
             (minv P) (minvsq P) (maxv P) (maxvsq P) of
        (stop, d2) \<Rightarrow>
          \<not> stop \<and>
          (case decide_split P d1sq d2sq d3sq d2 (getSize c1) (getSize c2) (getSize c3) of
             (split, sp1, sp2, sp3, d1, d3, u, v) \<Rightarrow>
               split \<or>
               (case commit_bins A P (CCW M (getPos c1) (getPos c2) (getPos c3)) d1 d2 d3 u v of
                  Inl e \<Rightarrow> False
                | Inr None \<Rightarrow> False
                | Inr (Some x) \<Rightarrow> True)))"

definition noprune111 ::
  "(ref \<Rightarrow> BaseCorr3) \<Rightarrow> ref list \<Rightarrow> bool \<Rightarrow> 'p metric \<Rightarrow> 'p cell \<Rightarrow> 'p cell \<Rightarrow> 'p cell \<Rightarrow> bool"
  where
  "noprune111 prm R A M c1 c2 c3 =
     (centre_dsq M c2 c3 \<ge> centre_dsq M c1 c3 \<and> centre_dsq M c1 c3 \<ge> centre_dsq M c1 c2 \<longrightarrow>
      (\<forall>r \<in> set R. passes A (prm r) M c1 c2 c3
         (centre_dsq M c2 c3) (centre_dsq M c1 c3) (centre_dsq M c1 c2)))"

definition noprune12 ::
  "(ref \<Rightarrow> BaseCorr3) \<Rightarrow> ref list \<Rightarrow> 'p metric \<Rightarrow> 'p cell \<Rightarrow> 'p cell \<Rightarrow> bool" where
  "noprune12 prm R M c1 c2 = (2 \<le> getN c2 \<longrightarrow> (\<forall>r \<in> set R. \<not> returns12 (prm r) M c1 c2))"

definition noprune3 :: "(ref \<Rightarrow> BaseCorr3) \<Rightarrow> ref list \<Rightarrow> 'p cell \<Rightarrow> bool" where
  "noprune3 prm R c = (3 \<le> getN c \<longrightarrow> (\<forall>r \<in> set R. \<not> returns3 (prm r) c))"

text \<open>
  Families of triples, pairs and single cells the recursion stays in: closed under the
  exchange of two cells and under the replacement of a cell by its children, made of
  unit-weight cells, and never pruned.
\<close>

definition triples_ok ::
  "(ref \<Rightarrow> BaseCorr3) \<Rightarrow> ref list \<Rightarrow> bool \<Rightarrow> 'p metric \<Rightarrow>
   ('p cell \<Rightarrow> 'p cell \<Rightarrow> 'p cell \<Rightarrow> bool) \<Rightarrow> bool" where
  "triples_ok prm R A M T =
     (\<forall>a c e. T a c e \<longrightarrow>
        T a e c \<and> T c a e \<and> unit_cell a \<and> noprune111 prm R A M a c e \<and>
        (\<forall>l r. getLeft a = Some l \<and> getRight a = Some r \<longrightarrow> T l c e \<and> T r c e))"

definition pairs_ok ::
  "(ref \<Rightarrow> BaseCorr3) \<Rightarrow> ref list \<Rightarrow> 'p metric \<Rightarrow>
   ('p cell \<Rightarrow> 'p cell \<Rightarrow> 'p cell \<Rightarrow> bool) \<Rightarrow> ('p cell \<Rightarrow> 'p cell \<Rightarrow> bool) \<Rightarrow> bool" where
  "pairs_ok prm R M T P2 =
     (\<forall>a c. P2 a c \<longrightarrow>
        unit_cell a \<and> unit_cell c \<and> noprune12 prm R M a c \<and>
        (\<forall>l r. getLeft c = Some l \<and> getRight c = Some r \<longrightarrow> P2 a l \<and> P2 a r \<and> T a l r))"

definition cells_ok ::
  "(ref \<Rightarrow> BaseCorr3) \<Rightarrow> ref list \<Rightarrow> ('p cell \<Rightarrow> 'p cell \<Rightarrow> bool) \<Rightarrow> ('p cell \<Rightarrow> bool) \<Rightarrow> bool" where
  "cells_ok prm R P2 P1 =
     (\<forall>c. P1 c \<longrightarrow>
        unit_cell c \<and> noprune3 prm R c \<and>
        (\<forall>l r. getLeft c = Some l \<and> getRight c = Some r \<longrightarrow>
           P1 l \<and> P1 r \<and> P2 l r \<and> P2 r l))"

text \<open>
  The triples with one cell from each of three sets of cells, in any order, pairwise
  separate; the separate pairs; and sets of cells closed under taking children.
\<close>

definition sep3 :: "'p cell \<Rightarrow> 'p cell \<Rightarrow> 'p cell \<Rightarrow> bool" where
  "sep3 a c e = (sep a c \<and> sep a e \<and> sep c e)"

definition triple_of ::
  "'p cell set \<Rightarrow> 'p cell set \<Rightarrow> 'p cell set \<Rightarrow> 'p cell \<Rightarrow> 'p cell \<Rightarrow> 'p cell \<Rightarrow> bool" where
  "triple_of S1 S2 S3 a c e =
     (sep3 a c e \<and>
      (a \<in> S1 \<and> c \<in> S2 \<and> e \<in> S3 \<or> a \<in> S1 \<and> e \<in> S2 \<and> c \<in> S3 \<or>
       c \<in> S1 \<and> a \<in> S2 \<and> e \<in> S3 \<or> c \<in> S1 \<and> e \<in> S2 \<and> a \<in> S3 \<or>
       e \<in> S1 \<and> a \<in> S2 \<and> c \<in> S3 \<or> e \<in> S1 \<and> c \<in> S2 \<and> a \<in> S3))"

definition pair_of :: "'p cell set \<Rightarrow> 'p cell set \<Rightarrow> 'p cell \<Rightarrow> 'p cell \<Rightarrow> bool" where
  "pair_of S1 S2 a c = (a \<in> S1 \<and> c \<in> S2 \<and> sep a c)"

definition closed_cells :: "'p cell set \<Rightarrow> bool" where
  "closed_cells S =
     (\<forall>x \<in> S. unit_cell x \<and>
        (\<forall>l r. getLeft x = Some l \<and> getRight x = Some r \<longrightarrow> l \<in> S \<and> r \<in> S))"

text \<open>
  The total of \<^verbatim>\<open>ntri\<close> over all bins of the accumulators of the list \<open>R\<close> (each counted
  once), where \<open>prm\<close> gives the number of bins of each.
\<close>

definition total_ntri :: "(ref \<Rightarrow> BaseCorr3) \<Rightarrow> ref list \<Rightarrow> store \<Rightarrow> real" where
  "total_ntri prm R st =
     (\<Sum>r \<leftarrow> remdups R. \<Sum>i \<leftarrow> [0..ntot (prm r) - 1]. ntri (st r) i)"

text \<open>
  A metric whose squared distances are symmetric and not negative; fields of unit-weight
  cells with all points at distinct positions; and the absence of pruning on the cells of
  given fields.
\<close>

definition valid_metric :: "'p metric \<Rightarrow> bool" where
  "valid_metric M =
     (\<forall>p q. 0 \<le> DistSq M p q 0 0 \<and> DistSq M p q 0 0 = DistSq M q p 0 0)"

definition valid_fields :: "'p cell list \<Rightarrow> bool" where
  "valid_fields f = ((\<forall>c \<in> set f. unit_cell c) \<and> distinct (field_pts f))"

definition no_pruning111 ::
  "(ref \<Rightarrow> BaseCorr3) \<Rightarrow> ref list \<Rightarrow> bool \<Rightarrow> 'p metric \<Rightarrow>
   'p cell list \<Rightarrow> 'p cell list \<Rightarrow> 'p cell list \<Rightarrow> bool" where
  "no_pruning111 prm R A M L1 L2 L3 =
     (\<forall>a \<in> set (L1 @ L2 @ L3). \<forall>c \<in> set (L1 @ L2 @ L3). \<forall>e \<in> set (L1 @ L2 @ L3).
        triple_of (set L1) (set L2) (set L3) a c e \<longrightarrow> noprune111 prm R A M a c e)"

definition no_pruning12 ::
  "(ref \<Rightarrow> BaseCorr3) \<Rightarrow> ref list \<Rightarrow> 'p metric \<Rightarrow> 'p cell list \<Rightarrow> 'p cell list \<Rightarrow> bool" where
  "no_pruning12 prm R M L1 L2 =
     (\<forall>a \<in> set L1. \<forall>c \<in> set L2. sep a c \<longrightarrow> noprune12 prm R M a c)"

definition no_pruning3 :: "(ref \<Rightarrow> BaseCorr3) \<Rightarrow> ref list \<Rightarrow> 'p cell list \<Rightarrow> bool" where
  "no_pruning3 prm R L = (\<forall>c \<in> set L. noprune3 prm R c)"

text \<open>
  The preconditions of the three entry points for the count of triangles: nonempty valid
  fields, an accumulator whose coordinate kind is unset or the one of the fields, no
  pruning on the cells of the fields under the parameters of the accumulators in use, and
  for the auto-correlation a positive \<open>minsep\<close>.
\<close>

definition auto_ok :: "bool \<Rightarrow> 'p metric \<Rightarrow> int \<Rightarrow> ref \<Rightarrow> 'p cell list \<Rightarrow> store \<Rightarrow> bool" where
  "auto_ok A M C this field st =
     (let prm = (\<lambda>r. base (st r)); L = field_cells field; R = [this] in
      field \<noteq> [] \<and> (coords (prm this) = - 1 \<or> coords (prm this) = C) \<and>
      valid_fields field \<and> 0 < halfminsep (prm this) \<and>
      no_pruning111 prm R A M L L L \<and> no_pruning12 prm R M L L \<and> no_pruning3 prm R L)"

definition cross12_ok ::
  "bool \<Rightarrow> 'p metric \<Rightarrow> int \<Rightarrow> ref \<Rightarrow> ref \<Rightarrow> ref \<Rightarrow> 'p cell list \<Rightarrow> 'p cell list \<Rightarrow> store \<Rightarrow> bool"
  where
  "cross12_ok A M C this corr212 corr221 field1 field2 st =
     (let prm = (\<lambda>r. base (st r)); L1 = field_cells field1; L2 = field_cells field2;
          R = [this, corr212, corr221] in
      field1 \<noteq> [] \<and> field2 \<noteq> [] \<and> (coords (prm this) = - 1 \<or> coords (prm this) = C) \<and>
      valid_fields (field1 @ field2) \<and>
      no_pruning111 prm R A M L1 L2 L2 \<and> no_pruning12 prm R M L1 L2)"

definition cross_ok ::
  "bool \<Rightarrow> 'p metric \<Rightarrow> int \<Rightarrow> ref \<Rightarrow> ref \<Rightarrow> ref \<Rightarrow> ref \<Rightarrow> ref \<Rightarrow> ref \<Rightarrow>
   'p cell list \<Rightarrow> 'p cell list \<Rightarrow> 'p cell list \<Rightarrow> store \<Rightarrow> bool" where
  "cross_ok A M C this corr132 corr213 corr231 corr312 corr321 field1 field2 field3 st =
     (let prm = (\<lambda>r. base (st r)); L1 = field_cells field1; L2 = field_cells field2;
          L3 = field_cells field3; R = [this, corr132, corr213, corr231, corr312, corr321] in
      field1 \<noteq> [] \<and> field2 \<noteq> [] \<and> field3 \<noteq> [] \<and>
      (coords (prm this) = - 1 \<or> coords (prm this) = C) \<and>
      valid_fields (field1 @ field2 @ field3) \<and>
      no_pruning111 prm R A M L1 L2 L3)"

text \<open>The store after the assignment \<^verbatim>\<open>_coords = C\<close> of an entry point.\<close>

definition with_coords :: "int \<Rightarrow> ref \<Rightarrow> store \<Rightarrow> store" where
  "with_coords C this st = st(this := (st this)\<lparr>base := (base (st this))\<lparr>coords := C\<rparr>\<rparr>)"

text \<open>
  In the words of the specification: the triangle of three points has its \<open>d2\<close>, \<open>u\<close> and \<open>v\<close>
  in the accepted ranges, where \<open>d1 \<ge> d2 \<ge> d3\<close> are its sides, \<open>u = d3 / d2\<close> and
  \<open>v = (d1 - d2) / d3\<close>.
\<close>

definition triangle_in_ranges :: "BaseCorr3 \<Rightarrow> 'p metric \<Rightarrow> 'p \<Rightarrow> 'p \<Rightarrow> 'p \<Rightarrow> bool" where
  "triangle_in_ranges P M p1 p2 p3 =
     (let s1 = sqrt (DistSq M p2 p3 0 0);
          s2 = sqrt (DistSq M p1 p3 0 0);
          s3 = sqrt (DistSq M p1 p2 0 0);
          d1 = max s1 (max s2 s3);
          d3 = min s1 (min s2 s3);
          d2 = s1 + s2 + s3 - d1 - d3
      in in_ranges P d2 (d3 / d2) ((d1 - d2) / d3))"

text \<open>
  Two points \<open>(220, 21)\<close> and \<open>(220, -21)\<close> in one cell (centre \<open>(220, 0)\<close>, size 21), and
  the points \<open>(220, 165)\<close> and \<open>(0, 0)\<close>: the two triangles have the sides 275, 221, 144 and
  275, 221, 186, the triangle of the centres has the sides 275, 220, 165. Parameters with one
  bin per axis and separations from 221 to 442; \<open>slop\<close> is the value of \<open>b\<close>, \<open>bu\<close> and \<open>bv\<close>.
\<close>

definition cellQ1 :: "(real \<times> real) cell" where "cellQ1 = leaf (220, 21) 1 1"
definition cellQ2 :: "(real \<times> real) cell" where "cellQ2 = leaf (220, - 21) 1 1"
definition cellQ :: "(real \<times> real) cell" where
  "cellQ = Cell (220, 0) 21 2 2 0 0 (Some cellQ1) (Some cellQ2)"
definition cellP :: "(real \<times> real) cell" where "cellP = leaf (220, 165) 1 1"
definition cellO :: "(real \<times> real) cell" where "cellO = leaf (0, 0) 1 1"

definition params221 :: "real \<Rightarrow> BaseCorr3" where
  "params221 slop = BaseCorr3_ctor 221 442 1 1 slop 0 1 1 1 slop 0 1 1 1 slop 0 0 0"

section \<open>Verified properties\<close>

subsection \<open>The shear kernel\<close>

text \<open>
  The twelve multiplications of the shear kernel: the eight numbers they produce are the
  real and imaginary parts of the four products.
\<close>

lemma GGG_increments_eq:
  "GGG_increments g1 g2 g3 =
     (Re (g1 * g2 * g3), Im (g1 * g2 * g3),
      Re (cnj g1 * g2 * g3), Im (cnj g1 * g2 * g3),
      Re (g1 * cnj g2 * g3), Im (g1 * cnj g2 * g3),
      Re (g1 * g2 * cnj g3), Im (g1 * g2 * cnj g3))"
  by (simp add: GGG_increments_def Let_def algebra_simps)

text \<open>
  Claim C6. The shear commit \<^verbatim>\<open>DirectHelper<GData,GData,GData>::ProcessZeta\<close>, for all cells,
  every projection and every index: with \<open>(g1, g2, g3)\<close> the three weighted shears
  \<^verbatim>\<open>getWG\<close> of the cells after \<^verbatim>\<open>Project\<close>, it changes the eight arrays \<open>gam0r, gam0i,
  gam1r, gam1i, gam2r, gam2i, gam3r, gam3i\<close> (the fields \<open>zeta0 ... zeta7\<close>, in this order)
  at the element \<open>index\<close> only, and adds there the real and the imaginary part of
  \<open>g1 g2 g3\<close>, of \<open>conj(g1) g2 g3\<close>, of \<open>g1 conj(g2) g3\<close> and of \<open>g1 g2 conj(g3)\<close>; and this is
  what \<^verbatim>\<open>finishProcess\<close> of a shear accumulator does to its arrays, at the index it is
  called with.
\<close>

theorem ProcessZeta_GGG_products:
  "ProcessZeta GData Project c1 c2 c3 d1 d2 d3 z index =
     (case Project c1 c2 c3 (getWG c1, getWG c2, getWG c3) of
        (g1, g2, g3) \<Rightarrow>
          z\<lparr>zeta0 := (zeta0 z)(index := zeta0 z index + Re (g1 * g2 * g3)),
            zeta1 := (zeta1 z)(index := zeta1 z index + Im (g1 * g2 * g3)),
            zeta2 := (zeta2 z)(index := zeta2 z index + Re (cnj g1 * g2 * g3)),
            zeta3 := (zeta3 z)(index := zeta3 z index + Im (cnj g1 * g2 * g3)),
            zeta4 := (zeta4 z)(index := zeta4 z index + Re (g1 * cnj g2 * g3)),
            zeta5 := (zeta5 z)(index := zeta5 z index + Im (g1 * cnj g2 * g3)),
            zeta6 := (zeta6 z)(index := zeta6 z index + Re (g1 * g2 * cnj g3)),
            zeta7 := (zeta7 z)(index := zeta7 z index + Im (g1 * g2 * cnj g3))\<rparr>) \<and>
   zeta (finishProcess GData Project c1 c2 c3 d1 d2 d3 logr u v index a) =
     ProcessZeta GData Project c1 c2 c3 d1 d2 d3 (zeta a) index \<and>
   zeta (finishProcess_at GData Project this c1 c2 c3 d1 d2 d3 logr u v index st this) =
     ProcessZeta GData Project c1 c2 c3 d1 d2 d3 (zeta (st this)) index"
proof -
  obtain g1 g2 g3 where p: "Project c1 c2 c3 (getWG c1, getWG c2, getWG c3) = (g1, g2, g3)"
    by (metis surj_pair)
  show ?thesis
    by (simp add: ProcessZeta_def p GGG_increments_eq finishProcess_def finishProcess_at_def
          Let_def)
qed

subsection \<open>Adding accumulators\<close>

lemma add_loop_upto:
  "fold (\<lambda>i x. x(i := x i + y i)) [m..n] x = (\<lambda>i. if m \<le> i \<and> i \<le> n then x i + y i else x i)"
proof (induction "nat (n - m + 1)" arbitrary: m x)
  case 0
  then have "n < m" by linarith
  then show ?case by (auto simp: upto.simps fun_eq_iff)
next
  case (Suc k)
  then have le: "m \<le> n" by linarith
  have k: "k = nat (n - (m + 1) + 1)" using Suc.hyps(2) by linarith
  have "[m..n] = m # [m + 1..n]" using le by (simp add: upto_rec1)
  then show ?case
    using Suc.hyps(1) [OF k] by (auto simp: fun_eq_iff)
qed

lemma add_loop_apply:
  "add_loop n x y i = (if 0 \<le> i \<and> i < n then x i + y i else x i)"
  by (simp add: add_loop_def add_loop_upto)

text \<open>
  Claim C9. For accumulators \<open>a\<close> (at address \<open>ra\<close>) and \<open>b\<close> (at \<open>rb\<close>) with equal
  \<open>ntot\<close>, \<open>a += b\<close> succeeds; every object of the store other than \<open>a\<close> is unchanged, in
  particular \<open>b\<close> when it is another object; the base part of \<open>a\<close> (the binning parameters,
  \<open>ntot\<close> and the coordinate tag) and its ownership flag are unchanged; and every element
  \<open>i < ntot\<close> of every per-bin array of \<open>a\<close> becomes its old value plus the element of \<open>b\<close>,
  the elements outside \<open>[0, ntot)\<close> keeping their values.
\<close>

theorem plus_eq_frame:
  assumes "ntot (base (st rb)) = ntot (base (st ra))"
  shows "\<exists>st'. plus_eq A ra rb st = Inr st' \<and>
           (\<forall>r. r \<noteq> ra \<longrightarrow> st' r = st r) \<and>
           (rb \<noteq> ra \<longrightarrow> st' rb = st rb) \<and>
           base (st' ra) = base (st ra) \<and>
           owns_data (st' ra) = owns_data (st ra) \<and>
           (\<forall>f \<in> set array_fields. \<forall>i.
              f (st' ra) i =
                (if 0 \<le> i \<and> i < ntot (base (st ra)) then f (st ra) i + f (st rb) i
                 else f (st ra) i))"
  using assms
  by (simp add: plus_eq_def Let_def array_fields_def zeta_add_def add_loop_apply)

theorem plus_eq_frame_witness:
  "ntot (base (store0 2)) = ntot (base (store0 1)) \<and>
   (\<exists>st'. plus_eq True 1 2 store0 = Inr st' \<and> st' 2 = store0 2 \<and>
      base (st' 1) = base (store0 1) \<and> ntri (st' 1) 0 = 3 \<and> ntri (st' 1) 2 = 1)"
proof -
  have h: "ntot (base (store0 2)) = ntot (base (store0 1))"
    by (simp add: store0_def)
  from plus_eq_frame [OF h, of True] obtain st' where
    1: "plus_eq True 1 2 store0 = Inr st'" and 2: "\<forall>r. r \<noteq> 1 \<longrightarrow> st' r = store0 r"
    and 3: "base (st' 1) = base (store0 1)"
    and 4: "\<forall>f \<in> set array_fields. \<forall>i. f (st' 1) i =
                (if 0 \<le> i \<and> i < ntot (base (store0 1)) then f (store0 1) i + f (store0 2) i
                 else f (store0 1) i)"
    by blast
  have n: "ntri \<in> set array_fields" by (simp add: array_fields_def)
  have "ntri (st' 1) 0 = 3" "ntri (st' 1) 2 = 1"
    using 4 [rule_format, OF n, of 0] 4 [rule_format, OF n, of 2]
    by (simp_all add: store0_def BaseCorr3_ctor_def)
  with h 1 2 3 show ?thesis by simp
qed

subsection \<open>The decision to split c3\<close>

lemma stop111_d2:
  "stop111 d1sq d2sq d3sq s1 s2 s3 mn mnsq mx mxsq mnu mnusq mxu mxusq mnv mnvsq mxv mxvsq
     = (False, d2) \<Longrightarrow> d2 = sqrt d2sq"
  by (auto simp: stop111_def Let_def split: if_splits)

lemma decide_split_split3:
  "fst (snd (snd (snd (decide_split P d1sq d2sq d3sq d2 s1 s2 s3)))) =
     split3_expr P d2sq d3sq d2 s1 s3"
  by (simp add: decide_split_def Let_def)

text \<open>
  Claim C3 as stated fails. For the triple with all three sides 2 (squares 4), sizes
  \<open>s1 = s2 = 0\<close> and \<open>s3 = 0.15\<close>, and \<open>b = 1\<close>, \<open>bu = 0.1\<close>, the triple is sorted and
  survives stop111; the code does not split \<open>c3\<close> (it compares \<open>s3\<^sup>2 d3\<^sup>2 = 0.09\<close> with
  \<open>(bu d2\<^sup>2)\<^sup>2 = 0.16\<close>), while the condition of the claim holds (\<open>0.09 > bu\<^sup>2 d2\<^sup>2 = 0.04\<close>).
\<close>

theorem split3_spec_counterexample:
  "4 \<ge> (4::real) \<and>
   stop111 4 4 4 0 0 (15/100) (minsep params3) (minsepsq params3) (maxsep params3)
     (maxsepsq params3) (minu params3) (minusq params3) (maxu params3) (maxusq params3)
     (minv params3) (minvsq params3) (maxv params3) (maxvsq params3) = (False, 2) \<and>
   \<not> fst (snd (snd (snd (decide_split params3 4 4 4 2 0 0 (15/100))))) \<and>
   split3_spec params3 4 4 2 0 (15/100)"
  by (simp add: decide_split_split3 split3_expr_def split3_spec_def stop111_def params3_def
        BaseCorr3_ctor_def SQR_def Let_def power2_eq_square)

text \<open>
  Claim C3, amended. For every triple that survives stop111 (which leaves \<open>d2 = sqrt d2sq\<close>)
  and has \<open>s1 \<ge> 0\<close>, the flag \<open>split3\<close> computed by process111Sorted (the fourth component
  of the decision) holds if and only if \<open>s3 > 0\<close> and one of: \<open>s3 > b d2\<close>;
  \<open>s1 + s3 > b d2\<close> with \<open>s3 \<ge> s1\<close>; \<open>bu < b\<close> and \<open>s3\<^sup>2 d3sq > bu\<^sup>2 d2sq\<^sup>2\<close>
  (that is, \<open>s3 d3 > bu d2\<^sup>2\<close>: the right side carries the fourth power of \<open>d2\<close>);
  \<open>bv < b\<close> and \<open>s3 > bv d2\<close>.
\<close>

theorem split3_iff:
  assumes "stop111 d1sq d2sq d3sq s1 s2 s3 (minsep P) (minsepsq P) (maxsep P) (maxsepsq P)
             (minu P) (minusq P) (maxu P) (maxusq P)
             (minv P) (minvsq P) (maxv P) (maxvsq P) = (False, d2)"
    and "0 \<le> s1"
  shows "d2 = sqrt d2sq \<and>
     (fst (snd (snd (snd (decide_split P d1sq d2sq d3sq d2 s1 s2 s3)))) \<longleftrightarrow>
      s3 > 0 \<and>
       (s3 > b P * d2 \<or>
        (s1 + s3 > b P * d2 \<and> s3 \<ge> s1) \<or>
        (bu P < b P \<and> s3\<^sup>2 * d3sq > (bu P)\<^sup>2 * d2sq\<^sup>2) \<or>
        (bv P < b P \<and> s3 > bv P * d2)))"
proof
  show "d2 = sqrt d2sq" using assms(1) by (rule stop111_d2)
  have "s3 > 0 \<Longrightarrow> s1 + s3 > 0" using assms(2) by simp
  then show "fst (snd (snd (snd (decide_split P d1sq d2sq d3sq d2 s1 s2 s3)))) \<longleftrightarrow>
      s3 > 0 \<and>
       (s3 > b P * d2 \<or>
        (s1 + s3 > b P * d2 \<and> s3 \<ge> s1) \<or>
        (bu P < b P \<and> s3\<^sup>2 * d3sq > (bu P)\<^sup>2 * d2sq\<^sup>2) \<or>
        (bv P < b P \<and> s3 > bv P * d2))"
    unfolding decide_split_split3 split3_expr_def SQR_def
    by (auto simp: power2_eq_square mult.commute mult.left_commute)
qed

theorem split3_iff_witness:
  "stop111 4 4 4 0 0 (3/10) (minsep params3) (minsepsq params3) (maxsep params3)
     (maxsepsq params3) (minu params3) (minusq params3) (maxu params3) (maxusq params3)
     (minv params3) (minvsq params3) (maxv params3) (maxvsq params3) = (False, 2) \<and>
   (0::real) \<le> 0 \<and>
   fst (snd (snd (snd (decide_split params3 4 4 4 2 0 0 (3/10)))))"
proof -
  have h: "stop111 4 4 4 0 0 (3/10) (minsep params3) (minsepsq params3) (maxsep params3)
     (maxsepsq params3) (minu params3) (minusq params3) (maxu params3) (maxusq params3)
     (minv params3) (minvsq params3) (maxv params3) (maxvsq params3) = (False, 2)"
    by (simp add: stop111_def params3_def BaseCorr3_ctor_def SQR_def Let_def)
  have z: "(0::real) \<le> 0" by simp
  from split3_iff [OF h z]
  have "fst (snd (snd (snd (decide_split params3 4 4 4 2 0 0 (3/10)))))"
    by (simp add: params3_def BaseCorr3_ctor_def power2_eq_square)
  with h show ?thesis by simp
qed

subsection \<open>Sorting the sides and routing to the sibling accumulators\<close>

text \<open>
  Claim C5. Every call of process111 with three nonzero cell weights is one call of
  process111Sorted: there is a permutation \<open>p\<close> of the three places such that the call is
  made with the cells permuted by \<open>p\<close> and the squared sides (computed where passed as 0)
  permuted by the same \<open>p\<close>, so each side stays opposite its cell; the sides passed satisfy
  \<open>d1sq \<ge> d2sq \<ge> d3sq\<close>; the call is made on the accumulator that the caller holds for
  \<open>p\<close>, and the accumulator it passes for each permutation \<open>q\<close> is the one the caller holds
  for the composition of \<open>p\<close> and \<open>q\<close>.
\<close>

theorem process111_routing:
  assumes "getW c1 \<noteq> 0" and "getW c2 \<noteq> 0" and "getW c3 \<noteq> 0"
  shows "\<exists>p \<in> set perms3.
    (let d1sq = (if x1 = 0 then DistSq M (getPos c2) (getPos c3) 0 0 else x1);
         d2sq = (if x2 = 0 then DistSq M (getPos c1) (getPos c3) 0 0 else x2);
         d3sq = (if x3 = 0 then DistSq M (getPos c1) (getPos c2) 0 0 else x3);
         T = (this, bc132, bc213, bc231, bc312, bc321)
     in
     case act p (c1, c2, c3) of (a1, a2, a3) \<Rightarrow>
     case act p (d1sq, d2sq, d3sq) of (e1, e2, e3) \<Rightarrow>
       e1 \<ge> e2 \<and> e2 \<ge> e3 \<and>
       process111 fin prm A M this bc132 bc213 bc231 bc312 bc321 c1 c2 c3 x1 x2 x3 st =
       process111Sorted fin prm A M
         (slot T p)
         (slot T (act (1, 3, 2) p)) (slot T (act (2, 1, 3) p)) (slot T (act (2, 3, 1) p))
         (slot T (act (3, 1, 2) p)) (slot T (act (3, 2, 1) p))
         a1 a2 a3 e1 e2 e3 st)"
proof -
  define d1sq where "d1sq = (if x1 = 0 then DistSq M (getPos c2) (getPos c3) 0 0 else x1)"
  define d2sq where "d2sq = (if x2 = 0 then DistSq M (getPos c1) (getPos c3) 0 0 else x2)"
  define d3sq where "d3sq = (if x3 = 0 then DistSq M (getPos c1) (getPos c2) 0 0 else x3)"
  note defs = d1sq_def [symmetric] d2sq_def [symmetric] d3sq_def [symmetric]
  have mem: "(1, 2, 3) \<in> set perms3" "(1, 3, 2) \<in> set perms3" "(2, 1, 3) \<in> set perms3"
    "(2, 3, 1) \<in> set perms3" "(3, 1, 2) \<in> set perms3" "(3, 2, 1) \<in> set perms3"
    by (simp_all add: perms3_def)
  have lhs: "process111 fin prm A M this bc132 bc213 bc231 bc312 bc321 c1 c2 c3 x1 x2 x3 st =
     (if d1sq > d2sq then
          if d2sq > d3sq then
            process111Sorted fin prm A M this bc132 bc213 bc231 bc312 bc321
              c1 c2 c3 d1sq d2sq d3sq st
          else if d1sq > d3sq then
            process111Sorted fin prm A M bc132 this bc312 bc321 bc213 bc231
              c1 c3 c2 d1sq d3sq d2sq st
          else
            process111Sorted fin prm A M bc312 bc321 bc132 this bc231 bc213
              c3 c1 c2 d3sq d1sq d2sq st
        else
          if d1sq > d3sq then
            process111Sorted fin prm A M bc213 bc231 this bc132 bc321 bc312
              c2 c1 c3 d2sq d1sq d3sq st
          else if d2sq > d3sq then
            process111Sorted fin prm A M bc231 bc213 bc321 bc312 this bc132
              c2 c3 c1 d2sq d3sq d1sq st
          else
            process111Sorted fin prm A M bc321 bc312 bc231 bc213 bc132 this
              c3 c2 c1 d3sq d2sq d1sq st)"
    using assms by (simp add: process111.simps Let_def defs)
  consider (c123) "d1sq > d2sq" "d2sq > d3sq"
    | (c132) "d1sq > d2sq" "\<not> d2sq > d3sq" "d1sq > d3sq"
    | (c312) "d1sq > d2sq" "\<not> d2sq > d3sq" "\<not> d1sq > d3sq"
    | (c213) "\<not> d1sq > d2sq" "d1sq > d3sq"
    | (c231) "\<not> d1sq > d2sq" "\<not> d1sq > d3sq" "d2sq > d3sq"
    | (c321) "\<not> d1sq > d2sq" "\<not> d1sq > d3sq" "\<not> d2sq > d3sq"
    by blast
  then show ?thesis
  proof cases
    case c123
    show ?thesis
      by (rule bexI [OF _ mem(1)]) (use assms c123 in \<open>simp add: Let_def defs lhs act_def sel3_def slot_def\<close>)
  next
    case c132
    show ?thesis
      by (rule bexI [OF _ mem(2)]) (use assms c132 in \<open>simp add: Let_def defs lhs act_def sel3_def slot_def\<close>)
  next
    case c312
    show ?thesis
      by (rule bexI [OF _ mem(5)]) (use assms c312 in \<open>simp add: Let_def defs lhs act_def sel3_def slot_def\<close>)
  next
    case c213
    show ?thesis
      by (rule bexI [OF _ mem(3)]) (use assms c213 in \<open>simp add: Let_def defs lhs act_def sel3_def slot_def\<close>)
  next
    case c231
    show ?thesis
      by (rule bexI [OF _ mem(4)]) (use assms c231 in \<open>simp add: Let_def defs lhs act_def sel3_def slot_def\<close>)
  next
    case c321
    show ?thesis
      by (rule bexI [OF _ mem(6)]) (use assms c321 in \<open>simp add: Let_def defs lhs act_def sel3_def slot_def\<close>)
  qed
qed

theorem process111_routing_witness:
  "getW cellA \<noteq> 0 \<and> getW cellB \<noteq> 0 \<and> getW cellC \<noteq> 0 \<and>
   (\<exists>p \<in> set perms3.
      case act p (cellA, cellB, cellC) of (a1, a2, a3) \<Rightarrow>
      case act p (169, 169, 100 :: real) of (e1, e2, e3) \<Rightarrow>
        e1 \<ge> e2 \<and> e2 \<ge> e3 \<and>
        process111 record_commit (\<lambda>r. params13) True Flat_Euclidean 0 1 2 3 4 5
          cellA cellB cellC 0 0 0 [] =
        process111Sorted record_commit (\<lambda>r. params13) True Flat_Euclidean
          (slot (0, 1, 2, 3, 4, 5) p)
          (slot (0, 1, 2, 3, 4, 5) (act (1, 3, 2) p)) (slot (0, 1, 2, 3, 4, 5) (act (2, 1, 3) p))
          (slot (0, 1, 2, 3, 4, 5) (act (2, 3, 1) p)) (slot (0, 1, 2, 3, 4, 5) (act (3, 1, 2) p))
          (slot (0, 1, 2, 3, 4, 5) (act (3, 2, 1) p))
          a1 a2 a3 e1 e2 e3 [])"
proof -
  have w: "getW cellA \<noteq> 0" "getW cellB \<noteq> 0" "getW cellC \<noteq> 0"
    by (simp_all add: cellA_def cellB_def cellC_def leaf_def)
  have d: "DistSq Flat_Euclidean (getPos cellB) (getPos cellC) 0 0 = 169"
    "DistSq Flat_Euclidean (getPos cellA) (getPos cellC) 0 0 = 169"
    "DistSq Flat_Euclidean (getPos cellA) (getPos cellB) 0 0 = 100"
    by (simp_all add: Flat_Euclidean_def cellA_def cellB_def cellC_def leaf_def SQR_def)
  from process111_routing [OF w, of 0 Flat_Euclidean 0 0 0 1 2 3 4 5 record_commit
      "\<lambda>r. params13" True "[]"]
  show ?thesis using w by (simp add: d Let_def)
qed

subsection \<open>The commit block\<close>

lemma process111Sorted_nosplit:
  assumes "prm this = P"
    and "stop111 d1sq d2sq d3sq (getSize c1) (getSize c2) (getSize c3)
             (minsep P) (minsepsq P) (maxsep P) (maxsepsq P)
             (minu P) (minusq P) (maxu P) (maxusq P)
             (minv P) (minvsq P) (maxv P) (maxvsq P)
           = (False, d2)"
    and "decide_split P d1sq d2sq d3sq d2 (getSize c1) (getSize c2) (getSize c3)
           = (False, sp1, sp2, sp3, d1, d3, u, v)"
  shows "process111Sorted fin prm A M this bc132 bc213 bc231 bc312 bc321 c1 c2 c3 d1sq d2sq d3sq st =
     (if A \<and> \<not> (d1sq \<ge> d2sq \<and> d2sq \<ge> d3sq) then Inl (AssertFailed, st)
      else case commit_bins A P (CCW M (getPos c1) (getPos c2) (getPos c3)) d1 d2 d3 u v of
         Inl e \<Rightarrow> Inl (e, st)
       | Inr None \<Rightarrow> Inr st
       | Inr (Some (logr, v', index)) \<Rightarrow> Inr (fin this c1 c2 c3 d1 d2 d3 logr u v' index st))"
  apply (subst process111Sorted.simps)
  apply (simp only: Let_def assms prod.case bool.case if_False)
  apply (auto simp: directProcess111_def split: sum.splits option.splits)
  done

lemma commit_bins_noassert:
  "commit_bins False P ccw d1 d2 d3 u v = Inr (commit_spec P ccw d2 u v)"
  unfolding commit_bins_def commit_spec_def spec_kr_def spec_ku_def spec_kv_def Let_def
  by simp

lemma commit_bins_assert:
  "(case commit_bins True P ccw d1 d2 d3 u v of
      Inl e \<Rightarrow> e = AssertFailed
    | Inr r \<Rightarrow> r = commit_spec P ccw d2 u v)"
proof -
  define kr0 where "kr0 = \<lfloor>(ln d2 - logminsep P) / binsize P\<rfloor>"
  define ku0 where "ku0 = \<lfloor>(u - minu P) / ubinsize P\<rfloor>"
  define kv0 where "kv0 = \<lfloor>(v - minv P) / vbinsize P\<rfloor>"
  note folds = kr0_def [symmetric] ku0_def [symmetric] kv0_def [symmetric]
  show ?thesis
    unfolding commit_bins_def commit_spec_def spec_kr_def spec_ku_def spec_kv_def Let_def folds
    by (cases "kr0 = nbins P"; cases "ku0 \<ge> nubins P"; cases "kv0 \<ge> nvbins P"; cases ccw)
       simp_all
qed

lemma commit_bins_char:
  "commit_bins A P ccw d1 d2 d3 u v = Inr (commit_spec P ccw d2 u v) \<or>
   (A \<and> commit_bins A P ccw d1 d2 d3 u v = Inl AssertFailed)"
proof (cases A)
  case True
  then show ?thesis
    using commit_bins_assert [where P = P and ccw = ccw and ?d1.0 = d1 and ?d2.0 = d2
        and ?d3.0 = d3 and u = u and v = v]
    by (auto split: sum.splits)
next
  case False
  then show ?thesis by (simp add: commit_bins_noassert)
qed

lemma commit_spec_Some:
  assumes "commit_spec P ccw d2 u v = Some (logr, v', index)"
  shows "minsep P \<le> d2 \<and> d2 < maxsep P \<and> minu P \<le> u \<and> u < maxu P \<and>
         minv P \<le> v \<and> v < maxv P \<and>
         logr = ln d2 \<and> v' = (if ccw then v else - v) \<and>
         index = spec_kr P d2 * nuv P + spec_ku P u * nvbins2 P +
                 (if ccw then spec_kv P v + nvbins P else nvbins P - spec_kv P v - 1) \<and>
         0 \<le> index \<and> index < ntot P"
  using assms by (auto simp: commit_spec_def Let_def split: if_split_asm)

lemma commit_bins_Some:
  assumes "commit_bins A P ccw d1 d2 d3 u v = Inr (Some r)"
  shows "commit_spec P ccw d2 u v = Some r"
  using commit_bins_char [of A P ccw d1 d2 d3 u v] assms by auto



lemma stop111_example:
  "stop111 169 169 100 0 0 0 13 169 26 676 0 0 1 1 0 0 1 1 = (False, 13)"
  by (simp add: stop111_def SQR_def Let_def)

lemma decide_split_example:
  "b P = 1/10 \<Longrightarrow> decide_split P 169 169 100 13 0 0 0 = (False, False, False, False, 13, 10, 10 / 13, 0)"
  by (simp add: decide_split_def split3_expr_def Let_def)

lemma not_ccw_example:
  "\<not> CCW Flat_Euclidean (getPos cellB) (getPos cellA) (getPos cellC)"
  by (simp add: Flat_Euclidean_def cellA_def cellB_def cellC_def leaf_def)


subsection \<open>The sign of v\<close>

lemma decide_split_nosplit_values:
  assumes "decide_split P d1sq d2sq d3sq d2 s1 s2 s3 = (False, sp1, sp2, sp3, d1, d3, u, v)"
  shows "d1 = sqrt d1sq \<and> d3 = sqrt d3sq \<and> u = d3 / d2 \<and> v = (d1 - d2) / d3 \<and>
         \<not> split3_expr P d2sq d3sq d2 s1 s3 \<and> (s1 > 0 \<longrightarrow> \<not> SQR s1 > d3sq) \<and>
         (s2 > 0 \<longrightarrow> \<not> SQR s2 > d3sq)"
  using assms
  by (auto simp: decide_split_def Let_def split: if_split_asm)

lemma nosplit_d3sq_pos:
  assumes st: "stop111 d1sq d2sq d3sq s1 s2 s3 mn mnsq mx mxsq mnu mnusq mxu mxusq mnv mnvsq mxv mxvsq
             = (False, d2)"
    and ds: "decide_split P d1sq d2sq d3sq d2 s1 s2 s3 = (False, sp1, sp2, sp3, d1, d3, u, v)"
    and nn: "0 \<le> d3sq" "0 \<le> s1" "0 \<le> s2"
  shows "0 < d3sq"
proof (rule ccontr)
  assume "\<not> 0 < d3sq"
  with nn have z: "d3sq = 0" by simp
  have deg: "\<not> (s1 = 0 \<and> s2 = 0 \<and> d3sq = 0)"
    using st by (auto simp: stop111_def Let_def split: if_split_asm)
  from decide_split_nosplit_values [OF ds]
  have a: "s1 > 0 \<longrightarrow> \<not> SQR s1 > d3sq" and b: "s2 > 0 \<longrightarrow> \<not> SQR s2 > d3sq" by simp_all
  from deg z nn consider "s1 > 0" | "s2 > 0" by fastforce
  then show False
  proof cases
    case 1
    then have "SQR s1 > 0" by (simp add: SQR_def)
    with a 1 z show False by simp
  next
    case 2
    then have "SQR s2 > 0" by (simp add: SQR_def)
    with b 2 z show False by simp
  qed
qed


lemma DistSq_example:
  "DistSq Flat_Euclidean (getPos cellB) (getPos cellC) 0 0 = 169"
  "DistSq Flat_Euclidean (getPos cellA) (getPos cellC) 0 0 = 169"
  "DistSq Flat_Euclidean (getPos cellA) (getPos cellB) 0 0 = 100"
  by (simp_all add: Flat_Euclidean_def cellA_def cellB_def cellC_def leaf_def SQR_def)

lemma params13_fields:
  "minsep params13 = 13" "minsepsq params13 = 169" "maxsep params13 = 26"
  "maxsepsq params13 = 676" "minu params13 = 0" "minusq params13 = 0" "maxu params13 = 1"
  "maxusq params13 = 1" "minv params13 = 0" "minvsq params13 = 0" "maxv params13 = 1"
  "maxvsq params13 = 1" "b params13 = 1/10"
  by (simp_all add: params13_def BaseCorr3_ctor_def)

lemma commit_bins_example:
  "commit_bins True params13 False 13 13 10 (10 / 13) 0 = Inr (Some (ln 13, 0, 0))"
  by (simp add: commit_bins_def Let_def params13_def BaseCorr3_ctor_def)

text \<open>
  The run of \<^verbatim>\<open>process111\<close> on the leaves \<open>(0,0), (10,0), (5,12)\<close>: one commit, with the
  cells in the order \<open>(10,0), (0,0), (5,12)\<close>.
\<close>

lemma process111_isosceles:
  "process111 record_commit (\<lambda>r. params13) True Flat_Euclidean 0 1 2 3 4 5
     cellA cellB cellC 0 0 0 [] =
   Inr [(2, cellB, cellA, cellC, 13, 13, 10, ln 13, 10 / 13, 0, 0)]"
proof -
  have sz: "getSize cellA = 0" "getSize cellB = 0" "getSize cellC = 0"
    and w: "getW cellA = 1" "getW cellB = 1" "getW cellC = 1"
    by (simp_all add: cellA_def cellB_def cellC_def leaf_def)
  have "process111 record_commit (\<lambda>r. params13) True Flat_Euclidean 0 1 2 3 4 5
     cellA cellB cellC 0 0 0 [] =
     process111Sorted record_commit (\<lambda>r. params13) True Flat_Euclidean 2 3 0 1 5 4
       cellB cellA cellC 169 169 100 []"
    by (simp add: process111.simps Let_def w DistSq_example)
  also have "\<dots> = Inr [(2, cellB, cellA, cellC, 13, 13, 10, ln 13, 10 / 13, 0, 0)]"
    by (subst process111Sorted_nosplit [where P = params13 and ?d2.0 = 13 and ?d1.0 = 13
          and ?d3.0 = 10 and u = "10 / 13" and v = 0 and ?sp1.0 = False and ?sp2.0 = False
          and ?sp3.0 = False])
       (simp_all add: sz params13_fields stop111_example decide_split_example
          not_ccw_example commit_bins_example record_commit_def)
  finally show ?thesis .
qed

text \<open>
  Claim C4 as stated fails for an isosceles triangle. For the leaves \<open>(0,0), (10,0), (5,12)\<close>
  process111 commits exactly one triangle, with the cells in the order
  \<open>(10,0), (0,0), (5,12)\<close>; \<open>CCW\<close> is false for it, and the \<open>v\<close> passed to the kernel commit
  (and accumulated into \<open>meanv\<close>) is 0, which is not negative.
\<close>

theorem sign_of_v_counterexample:
  "\<not> CCW Flat_Euclidean (getPos cellB) (getPos cellA) (getPos cellC) \<and>
   process111 record_commit (\<lambda>r. params13) True Flat_Euclidean 0 1 2 3 4 5
     cellA cellB cellC 0 0 0 [] =
   Inr [(2, cellB, cellA, cellC, 13, 13, 10, ln 13, 10 / 13, 0, 0)]"
  using not_ccw_example process111_isosceles by (rule conjI)


text \<open>
  Claim C4, amended. For every committed triangle (sides sorted, sizes of \<open>c1\<close> and \<open>c2\<close>
  not negative, no prune, no split, the commit block passing \<open>(logr, v', index)\<close> on):
  the third side is positive and \<open>v = (d1 - d2) / d3\<close> is not negative; the value \<open>v'\<close> that
  is accumulated into \<open>meanv\<close> is \<open>v\<close> when \<open>CCW\<close> holds and \<open>-v\<close> when it does not, so it is
  negative if and only if \<open>CCW\<close> is false and \<open>d1 > d2\<close>; and the \<open>v\<close> bin used in the index
  is \<open>kv + nvbins\<close> when \<open>CCW\<close> holds and \<open>nvbins - kv - 1\<close> when it does not.
\<close>

theorem sign_of_v:
  fixes st :: store
  assumes "stop111 d1sq d2sq d3sq (getSize c1) (getSize c2) (getSize c3)
             (minsep (prm this)) (minsepsq (prm this)) (maxsep (prm this)) (maxsepsq (prm this))
             (minu (prm this)) (minusq (prm this)) (maxu (prm this)) (maxusq (prm this))
             (minv (prm this)) (minvsq (prm this)) (maxv (prm this)) (maxvsq (prm this))
           = (False, d2)"
    and "decide_split (prm this) d1sq d2sq d3sq d2 (getSize c1) (getSize c2) (getSize c3)
           = (False, sp1, sp2, sp3, d1, d3, u, v)"
    and "d1sq \<ge> d2sq" and "d2sq \<ge> d3sq" and "d3sq \<ge> 0"
    and "getSize c1 \<ge> 0" and "getSize c2 \<ge> 0"
    and "commit_bins A (prm this) (CCW M (getPos c1) (getPos c2) (getPos c3)) d1 d2 d3 u v
           = Inr (Some (logr, v', index))"
  shows
    "(let ccw = CCW M (getPos c1) (getPos c2) (getPos c3);
          kv = spec_kv (prm this) v;
          st' = finishProcess_at D Project this c1 c2 c3 d1 d2 d3 logr u v' index st
      in
      process111Sorted (finishProcess_at D Project) prm A M this bc132 bc213 bc231 bc312 bc321
        c1 c2 c3 d1sq d2sq d3sq st = Inr st' \<and>
      meanv (st' this) index = meanv (st this) index + getW c1 * getW c2 * getW c3 * v' \<and>
      0 < sqrt d3sq \<and> v = (sqrt d1sq - sqrt d2sq) / sqrt d3sq \<and> 0 \<le> v \<and>
      v' = (if ccw then v else - v) \<and>
      (v' < 0 \<longleftrightarrow> \<not> ccw \<and> d2sq < d1sq) \<and>
      index = spec_kr (prm this) d2 * nuv (prm this) + spec_ku (prm this) u * nvbins2 (prm this) +
              (if ccw then kv + nvbins (prm this) else nvbins (prm this) - kv - 1))"
proof -
  define ccw where "ccw = CCW M (getPos c1) (getPos c2) (getPos c3)"
  define P where "P = prm this"
  define st' where "st' = finishProcess_at D Project this c1 c2 c3 d1 d2 d3 logr u v' index st"
  note h = assms [folded P_def ccw_def]
  have run: "process111Sorted (finishProcess_at D Project) prm A M this bc132 bc213 bc231 bc312
       bc321 c1 c2 c3 d1sq d2sq d3sq st = Inr st'"
    using process111Sorted_nosplit [where prm = prm and this = this and M = M and A = A,
        OF P_def [symmetric] h(1,2)] h(3,4,8)
    by (simp add: ccw_def st'_def)
  have mv: "meanv (st' this) index = meanv (st this) index + getW c1 * getW c2 * getW c3 * v'"
    by (simp add: st'_def finishProcess_at_def finishProcess_def Let_def)
  have d2: "d2 = sqrt d2sq" using h(1) by (rule stop111_d2)
  from decide_split_nosplit_values [OF h(2)]
  have vals: "d1 = sqrt d1sq" "d3 = sqrt d3sq" "v = (d1 - d2) / d3" by simp_all
  have pos: "0 < d3sq" by (rule nosplit_d3sq_pos [OF h(1,2,5,6,7)])
  then have d3pos: "0 < sqrt d3sq" by simp
  have le: "sqrt d2sq \<le> sqrt d1sq" using h(3) by simp
  have v: "v = (sqrt d1sq - sqrt d2sq) / sqrt d3sq" by (simp add: vals d2)
  have vnn: "0 \<le> v" unfolding v using le d3pos by simp
  have vz: "v > 0 \<longleftrightarrow> d2sq < d1sq"
    unfolding v using d3pos by (simp add: zero_less_divide_iff)
  from commit_spec_Some [OF commit_bins_Some [OF h(8)]]
  have sg: "v' = (if ccw then v else - v)"
    and ix: "index = spec_kr P d2 * nuv P + spec_ku P u * nvbins2 P +
                 (if ccw then spec_kv P v + nvbins P else nvbins P - spec_kv P v - 1)"
    by simp_all
  have neg: "v' < 0 \<longleftrightarrow> \<not> ccw \<and> d2sq < d1sq"
    using sg vnn vz by auto
  show ?thesis
    unfolding Let_def ccw_def [symmetric] P_def [symmetric] st'_def [symmetric]
    using run mv d3pos v vnn sg neg ix by blast
qed

theorem sign_of_v_witness:
  "stop111 25 16 9 (getSize cellD) (getSize cellE) (getSize cellF)
     (minsep params4) (minsepsq params4) (maxsep params4) (maxsepsq params4)
     (minu params4) (minusq params4) (maxu params4) (maxusq params4)
     (minv params4) (minvsq params4) (maxv params4) (maxvsq params4) = (False, 4) \<and>
   decide_split params4 25 16 9 4 (getSize cellD) (getSize cellE) (getSize cellF)
     = (False, False, False, False, 5, 3, 3 / 4, 1 / 3) \<and>
   (25 :: real) \<ge> 16 \<and> (16 :: real) \<ge> 9 \<and> (9 :: real) \<ge> 0 \<and>
   getSize cellD \<ge> 0 \<and> getSize cellE \<ge> 0 \<and>
   \<not> CCW Flat_Euclidean (getPos cellD) (getPos cellE) (getPos cellF) \<and>
   commit_bins True params4 (CCW Flat_Euclidean (getPos cellD) (getPos cellE) (getPos cellF))
     5 4 3 (3 / 4) (1 / 3) = Inr (Some (ln 4, - (1 / 3), 0)) \<and>
   (\<exists>st'. process111Sorted (finishProcess_at NData no_projection) (\<lambda>r. params4) True
            Flat_Euclidean 0 1 2 3 4 5 cellD cellE cellF 25 16 9 (zero_store params4) = Inr st' \<and>
          meanv (st' 0) 0 = - (1 / 3))"
proof -
  have sz: "getSize cellD = 0" "getSize cellE = 0" "getSize cellF = 0"
    and w: "getW cellD = 1" "getW cellE = 1" "getW cellF = 1"
    by (simp_all add: cellD_def cellE_def cellF_def leaf_def)
  have ccw: "\<not> CCW Flat_Euclidean (getPos cellD) (getPos cellE) (getPos cellF)"
    by (simp add: Flat_Euclidean_def cellD_def cellE_def cellF_def leaf_def)
  have h1: "stop111 25 16 9 (getSize cellD) (getSize cellE) (getSize cellF)
     (minsep params4) (minsepsq params4) (maxsep params4) (maxsepsq params4)
     (minu params4) (minusq params4) (maxu params4) (maxusq params4)
     (minv params4) (minvsq params4) (maxv params4) (maxvsq params4) = (False, 4)"
    by (simp add: sz stop111_def SQR_def Let_def params4_def BaseCorr3_ctor_def)
  have h2: "decide_split params4 25 16 9 4 (getSize cellD) (getSize cellE) (getSize cellF)
     = (False, False, False, False, 5, 3, 3 / 4, 1 / 3)"
    by (simp add: sz decide_split_def split3_expr_def Let_def params4_def BaseCorr3_ctor_def)
  have h3: "(25 :: real) \<ge> 16" and h4: "(16 :: real) \<ge> 9" and h5: "(9 :: real) \<ge> 0"
    and h6: "getSize cellD \<ge> 0" and h7: "getSize cellE \<ge> 0"
    by (simp_all add: sz)
  have h8: "commit_bins True params4
      (CCW Flat_Euclidean (getPos cellD) (getPos cellE) (getPos cellF))
      5 4 3 (3 / 4) (1 / 3) = Inr (Some (ln 4, - (1 / 3), 0))"
    by (simp add: ccw commit_bins_def Let_def params4_def BaseCorr3_ctor_def)
  from sign_of_v [where prm = "\<lambda>r. params4" and this = 0 and ?c1.0 = cellD and ?c2.0 = cellE
      and ?c3.0 = cellF and A = True and M = Flat_Euclidean and D = NData
      and Project = no_projection and st = "zero_store params4" and ?bc132.0 = 1
      and ?bc213.0 = 2 and ?bc231.0 = 3 and ?bc312.0 = 4 and ?bc321.0 = 5,
      OF h1 h2 h3 h4 h5 h6 h7 h8]
  have "\<exists>st'. process111Sorted (finishProcess_at NData no_projection) (\<lambda>r. params4) True
            Flat_Euclidean 0 1 2 3 4 5 cellD cellE cellF 25 16 9 (zero_store params4) = Inr st' \<and>
          meanv (st' 0) 0 = - (1 / 3)"
    by (simp add: Let_def w zero_store_def)
  with h1 h2 h3 h4 h5 h6 h7 h8 ccw show ?thesis by blast
qed

subsection \<open>An invariant of the state along the recursion\<close>

text \<open>
  The six ways \<^verbatim>\<open>process111Sorted\<close> can go, and a rule for invariants: a property of the
  state that every in-range kernel commit preserves holds after \<^verbatim>\<open>process111\<close>,
  \<^verbatim>\<open>process12\<close> and \<^verbatim>\<open>process3\<close>, also when they abort.
\<close>

lemma outcome_state_simps [simp]:
  "outcome_state (Inl (e, s)) = s" "outcome_state (Inr s) = s"
  by (simp_all add: outcome_state_def)

lemma process111Sorted_cases:
  fixes fin :: "('p, 's) finish"
  assumes res: "res = process111Sorted fin prm A M this bc132 bc213 bc231 bc312 bc321
                  c1 c2 c3 d1sq d2sq d3sq st"
  obtains
    (sort_assert) "A" "\<not> (d1sq \<ge> d2sq \<and> d2sq \<ge> d3sq)" "res = Inl (AssertFailed, st)"
  | (stop) d2 where
      "stop111 d1sq d2sq d3sq (getSize c1) (getSize c2) (getSize c3)
         (minsep (prm this)) (minsepsq (prm this)) (maxsep (prm this)) (maxsepsq (prm this))
         (minu (prm this)) (minusq (prm this)) (maxu (prm this)) (maxusq (prm this))
         (minv (prm this)) (minvsq (prm this)) (maxv (prm this)) (maxvsq (prm this)) = (True, d2)"
      "res = Inr st"
  | (commit) d2 sp1 sp2 sp3 d1 d3 u v where
      "A \<longrightarrow> d1sq \<ge> d2sq \<and> d2sq \<ge> d3sq"
      "stop111 d1sq d2sq d3sq (getSize c1) (getSize c2) (getSize c3)
         (minsep (prm this)) (minsepsq (prm this)) (maxsep (prm this)) (maxsepsq (prm this))
         (minu (prm this)) (minusq (prm this)) (maxu (prm this)) (maxusq (prm this))
         (minv (prm this)) (minvsq (prm this)) (maxv (prm this)) (maxvsq (prm this)) = (False, d2)"
      "decide_split (prm this) d1sq d2sq d3sq d2 (getSize c1) (getSize c2) (getSize c3)
         = (False, sp1, sp2, sp3, d1, d3, u, v)"
      "res = (case commit_bins A (prm this) (CCW M (getPos c1) (getPos c2) (getPos c3))
                     d1 d2 d3 u v of
                Inl e \<Rightarrow> Inl (e, st)
              | Inr None \<Rightarrow> Inr st
              | Inr (Some (logr, v', index)) \<Rightarrow>
                  Inr (fin this c1 c2 c3 d1 d2 d3 logr u v' index st))"
  | (split_assert) d2 sp1 sp2 sp3 d1 d3 u v where
      "A"
      "stop111 d1sq d2sq d3sq (getSize c1) (getSize c2) (getSize c3)
         (minsep (prm this)) (minsepsq (prm this)) (maxsep (prm this)) (maxsepsq (prm this))
         (minu (prm this)) (minusq (prm this)) (maxu (prm this)) (maxusq (prm this))
         (minv (prm this)) (minvsq (prm this)) (maxv (prm this)) (maxvsq (prm this)) = (False, d2)"
      "decide_split (prm this) d1sq d2sq d3sq d2 (getSize c1) (getSize c2) (getSize c3)
         = (True, sp1, sp2, sp3, d1, d3, u, v)"
      "\<not> ((sp1 \<longrightarrow> getSize c1 > 0) \<and> (sp2 \<longrightarrow> getSize c2 > 0) \<and> (sp3 \<longrightarrow> getSize c3 > 0))"
      "res = Inl (AssertFailed, st)"
  | (split_abort) d2 sp1 sp2 sp3 d1 d3 u v e where
      "A \<longrightarrow> d1sq \<ge> d2sq \<and> d2sq \<ge> d3sq"
      "stop111 d1sq d2sq d3sq (getSize c1) (getSize c2) (getSize c3)
         (minsep (prm this)) (minsepsq (prm this)) (maxsep (prm this)) (maxsepsq (prm this))
         (minu (prm this)) (minusq (prm this)) (maxu (prm this)) (maxusq (prm this))
         (minv (prm this)) (minvsq (prm this)) (maxv (prm this)) (maxvsq (prm this)) = (False, d2)"
      "decide_split (prm this) d1sq d2sq d3sq d2 (getSize c1) (getSize c2) (getSize c3)
         = (True, sp1, sp2, sp3, d1, d3, u, v)"
      "split_calls A sp1 sp2 sp3 c1 c2 c3 d1sq d2sq d3sq = Inl e"
      "res = Inl (e, st)"
  | (split) d2 sp1 sp2 sp3 d1 d3 u v calls where
      "A \<longrightarrow> d1sq \<ge> d2sq \<and> d2sq \<ge> d3sq"
      "stop111 d1sq d2sq d3sq (getSize c1) (getSize c2) (getSize c3)
         (minsep (prm this)) (minsepsq (prm this)) (maxsep (prm this)) (maxsepsq (prm this))
         (minu (prm this)) (minusq (prm this)) (maxu (prm this)) (maxusq (prm this))
         (minv (prm this)) (minvsq (prm this)) (maxv (prm this)) (maxvsq (prm this)) = (False, d2)"
      "decide_split (prm this) d1sq d2sq d3sq d2 (getSize c1) (getSize c2) (getSize c3)
         = (True, sp1, sp2, sp3, d1, d3, u, v)"
      "A \<longrightarrow> (sp1 \<longrightarrow> getSize c1 > 0) \<and> (sp2 \<longrightarrow> getSize c2 > 0) \<and> (sp3 \<longrightarrow> getSize c3 > 0)"
      "split_calls A sp1 sp2 sp3 c1 c2 c3 d1sq d2sq d3sq = Inr calls"
      "res = run_calls
               (\<lambda>(a1, a2, a3, x1, x2, x3) s.
                  process111 fin prm A M this bc132 bc213 bc231 bc312 bc321 a1 a2 a3 x1 x2 x3 s)
               calls st"
proof -
  obtain stp d2 where s: "stop111 d1sq d2sq d3sq (getSize c1) (getSize c2) (getSize c3)
         (minsep (prm this)) (minsepsq (prm this)) (maxsep (prm this)) (maxsepsq (prm this))
         (minu (prm this)) (minusq (prm this)) (maxu (prm this)) (maxusq (prm this))
         (minv (prm this)) (minvsq (prm this)) (maxv (prm this)) (maxvsq (prm this)) = (stp, d2)"
    by (meson surj_pair)
  obtain sp sp1 sp2 sp3 d1 d3 u v where
    d: "decide_split (prm this) d1sq d2sq d3sq d2 (getSize c1) (getSize c2) (getSize c3)
         = (sp, sp1, sp2, sp3, d1, d3, u, v)"
    by (metis surj_pair)
  have r: "res =
     (if A \<and> \<not> d1sq \<ge> d2sq then Inl (AssertFailed, st)
      else if A \<and> \<not> d2sq \<ge> d3sq then Inl (AssertFailed, st)
      else if stp then Inr st
      else if sp then
                if A \<and> \<not> (sp1 = False \<or> getSize c1 > 0) then Inl (AssertFailed, st)
                else if A \<and> \<not> (sp2 = False \<or> getSize c2 > 0) then Inl (AssertFailed, st)
                else if A \<and> \<not> (sp3 = False \<or> getSize c3 > 0) then Inl (AssertFailed, st)
                else
                  (case split_calls A sp1 sp2 sp3 c1 c2 c3 d1sq d2sq d3sq of
                     Inl e \<Rightarrow> Inl (e, st)
                   | Inr calls \<Rightarrow>
                       run_calls
                         (\<lambda>(a1, a2, a3, x1, x2, x3) s.
                            process111 fin prm A M this bc132 bc213 bc231 bc312 bc321
                              a1 a2 a3 x1 x2 x3 s)
                         calls st)
              else
                (case commit_bins A (prm this)
                        (CCW M (getPos c1) (getPos c2) (getPos c3)) d1 d2 d3 u v of
                   Inl e \<Rightarrow> Inl (e, st)
                 | Inr None \<Rightarrow> Inr st
                 | Inr (Some (logr, v', index)) \<Rightarrow>
                     Inr (fin this c1 c2 c3 d1 d2 d3 logr u v' index st)))"
    unfolding res
    apply (subst process111Sorted.simps)
    apply (simp only: Let_def s d prod.case)
    apply (cases stp; cases sp)
       apply (simp_all add: directProcess111_def cong: sum.case_cong option.case_cong)
    done
  show ?thesis
  proof (cases "A \<and> \<not> (d1sq \<ge> d2sq \<and> d2sq \<ge> d3sq)")
    case True
    then show ?thesis using r by (intro sort_assert) auto
  next
    case nA: False
    show ?thesis
    proof (cases stp)
      case True
      then show ?thesis using r nA s by (intro stop [of d2]) auto
    next
      case ns: False
      show ?thesis
      proof (cases sp)
        case False
        then show ?thesis using r nA s d ns
          by (intro commit [of d2 sp1 sp2 sp3 d1 d3 u v]) auto
      next
        case True
        show ?thesis
        proof (cases "A \<and> \<not> ((sp1 \<longrightarrow> getSize c1 > 0) \<and> (sp2 \<longrightarrow> getSize c2 > 0) \<and>
                        (sp3 \<longrightarrow> getSize c3 > 0))")
          case af: True
          then show ?thesis using r nA s d ns True
            by (intro split_assert [of d2 sp1 sp2 sp3 d1 d3 u v]) auto
        next
          case naf: False
          show ?thesis
          proof (cases "split_calls A sp1 sp2 sp3 c1 c2 c3 d1sq d2sq d3sq")
            case (Inl e)
            then show ?thesis using r nA s d ns True naf
              by (intro split_abort [of d2 sp1 sp2 sp3 d1 d3 u v e]) auto
          next
            case (Inr calls)
            then show ?thesis using r nA s d ns True naf
              by (intro split [of d2 sp1 sp2 sp3 d1 d3 u v calls]) auto
          qed
        qed
      qed
    qed
  qed
qed

lemma process111_branches:
  assumes "getW c1 \<noteq> 0" and "getW c2 \<noteq> 0" and "getW c3 \<noteq> 0"
    and "d1sq = (if x1 = 0 then DistSq M (getPos c2) (getPos c3) 0 0 else x1)"
    and "d2sq = (if x2 = 0 then DistSq M (getPos c1) (getPos c3) 0 0 else x2)"
    and "d3sq = (if x3 = 0 then DistSq M (getPos c1) (getPos c2) 0 0 else x3)"
  shows "process111 fin prm A M this bc132 bc213 bc231 bc312 bc321 c1 c2 c3 x1 x2 x3 st =
     (if d1sq > d2sq then
          if d2sq > d3sq then
            process111Sorted fin prm A M this bc132 bc213 bc231 bc312 bc321
              c1 c2 c3 d1sq d2sq d3sq st
          else if d1sq > d3sq then
            process111Sorted fin prm A M bc132 this bc312 bc321 bc213 bc231
              c1 c3 c2 d1sq d3sq d2sq st
          else
            process111Sorted fin prm A M bc312 bc321 bc132 this bc231 bc213
              c3 c1 c2 d3sq d1sq d2sq st
        else
          if d1sq > d3sq then
            process111Sorted fin prm A M bc213 bc231 this bc132 bc321 bc312
              c2 c1 c3 d2sq d1sq d3sq st
          else if d2sq > d3sq then
            process111Sorted fin prm A M bc231 bc213 bc321 bc312 this bc132
              c2 c3 c1 d2sq d3sq d1sq st
          else
            process111Sorted fin prm A M bc321 bc312 bc231 bc213 bc132 this
              c3 c2 c1 d3sq d2sq d1sq st)"
  using assms(1-3) unfolding assms(4-6) by (simp add: process111.simps Let_def)

lemma process111_zero:
  "getW c1 = 0 \<or> getW c2 = 0 \<or> getW c3 = 0 \<Longrightarrow>
   process111 fin prm A M this bc132 bc213 bc231 bc312 bc321 c1 c2 c3 x1 x2 x3 st = Inr st"
  by (auto simp: process111.simps)

lemma run_calls_after:
  assumes "I st" and "\<And>x s. x \<in> set xs \<Longrightarrow> I s \<Longrightarrow> I (outcome_state (f x s))"
  shows "I (outcome_state (run_calls f xs st))"
  using assms
proof (induction xs arbitrary: st)
  case Nil
  then show ?case by simp
next
  case (Cons x xs)
  have 1: "I (outcome_state (f x st))" using Cons.prems by simp
  show ?case
  proof (cases "f x st")
    case (Inl a)
    then show ?thesis using 1 by (cases a) (simp add: ebind_def)
  next
    case (Inr s)
    then have "I s" using 1 by simp
    then have "I (outcome_state (run_calls f xs s))"
      using Cons.prems by (intro Cons.IH) auto
    then show ?thesis using Inr by (simp add: ebind_def)
  qed
qed

lemma ebind_after:
  assumes "I (outcome_state m)" and "\<And>s. m = Inr s \<Longrightarrow> I s \<Longrightarrow> I (outcome_state (f s))"
  shows "I (outcome_state (ebind m f))"
proof (cases m)
  case (Inl a)
  then show ?thesis using assms(1) by (cases a) (simp add: ebind_def)
next
  case (Inr s)
  then show ?thesis using assms by (simp add: ebind_def)
qed

lemma split_calls_sides:
  assumes "split_calls A sp1 sp2 sp3 c1 c2 c3 d1sq d2sq d3sq = Inr cs"
    and "(a1, a2, a3, x1, x2, x3) \<in> set cs"
  shows "(x1 = 0 \<or> x1 = d1sq) \<and> (x2 = 0 \<or> x2 = d2sq) \<and> (x3 = 0 \<or> x3 = d3sq)"
  using assms
  by (auto simp: split_calls_def split: if_splits sum.splits)

lemma process111Sorted_after:
  fixes fin :: "('p, 's) finish"
  assumes IH: "\<And>a1 a2 a3 y1 y2 y3 s.
      depth a1 + depth a2 + depth a3 < n \<Longrightarrow>
      0 \<le> y1 \<Longrightarrow> 0 \<le> y2 \<Longrightarrow> 0 \<le> y3 \<Longrightarrow> I s \<Longrightarrow>
      I (outcome_state (process111 fin prm A M this bc132 bc213 bc231 bc312 bc321
            a1 a2 a3 y1 y2 y3 s))"
    and step: "\<And>c1 c2 c3 d1 d2 d3 logr u v index st.
      I st \<Longrightarrow> in_ranges (prm this) d2 u v \<Longrightarrow> 0 \<le> index \<Longrightarrow> index < ntot (prm this) \<Longrightarrow>
      I (fin this c1 c2 c3 d1 d2 d3 logr u v index st)"
    and n: "depth c1 + depth c2 + depth c3 = n"
    and sorted: "d1sq \<ge> d2sq" "d2sq \<ge> d3sq" "d3sq \<ge> 0"
    and I: "I st"
  shows "I (outcome_state (process111Sorted fin prm A M this bc132 bc213 bc231 bc312 bc321
            c1 c2 c3 d1sq d2sq d3sq st))"
proof (cases rule: process111Sorted_cases [OF refl, where fin = fin and prm = prm and A = A
      and M = M and this = this and ?bc132.0 = bc132 and ?bc213.0 = bc213 and ?bc231.0 = bc231
      and ?bc312.0 = bc312 and ?bc321.0 = bc321 and ?c1.0 = c1 and ?c2.0 = c2 and ?c3.0 = c3
      and ?d1sq.0 = d1sq and ?d2sq.0 = d2sq and ?d3sq.0 = d3sq and st = st])
  case 1
  then show ?thesis using I by simp
next
  case (2 d2)
  then show ?thesis using I by simp
next
  case (3 d2 sp1 sp2 sp3 d1 d3 u v)
  have d2: "d2 = sqrt d2sq" using 3(2) by (rule stop111_d2)
  from decide_split_nosplit_values [OF 3(3)]
  have vals: "d1 = sqrt d1sq" "d3 = sqrt d3sq" "v = (d1 - d2) / d3" by simp_all
  have vnn: "0 \<le> v"
    unfolding vals d2 using sorted by (simp add: zero_le_divide_iff)
  show ?thesis
  proof (cases "commit_bins A (prm this) (CCW M (getPos c1) (getPos c2) (getPos c3)) d1 d2 d3 u v")
    case (Inl e)
    then show ?thesis using 3(4) I by simp
  next
    case (Inr r)
    show ?thesis
    proof (cases r)
      case None
      then show ?thesis using 3(4) Inr I by simp
    next
      case (Some t)
      obtain logr v' index where t: "t = (logr, v', index)" by (cases t) auto
      from commit_spec_Some [OF commit_bins_Some [OF Inr [unfolded Some t]]] vnn
      have "in_ranges (prm this) d2 u v'" "0 \<le> index" "index < ntot (prm this)"
        by (auto simp: in_ranges_def)
      then have "I (fin this c1 c2 c3 d1 d2 d3 logr u v' index st)"
        using step I by blast
      then show ?thesis using 3(4) Inr Some t by simp
    qed
  qed
next
  case (4 d2 sp1 sp2 sp3 d1 d3 u v)
  then show ?thesis using I by simp
next
  case (5 d2 sp1 sp2 sp3 d1 d3 u v e)
  then show ?thesis using I by simp
next
  case (6 d2 sp1 sp2 sp3 d1 d3 u v calls)
  have "I (outcome_state (run_calls
               (\<lambda>(a1, a2, a3, x1, x2, x3) s.
                  process111 fin prm A M this bc132 bc213 bc231 bc312 bc321 a1 a2 a3 x1 x2 x3 s)
               calls st))"
  proof (rule run_calls_after [where I = I, OF I])
    fix x s assume x: "x \<in> set calls" and s: "I s"
    obtain a1 a2 a3 y1 y2 y3 where xe: "x = (a1, a2, a3, y1, y2, y3)"
      by (metis surj_pair)
    from split_calls_depth [OF 6(5) x [unfolded xe]]
    have dep: "depth a1 + depth a2 + depth a3 < n" unfolding n .
    from split_calls_sides [OF 6(5) x [unfolded xe]] sorted
    have "0 \<le> y1" "0 \<le> y2" "0 \<le> y3" by auto
    from IH [OF dep this s]
    show "I (outcome_state ((case x of (a1, a2, a3, x1, x2, x3) \<Rightarrow>
              \<lambda>s. process111 fin prm A M this bc132 bc213 bc231 bc312 bc321 a1 a2 a3 x1 x2 x3 s) s))"
      by (simp add: xe)
  qed
  then show ?thesis using 6(6) by simp
qed

lemma process111_after:
  fixes fin :: "('p, 's) finish"
  assumes nonneg: "\<And>p q. 0 \<le> DistSq M p q 0 0"
    and step: "\<And>this c1 c2 c3 d1 d2 d3 logr u v index st.
      I st \<Longrightarrow> in_ranges (prm this) d2 u v \<Longrightarrow> 0 \<le> index \<Longrightarrow> index < ntot (prm this) \<Longrightarrow>
      I (fin this c1 c2 c3 d1 d2 d3 logr u v index st)"
  shows "I st \<Longrightarrow> 0 \<le> x1 \<Longrightarrow> 0 \<le> x2 \<Longrightarrow> 0 \<le> x3 \<Longrightarrow>
     I (outcome_state (process111 fin prm A M this bc132 bc213 bc231 bc312 bc321
            c1 c2 c3 x1 x2 x3 st))"
proof (induction "depth c1 + depth c2 + depth c3"
    arbitrary: c1 c2 c3 x1 x2 x3 st this bc132 bc213 bc231 bc312 bc321 rule: less_induct)
  case less
  note I = less.prems(1)
  show ?case
  proof (cases "getW c1 = 0 \<or> getW c2 = 0 \<or> getW c3 = 0")
    case True
    then show ?thesis using I by (simp add: process111_zero)
  next
    case False
    define d1sq where "d1sq = (if x1 = 0 then DistSq M (getPos c2) (getPos c3) 0 0 else x1)"
    define d2sq where "d2sq = (if x2 = 0 then DistSq M (getPos c1) (getPos c3) 0 0 else x2)"
    define d3sq where "d3sq = (if x3 = 0 then DistSq M (getPos c1) (getPos c2) 0 0 else x3)"
    have nn: "0 \<le> d1sq" "0 \<le> d2sq" "0 \<le> d3sq"
      using less.prems(2-4) nonneg by (simp_all add: d1sq_def d2sq_def d3sq_def)
    have IH: "\<And>a1 a2 a3 y1 y2 y3 s th o1 o2 o3 o4 o5.
      depth a1 + depth a2 + depth a3 < depth c1 + depth c2 + depth c3 \<Longrightarrow>
      0 \<le> y1 \<Longrightarrow> 0 \<le> y2 \<Longrightarrow> 0 \<le> y3 \<Longrightarrow> I s \<Longrightarrow>
      I (outcome_state (process111 fin prm A M th o1 o2 o3 o4 o5 a1 a2 a3 y1 y2 y3 s))"
      using less.hyps by blast
    have S: "\<And>th o1 o2 o3 o4 o5 a1 a2 a3 e1 e2 e3.
      depth a1 + depth a2 + depth a3 = depth c1 + depth c2 + depth c3 \<Longrightarrow>
      e1 \<ge> e2 \<Longrightarrow> e2 \<ge> e3 \<Longrightarrow> e3 \<ge> 0 \<Longrightarrow>
      I (outcome_state (process111Sorted fin prm A M th o1 o2 o3 o4 o5 a1 a2 a3 e1 e2 e3 st))"
      by (rule process111Sorted_after [where I = I and n = "depth c1 + depth c2 + depth c3"])
         (auto intro: IH step I)
    from False have w: "getW c1 \<noteq> 0" "getW c2 \<noteq> 0" "getW c3 \<noteq> 0" by auto
    show ?thesis
      unfolding process111_branches [OF w d1sq_def d2sq_def d3sq_def]
      using nn by (auto intro!: S)
  qed
qed

lemma process12_unfold:
  "process12 fin prm A M this bc212 bc221 c1 c2 st =
     (if returns12 (prm this) M c1 c2 then Inr st
      else case children A c2 of
             Inl e \<Rightarrow> Inl (e, st)
           | Inr (c2l, c2r) \<Rightarrow>
               ebind (process12 fin prm A M this bc212 bc221 c1 c2l st) (\<lambda>st.
               ebind (process12 fin prm A M this bc212 bc221 c1 c2r st) (\<lambda>st.
               process111 fin prm A M this this bc212 bc221 bc212 bc221
                 c1 c2l c2r 0 0 0 st)))"
  by (subst process12.simps) (auto simp: returns12_def Let_def)

lemma process3_unfold:
  "process3 fin prm A M this c1 st =
     (if returns3 (prm this) c1 then Inr st
      else case children A c1 of
             Inl e \<Rightarrow> Inl (e, st)
           | Inr (c1l, c1r) \<Rightarrow>
               ebind (process3 fin prm A M this c1l st) (\<lambda>st.
               ebind (process3 fin prm A M this c1r st) (\<lambda>st.
               ebind (process12 fin prm A M this this this c1l c1r st) (\<lambda>st.
               process12 fin prm A M this this this c1r c1l st))))"
  by (subst process3.simps) (auto simp: returns3_def Let_def)

lemma process12_after:
  fixes fin :: "('p, 's) finish"
  assumes nonneg: "\<And>p q. 0 \<le> DistSq M p q 0 0"
    and step: "\<And>this c1 c2 c3 d1 d2 d3 logr u v index st.
      I st \<Longrightarrow> in_ranges (prm this) d2 u v \<Longrightarrow> 0 \<le> index \<Longrightarrow> index < ntot (prm this) \<Longrightarrow>
      I (fin this c1 c2 c3 d1 d2 d3 logr u v index st)"
  shows "I st \<Longrightarrow> I (outcome_state (process12 fin prm A M this bc212 bc221 c1 c2 st))"
proof (induction "depth c2" arbitrary: c2 st rule: less_induct)
  case less
  note I = less.prems
  show ?case
  proof (cases "returns12 (prm this) M c1 c2")
    case True
    then show ?thesis using I by (simp add: process12_unfold)
  next
    case False
    show ?thesis
    proof (cases "children A c2")
      case (Inl e)
      then show ?thesis using False I by (simp add: process12_unfold)
    next
      case (Inr lr)
      obtain c2l c2r where lr: "lr = (c2l, c2r)" by (cases lr) auto
      from children_depth [OF Inr [unfolded lr]]
      have d: "depth c2l < depth c2" "depth c2r < depth c2" by simp_all
      have "I (outcome_state (
               ebind (process12 fin prm A M this bc212 bc221 c1 c2l st) (\<lambda>st.
               ebind (process12 fin prm A M this bc212 bc221 c1 c2r st) (\<lambda>st.
               process111 fin prm A M this this bc212 bc221 bc212 bc221
                 c1 c2l c2r 0 0 0 st))))"
      proof (rule ebind_after [where I = I])
        show "I (outcome_state (process12 fin prm A M this bc212 bc221 c1 c2l st))"
          by (rule less.hyps [OF d(1) I])
      next
        fix s assume s: "I s"
        show "I (outcome_state (
               ebind (process12 fin prm A M this bc212 bc221 c1 c2r s) (\<lambda>st.
               process111 fin prm A M this this bc212 bc221 bc212 bc221
                 c1 c2l c2r 0 0 0 st)))"
        proof (rule ebind_after [where I = I])
          show "I (outcome_state (process12 fin prm A M this bc212 bc221 c1 c2r s))"
            by (rule less.hyps [OF d(2) s])
        next
          fix s' assume "I s'"
          then show "I (outcome_state (process111 fin prm A M this this bc212 bc221 bc212 bc221
                 c1 c2l c2r 0 0 0 s'))"
            by (intro process111_after [where I = I and prm = prm and fin = fin and M = M,
                  OF nonneg step]) simp_all
        qed
      qed
      then show ?thesis using False Inr lr by (simp add: process12_unfold)
    qed
  qed
qed

lemma process3_after:
  fixes fin :: "('p, 's) finish"
  assumes nonneg: "\<And>p q. 0 \<le> DistSq M p q 0 0"
    and step: "\<And>this c1 c2 c3 d1 d2 d3 logr u v index st.
      I st \<Longrightarrow> in_ranges (prm this) d2 u v \<Longrightarrow> 0 \<le> index \<Longrightarrow> index < ntot (prm this) \<Longrightarrow>
      I (fin this c1 c2 c3 d1 d2 d3 logr u v index st)"
  shows "I st \<Longrightarrow> I (outcome_state (process3 fin prm A M this c1 st))"
proof (induction "depth c1" arbitrary: c1 st rule: less_induct)
  case less
  note I = less.prems
  show ?case
  proof (cases "returns3 (prm this) c1")
    case True
    then show ?thesis using I by (simp add: process3_unfold)
  next
    case False
    show ?thesis
    proof (cases "children A c1")
      case (Inl e)
      then show ?thesis using False I by (simp add: process3_unfold)
    next
      case (Inr lr)
      obtain c1l c1r where lr: "lr = (c1l, c1r)" by (cases lr) auto
      from children_depth [OF Inr [unfolded lr]]
      have d: "depth c1l < depth c1" "depth c1r < depth c1" by simp_all
      have "I (outcome_state (
               ebind (process3 fin prm A M this c1l st) (\<lambda>st.
               ebind (process3 fin prm A M this c1r st) (\<lambda>st.
               ebind (process12 fin prm A M this this this c1l c1r st) (\<lambda>st.
               process12 fin prm A M this this this c1r c1l st)))))"
      proof (rule ebind_after [where I = I])
        show "I (outcome_state (process3 fin prm A M this c1l st))"
          by (rule less.hyps [OF d(1) I])
      next
        fix s assume s: "I s"
        show "I (outcome_state (
               ebind (process3 fin prm A M this c1r s) (\<lambda>st.
               ebind (process12 fin prm A M this this this c1l c1r st) (\<lambda>st.
               process12 fin prm A M this this this c1r c1l st))))"
        proof (rule ebind_after [where I = I])
          show "I (outcome_state (process3 fin prm A M this c1r s))"
            by (rule less.hyps [OF d(2) s])
        next
          fix s' assume s': "I s'"
          show "I (outcome_state (
               ebind (process12 fin prm A M this this this c1l c1r s') (\<lambda>st.
               process12 fin prm A M this this this c1r c1l st)))"
          proof (rule ebind_after [where I = I])
            show "I (outcome_state (process12 fin prm A M this this this c1l c1r s'))"
              by (rule process12_after [where I = I and prm = prm and fin = fin
                    and M = M, OF nonneg step s'], assumption+)
          next
            fix s'' assume s'': "I s''"
            show "I (outcome_state (process12 fin prm A M this this this c1r c1l s''))"
              by (rule process12_after [where I = I and prm = prm and fin = fin
                    and M = M, OF nonneg step s''], assumption+)
          qed
        qed
      qed
      then show ?thesis using False Inr lr by (simp add: process3_unfold)
    qed
  qed
qed

subsection \<open>In-range commits only\<close>

lemma extends_in_rangesI:
  assumes "\<exists>new. outcome_state r = tr @ new \<and> (\<forall>e \<in> set new. commit_in_ranges prm e)"
  shows "extends_in_ranges prm tr r"
  using assms by (auto simp: extends_in_ranges_def list_all_iff)

lemma record_commit_extends:
  assumes "\<exists>new. st = tr @ new \<and> (\<forall>e \<in> set new. commit_in_ranges prm e)"
    and "in_ranges (prm this) d2 u v" "0 \<le> index" "index < ntot (prm this)"
  shows "\<exists>new. record_commit this c1 c2 c3 d1 d2 d3 logr u v index st = tr @ new \<and>
           (\<forall>e \<in> set new. commit_in_ranges prm e)"
proof -
  from assms(1) obtain new where n: "st = tr @ new" "\<forall>e \<in> set new. commit_in_ranges prm e"
    by blast
  have "record_commit this c1 c2 c3 d1 d2 d3 logr u v index st =
          tr @ (new @ [(this, c1, c2, c3, d1, d2, d3, logr, u, v, index)])"
    by (simp add: record_commit_def n(1))
  moreover have "\<forall>e \<in> set (new @ [(this, c1, c2, c3, d1, d2, d3, logr, u, v, index)]).
          commit_in_ranges prm e"
    using n(2) assms(2-4) by (simp add: commit_in_ranges_def)
  ultimately show ?thesis by blast
qed

text \<open>
  Claim C2. For a metric whose squared distances are not negative, every call of the kernel
  commit (\<^verbatim>\<open>directProcess111\<close> passing on to \<^verbatim>\<open>finishProcess\<close> of the accumulator \<open>this\<close>, one
  of the siblings) made by \<^verbatim>\<open>process111\<close>, \<^verbatim>\<open>process12\<close> or \<^verbatim>\<open>process3\<close>, on any cells, with
  the assertions compiled in or not, and also when the run aborts, has arguments with
  \<open>minsep \<le> d2 < maxsep\<close>, \<open>minu \<le> u < maxu\<close> and \<open>minv \<le> |v| < maxv\<close> for the parameters of
  that accumulator, and an index inside its arrays: the calls recorded during the run
  extend the ones recorded before by in-range commits only.
\<close>

theorem commits_in_ranges:
  fixes M :: "'p metric" and tr :: "'p commit list"
  assumes nonneg: "\<forall>p q. 0 \<le> DistSq M p q 0 0"
    and x: "0 \<le> x1" "0 \<le> x2" "0 \<le> x3"
  shows "extends_in_ranges prm tr
           (process111 record_commit prm A M this bc132 bc213 bc231 bc312 bc321
              c1 c2 c3 x1 x2 x3 tr) \<and>
         extends_in_ranges prm tr (process12 record_commit prm A M this bc212 bc221 c1 c2 tr) \<and>
         extends_in_ranges prm tr (process3 record_commit prm A M this c1 tr)"
proof -
  define I where
    "I = (\<lambda>st. \<exists>new. st = tr @ new \<and> (\<forall>e \<in> set new. commit_in_ranges prm e))"
  have nn: "\<And>p q. 0 \<le> DistSq M p q 0 0" using nonneg by blast
  have step: "\<And>this c1 c2 c3 d1 d2 d3 logr u v index st.
      I st \<Longrightarrow> in_ranges (prm this) d2 u v \<Longrightarrow> 0 \<le> index \<Longrightarrow> index < ntot (prm this) \<Longrightarrow>
      I (record_commit this c1 c2 c3 d1 d2 d3 logr u v index st)"
    unfolding I_def by (rule record_commit_extends)
  have I0: "I tr" by (simp add: I_def)
  have a: "I (outcome_state (process111 record_commit prm A M this bc132 bc213 bc231 bc312 bc321
              c1 c2 c3 x1 x2 x3 tr))"
    by (rule process111_after [where I = I and prm = prm and fin = record_commit and M = M,
          OF nn step I0 x], assumption+)
  have b: "I (outcome_state (process12 record_commit prm A M this bc212 bc221 c1 c2 tr))"
    by (rule process12_after [where I = I and prm = prm and fin = record_commit and M = M,
          OF nn step I0], assumption+)
  have c: "I (outcome_state (process3 record_commit prm A M this c1 tr))"
    by (rule process3_after [where I = I and prm = prm and fin = record_commit and M = M,
          OF nn step I0], assumption+)
  show ?thesis
    using a b c unfolding I_def by (intro conjI extends_in_rangesI)
qed

text \<open>
  The theorem at the leaves \<open>(0,0), (10,0), (5,12)\<close>: the one commit made has \<open>d2 = 13\<close>,
  \<open>u = 10/13\<close> and \<open>v = 0\<close>, inside the ranges \<open>[13, 26)\<close>, \<open>[0, 1)\<close> and \<open>[0, 1)\<close>.
\<close>

theorem commits_in_ranges_witness:
  "(\<forall>p q. 0 \<le> DistSq Flat_Euclidean p q 0 0) \<and>
   outcome_state (process111 record_commit (\<lambda>r. params13) True Flat_Euclidean 0 1 2 3 4 5
     cellA cellB cellC 0 0 0 []) =
     [(2, cellB, cellA, cellC, 13, 13, 10, ln 13, 10 / 13, 0, 0)] \<and>
   commit_in_ranges (\<lambda>r. params13) (2, cellB, cellA, cellC, 13, 13, 10, ln 13, 10 / 13, 0, 0) \<and>
   minsep params13 \<le> 13 \<and> 13 < maxsep params13 \<and>
   minu params13 \<le> 10 / 13 \<and> 10 / 13 < maxu params13 \<and>
   minv params13 \<le> 0 \<and> 0 < maxv params13"
proof -
  have nn: "\<forall>p q. 0 \<le> DistSq Flat_Euclidean p q 0 0"
    by (simp add: Flat_Euclidean_def SQR_def)
  have "extends_in_ranges (\<lambda>r. params13) []
          (process111 record_commit (\<lambda>r. params13) True Flat_Euclidean 0 1 2 3 4 5
             cellA cellB cellC 0 0 0 [])"
    using commits_in_ranges [where M = Flat_Euclidean and prm = "\<lambda>r. params13" and A = True
      and this = 0 and ?bc132.0 = 1 and ?bc213.0 = 2 and ?bc231.0 = 3 and ?bc312.0 = 4
      and ?bc321.0 = 5 and ?c1.0 = cellA and ?c2.0 = cellB and ?c3.0 = cellC
      and ?x1.0 = 0 and ?x2.0 = 0 and ?x3.0 = 0 and tr = "[]", OF nn]
    by simp
  then have c: "commit_in_ranges (\<lambda>r. params13)
             (2, cellB, cellA, cellC, 13, 13, 10, ln 13, 10 / 13, 0, 0)"
    unfolding process111_isosceles by (simp add: extends_in_ranges_def)
  from c have "minsep params13 \<le> 13 \<and> 13 < maxsep params13 \<and>
   minu params13 \<le> 10 / 13 \<and> 10 / 13 < maxu params13 \<and>
   minv params13 \<le> 0 \<and> 0 < maxv params13"
    by (simp add: commit_in_ranges_def in_ranges_def)
  moreover have "outcome_state (process111 record_commit (\<lambda>r. params13) True Flat_Euclidean
       0 1 2 3 4 5 cellA cellB cellC 0 0 0 []) =
     [(2, cellB, cellA, cellC, 13, 13, 10, ln 13, 10 / 13, 0, 0)]"
    unfolding process111_isosceles by simp
  ultimately show ?thesis using nn c by blast
qed

subsection \<open>Child access in process3\<close>

lemma ebind_Inl:
  assumes "ebind m f = Inl x"
  obtains "m = Inl x" | y where "m = Inr y" "f y = Inl x"
  using assms by (cases m) (auto simp: ebind_def)

lemma wf_cell_children:
  assumes "wf_cell c" and "getSize c \<noteq> 0"
  shows "\<exists>l r. children A c = Inr (l, r) \<and> getLeft c = Some l \<and> getRight c = Some r \<and>
           wf_cell l \<and> wf_cell r"
  using assms by (cases c) (auto simp: children_def split: option.splits)

lemma wf_cell_leaf:
  assumes "wf_cell c" and "getLeft c = None"
  shows "getSize c = 0 \<and> getRight c = None \<and>
         children A c = Inl (if A then AssertFailed else NullPointer)"
  using assms by (cases c) (auto simp: children_def split: option.splits)

lemma process3_abort_origin:
  fixes fin :: "('p, 's) finish"
  assumes h: "0 < halfminsep (prm this)"
  shows "wf_cell c \<Longrightarrow> process3 fin prm A M this c st = Inl x \<Longrightarrow>
         \<exists>c1 c2 s. process12 fin prm A M this this this c1 c2 s = Inl x"
proof (induction "depth c" arbitrary: c st rule: less_induct)
  case less
  note wf = less.prems(1) and res = less.prems(2)
  have nr: "\<not> returns3 (prm this) c"
    using res by (auto simp: process3_unfold)
  then have "getSize c \<noteq> 0" using h by (auto simp: returns3_def)
  from wf_cell_children [OF wf this, of A]
  obtain l r where ch: "children A c = Inr (l, r)" and wfl: "wf_cell l" and wfr: "wf_cell r"
    by blast
  from children_depth [OF ch] have d: "depth l < depth c" "depth r < depth c" by simp_all
  from res nr ch
  have e: "ebind (process3 fin prm A M this l st) (\<lambda>st.
           ebind (process3 fin prm A M this r st) (\<lambda>st.
           ebind (process12 fin prm A M this this this l r st) (\<lambda>st.
           process12 fin prm A M this this this r l st))) = Inl x"
    by (simp add: process3_unfold)
  from e show ?case
  proof (cases rule: ebind_Inl)
    case 1
    from less.hyps [OF d(1) wfl 1] show ?thesis .
  next
    case (2 s1)
    from 2(2) show ?thesis
    proof (cases rule: ebind_Inl)
      case 1
      from less.hyps [OF d(2) wfr 1] show ?thesis .
    next
      case (2 s2)
      from 2(2) show ?thesis
      proof (cases rule: ebind_Inl)
        case 1
        then show ?thesis by blast
      next
        case (2 s3)
        then show ?thesis by blast
      qed
    qed
  qed
qed

text \<open>
  Claim C10. For a cell tree in which every leaf has size 0 and every other cell has both
  children, and parameters with \<open>halfminsep = minsep / 2\<close> as the constructor sets them: if
  \<open>minsep > 0\<close>, a cell that passes the two early returns of \<^verbatim>\<open>process3\<close> has positive size
  and both children (so neither assertion fails and neither dereference is of a null
  pointer), the children are again of this shape, and whenever \<^verbatim>\<open>process3\<close> aborts, the
  abort is that of one of the calls of \<^verbatim>\<open>process12\<close>, never of its own child access. If
  \<open>minsep = 0\<close>, a leaf of nonzero weight passes the early returns and \<^verbatim>\<open>process3\<close> aborts
  at the child access: the assertion fails, or a null pointer is dereferenced when the
  assertions are compiled out.
\<close>

theorem process3_child_access:
  fixes fin :: "('p, 's) finish"
  assumes wf: "wf_cell c" and half: "halfminsep (prm this) = minsep (prm this) / 2"
  shows
    "(0 < minsep (prm this) \<longrightarrow>
        (\<not> returns3 (prm this) c \<longrightarrow>
           0 < getSize c \<and>
           (\<exists>l r. children A c = Inr (l, r) \<and> getLeft c = Some l \<and> getRight c = Some r \<and>
                  wf_cell l \<and> wf_cell r)) \<and>
        (\<forall>x. process3 fin prm A M this c st = Inl x \<longrightarrow>
           (\<exists>c1 c2 s. process12 fin prm A M this this this c1 c2 s = Inl x))) \<and>
     (minsep (prm this) = 0 \<and> getW c \<noteq> 0 \<and> getLeft c = None \<longrightarrow>
        \<not> returns3 (prm this) c \<and>
        process3 fin prm A M this c st = Inl (if A then AssertFailed else NullPointer, st))"
proof (intro conjI impI allI)
  assume m: "0 < minsep (prm this)" and nr: "\<not> returns3 (prm this) c"
  then show pos: "0 < getSize c" using half by (auto simp: returns3_def)
  then have "getSize c \<noteq> 0" by simp
  from wf_cell_children [OF wf this]
  show "\<exists>l r. children A c = Inr (l, r) \<and> getLeft c = Some l \<and> getRight c = Some r \<and>
           wf_cell l \<and> wf_cell r" .
next
  fix x
  assume m: "0 < minsep (prm this)" and r: "process3 fin prm A M this c st = Inl x"
  from m half have "0 < halfminsep (prm this)" by simp
  from process3_abort_origin [OF this wf r]
  show "\<exists>c1 c2 s. process12 fin prm A M this this this c1 c2 s = Inl x" .
next
  assume a: "minsep (prm this) = 0 \<and> getW c \<noteq> 0 \<and> getLeft c = None"
  from wf_cell_leaf [OF wf, of A] a
  have l: "getSize c = 0" "children A c = Inl (if A then AssertFailed else NullPointer)"
    by simp_all
  show nr: "\<not> returns3 (prm this) c" using a half l(1) by (simp add: returns3_def)
  show "process3 fin prm A M this c st = Inl (if A then AssertFailed else NullPointer, st)"
    using nr l(2) by (simp add: process3_unfold)
qed

text \<open>
  The theorem at a cell of size 5 over two leaves with \<open>minsep = 4\<close>, and at a leaf with
  \<open>minsep = 0\<close>.
\<close>

theorem process3_child_access_witness:
  "wf_cell cellAB \<and> halfminsep params4 = minsep params4 / 2 \<and> 0 < minsep params4 \<and>
   \<not> returns3 params4 cellAB \<and> 0 < getSize cellAB \<and>
   children True cellAB = Inr (cellA, cellB) \<and>
   wf_cell cellA \<and> halfminsep params0 = minsep params0 / 2 \<and> minsep params0 = 0 \<and>
   getW cellA \<noteq> 0 \<and> getLeft cellA = None \<and>
   process3 record_commit (\<lambda>r. params0) True Flat_Euclidean 0 cellA [] =
     Inl (AssertFailed, [])"
proof -
  have a: "wf_cell cellAB" "wf_cell cellA"
    by (simp_all add: cellAB_def cellA_def cellB_def leaf_def)
  have b: "halfminsep params4 = minsep params4 / 2" "0 < minsep params4"
    "halfminsep params0 = minsep params0 / 2" "minsep params0 = 0"
    by (simp_all add: params4_def params0_def BaseCorr3_ctor_def)
  have c: "\<not> returns3 params4 cellAB" "getW cellA \<noteq> 0" "getLeft cellA = None"
    by (simp_all add: returns3_def params4_def BaseCorr3_ctor_def cellAB_def cellA_def leaf_def)
  have d: "children True cellAB = Inr (cellA, cellB)"
    by (simp add: children_def cellAB_def)
  from process3_child_access [where prm = "\<lambda>r. params4" and c = cellAB and A = True
      and fin = record_commit and M = Flat_Euclidean and this = 0 and st = "[]",
      OF a(1) b(1)] b(2) c(1)
  have e: "0 < getSize cellAB" by blast
  from process3_child_access [where prm = "\<lambda>r. params0" and c = cellA and A = True
      and fin = record_commit and M = Flat_Euclidean and this = 0 and st = "[]",
      OF a(2) b(3)] b(4) c(2,3)
  have f: "process3 record_commit (\<lambda>r. params0) True Flat_Euclidean 0 cellA [] =
     Inl (AssertFailed, [])" by simp
  from a b c d e f show ?thesis by blast
qed

subsection \<open>Termination and depth of the recursion\<close>

lemma children_is_child:
  "children A c = Inr (l, r) \<Longrightarrow> is_child l c \<and> is_child r c"
  by (auto simp: children_def is_child_def split: option.splits)

lemma decide_split_sizes:
  assumes "decide_split P d1sq d2sq d3sq d2 s1 s2 s3 = (True, sp1, sp2, sp3, d1, d3, u, v)"
  shows "(sp3 \<longrightarrow> 0 < s3) \<and>
         (\<not> sp3 \<longrightarrow> (sp1 \<longrightarrow> 0 < s1) \<and> (sp2 \<longrightarrow> 0 < s2) \<and> (sp1 \<or> sp2))"
proof (cases "split3_expr P d2sq d3sq d2 s1 s3")
  case True
  then have "0 < s3" by (simp add: split3_expr_def)
  moreover have "sp3" using assms True by (simp add: decide_split_def Let_def)
  ultimately show ?thesis by blast
next
  case False
  have pos: "s1 > 0 \<or> s2 > 0"
    using assms False by (auto simp: decide_split_def Let_def split: if_splits)
  define split1 where "split1 =
     (s1 > 0 \<and> (d2split_after P d2 s1 s3 \<or> (s3 = 0 \<and> s3 > d2 * b P) \<or> SQR s1 > d3sq))"
  define split2 where "split2 = (s2 > 0 \<and> (SQR s2 > d3sq \<or>
                        (s2 > s3 \<and> d3sq > SQR (d2 - s2 + s3)) \<or>
                        (s2 > s1 \<and> d1sq < SQR (d2 + s2 - s1))))"
  have e: "sp1 = (split1 \<or> s1 \<ge> s2)" "sp2 = (split2 \<or> s2 \<ge> s1)" "\<not> sp3"
    using assms False pos unfolding decide_split_def Let_def split1_def split2_def
    by (simp_all split: if_splits)
  have "split1 \<longrightarrow> 0 < s1" "split2 \<longrightarrow> 0 < s2" by (simp_all add: split1_def split2_def)
  with e pos show ?thesis by auto
qed

lemma split_calls_step:
  assumes d: "decide_split P d1sq d2sq d3sq d2 (getSize c1) (getSize c2) (getSize c3)
                = (True, sp1, sp2, sp3, d1, d3, u, v)"
    and s: "split_calls A sp1 sp2 sp3 c1 c2 c3 d1sq d2sq d3sq = Inr calls"
    and m: "(a1, a2, a3, y1, y2, y3) \<in> set calls"
  shows "split_step (a1, a2, a3) (c1, c2, c3)"
proof -
  note z = decide_split_sizes [OF d]
  show ?thesis
  proof (cases sp3)
    case True
    then have "0 < getSize c3" using z by simp
    then show ?thesis using s m True
      by (auto simp: split_calls_def split_step_def split: if_splits sum.splits
            dest!: children_is_child)
  next
    case False
    show ?thesis
    proof (cases sp2)
      case True
      then have "0 < getSize c2" using z False by simp
      then show ?thesis using s m True False
        by (auto simp: split_calls_def split_step_def split: if_splits sum.splits
              dest!: children_is_child)
    next
      case F2: False
      then have "0 < getSize c1" using z False by auto
      then show ?thesis using s m F2 False
        by (auto simp: split_calls_def split_step_def split: if_splits sum.splits
              dest!: children_is_child)
    qed
  qed
qed

lemma rel111_level:
  assumes "process111_process111Sorted_rel x y"
  shows "level111 x < level111 y"
  using assms
  by (cases rule: process111_process111Sorted_rel.cases)
     (auto simp: level111_def cells111_def depth3_def dest!: split_calls_depth)

lemma rel12_depth:
  assumes "process12_rel x y"
  shows "depth (cell12 x) < depth (cell12 y)"
  using assms
  by (cases rule: process12_rel.cases) (auto simp: cell12_def dest!: children_depth)

lemma rel3_depth:
  assumes "process3_rel x y"
  shows "depth (cell3 x) < depth (cell3 y)"
  using assms
  by (cases rule: process3_rel.cases) (auto simp: cell3_def dest!: children_depth)

lemma relpow_measure:
  fixes f :: "'a \<Rightarrow> nat"
  assumes "\<And>x y. R x y \<Longrightarrow> f x < f y"
  shows "(R ^^ n) x y \<Longrightarrow> n + f x \<le> f y"
proof (induction n arbitrary: y)
  case 0
  then show ?case by simp
next
  case (Suc n)
  from Suc.prems obtain z where "(R ^^ n) x z" "R z y" by auto
  from Suc.IH [OF this(1)] assms [OF this(2)] show ?case by simp
qed

lemma rel111_step:
  assumes "process111_process111Sorted_rel (Inl x) (Inr y)"
  shows "split_step (cells111 x) (cells111 y)"
  using assms
  apply (cases rule: process111_process111Sorted_rel.cases; clarsimp simp: cells111_def)
  apply (erule split_calls_step [OF sym]; assumption)
  done

lemma rel111_splitI:
  assumes a1: "\<not> (A \<and> \<not> d2sq \<le> d1sq)" and a2: "\<not> (A \<and> \<not> d3sq \<le> d2sq)"
    and stop: "stop111 d1sq d2sq d3sq (getSize c1) (getSize c2) (getSize c3)
         (minsep (prm this)) (minsepsq (prm this)) (maxsep (prm this)) (maxsepsq (prm this))
         (minu (prm this)) (minusq (prm this)) (maxu (prm this)) (maxusq (prm this))
         (minv (prm this)) (minvsq (prm this)) (maxv (prm this)) (maxvsq (prm this)) = (False, d2)"
    and dec: "decide_split (prm this) d1sq d2sq d3sq d2 (getSize c1) (getSize c2) (getSize c3)
         = (True, sp1, sp2, sp3, d1, d3, u, v)"
    and s1: "\<not> (A \<and> \<not> (sp1 = False \<or> 0 < getSize c1))"
    and s2: "\<not> (A \<and> \<not> (sp2 = False \<or> 0 < getSize c2))"
    and s3: "\<not> (A \<and> \<not> (sp3 = False \<or> 0 < getSize c3))"
    and sc: "split_calls A sp1 sp2 sp3 c1 c2 c3 d1sq d2sq d3sq = Inr calls"
    and mem: "(a1, a2, a3, y1, y2, y3) \<in> set calls"
  shows "process111_process111Sorted_rel
           (Inl (fin, prm, A, M, this, bc132, bc213, bc231, bc312, bc321,
                 a1, a2, a3, y1, y2, y3, s))
           (Inr (fin, prm, A, M, this, bc132, bc213, bc231, bc312, bc321,
                 c1, c2, c3, d1sq, d2sq, d3sq, st))"
  by (rule process111_process111Sorted_rel.intros(7) [where prm = prm and this = this
        and x = "prm this", OF refl refl refl refl a1 a2
        stop [symmetric] refl dec [symmetric] refl refl refl refl refl refl TrueI
        s1 s2 s3 sc mem refl refl refl refl refl])

lemma stop111_split_example:
  "stop111 169 169 100 0 0 5
     (minsep params13) (minsepsq params13) (maxsep params13) (maxsepsq params13)
     (minu params13) (minusq params13) (maxu params13) (maxusq params13)
     (minv params13) (minvsq params13) (maxv params13) (maxvsq params13) = (False, 13)"
  by (simp add: stop111_def SQR_def Let_def params13_def BaseCorr3_ctor_def)

lemma decide_split_split_example:
  "decide_split params13 169 169 100 13 0 0 5 = (True, False, False, True, - 1, - 1, - 1, - 1)"
  by (simp add: decide_split_def split3_expr_def SQR_def Let_def params13_def BaseCorr3_ctor_def)

lemma split_calls_example:
  "split_calls True False False True cellB cellA cellGH 169 169 100 =
     Inr [(cellB, cellA, cellG, 0, 0, 100), (cellB, cellA, cellH, 0, 0, 100)]"
  by (simp add: split_calls_def children_def cellGH_def)

text \<open>
  Claim C8. The procedures \<^verbatim>\<open>process3\<close>, \<^verbatim>\<open>process12\<close>, \<^verbatim>\<open>process111\<close> and \<^verbatim>\<open>process111Sorted\<close>
  terminate on every input: every argument tuple is in the domain of its definition (cell
  trees are finite by their type; where a child is missing the run ends with an abort).
  The depth of the recursion is bounded by the depths of the cell trees: a chain of \<open>n\<close>
  nested calls of \<^verbatim>\<open>process3\<close> or of \<^verbatim>\<open>process12\<close> descends \<open>n\<close> levels of the tree of the cell
  that is split, and a chain of \<open>n\<close> nested calls of \<^verbatim>\<open>process111\<close> and \<^verbatim>\<open>process111Sorted\<close>
  lowers the measure (twice the sum of the depths of the three cells, plus one at
  \<^verbatim>\<open>process111\<close>) by at least \<open>n\<close>. Every recursive call \<^verbatim>\<open>process111Sorted\<close> makes keeps each
  cell or replaces it by one of its children, and replaces at least one cell of positive
  size.
\<close>

theorem recursion_terminates:
  "(\<forall>x :: ('p, 's) args3. process3_dom x) \<and>
   (\<forall>x :: ('p, 's) args12. process12_dom x) \<and>
   (\<forall>x :: ('p, 's) args111 + ('p, 's) args111. process111_process111Sorted_dom x) \<and>
   (\<forall>n x y. (process3_rel ^^ n) x (y :: ('p, 's) args3) \<longrightarrow>
      n + depth (cell3 x) \<le> depth (cell3 y)) \<and>
   (\<forall>n x y. (process12_rel ^^ n) x (y :: ('p, 's) args12) \<longrightarrow>
      n + depth (cell12 x) \<le> depth (cell12 y)) \<and>
   (\<forall>n x y. (process111_process111Sorted_rel ^^ n) x
        (y :: ('p, 's) args111 + ('p, 's) args111) \<longrightarrow>
      n + level111 x \<le> level111 y) \<and>
   (\<forall>x y. process111_process111Sorted_rel (Inl x) (Inr (y :: ('p, 's) args111)) \<longrightarrow>
      split_step (cells111 x) (cells111 y))"
proof (intro conjI allI impI)
  fix x :: "('p, 's) args3"
  have "wfp (process3_rel :: ('p, 's) args3 \<Rightarrow> _)"
    by (rule wfp_if_convertible_to_nat [of _ "\<lambda>x. depth (cell3 x)"]) (rule rel3_depth)
  from this [unfolded wfp_iff_accp] show "process3_dom x" by (rule spec)
next
  fix x :: "('p, 's) args12"
  have "wfp (process12_rel :: ('p, 's) args12 \<Rightarrow> _)"
    by (rule wfp_if_convertible_to_nat [of _ "\<lambda>x. depth (cell12 x)"]) (rule rel12_depth)
  from this [unfolded wfp_iff_accp] show "process12_dom x" by (rule spec)
next
  fix x :: "('p, 's) args111 + ('p, 's) args111"
  have "wfp (process111_process111Sorted_rel :: ('p, 's) args111 + ('p, 's) args111 \<Rightarrow> _)"
    by (rule wfp_if_convertible_to_nat [of _ level111]) (rule rel111_level)
  from this [unfolded wfp_iff_accp] show "process111_process111Sorted_dom x" by (rule spec)
next
  fix n and x y :: "('p, 's) args3"
  assume "(process3_rel ^^ n) x y"
  then show "n + depth (cell3 x) \<le> depth (cell3 y)"
    by (rule relpow_measure [where f = "\<lambda>x. depth (cell3 x)", rotated]) (rule rel3_depth)
next
  fix n and x y :: "('p, 's) args12"
  assume "(process12_rel ^^ n) x y"
  then show "n + depth (cell12 x) \<le> depth (cell12 y)"
    by (rule relpow_measure [where f = "\<lambda>x. depth (cell12 x)", rotated]) (rule rel12_depth)
next
  fix n and x y :: "('p, 's) args111 + ('p, 's) args111"
  assume "(process111_process111Sorted_rel ^^ n) x y"
  then show "n + level111 x \<le> level111 y"
    by (rule relpow_measure [where f = level111, rotated]) (rule rel111_level)
next
  fix x y :: "('p, 's) args111"
  assume "process111_process111Sorted_rel (Inl x) (Inr y)"
  then show "split_step (cells111 x) (cells111 y)" by (rule rel111_step)
qed

text \<open>
  The theorem at the call of \<^verbatim>\<open>process3\<close> on a child of a cell over two leaves, and at the
  first call \<^verbatim>\<open>process111Sorted\<close> makes on the leaves \<open>(10,0)\<close>, \<open>(0,0)\<close> and a cell of size 5
  at \<open>(5,12)\<close>, which splits the third cell only.
\<close>

theorem recursion_terminates_witness:
  "process3_rel (record_commit, \<lambda>r. params4, True, Flat_Euclidean, 0, cellA, [])
                (record_commit, \<lambda>r. params4, True, Flat_Euclidean, 0, cellAB, []) \<and>
   1 + depth cellA \<le> depth cellAB \<and>
   process111_process111Sorted_rel
     (Inl (record_commit, \<lambda>r. params13, True, Flat_Euclidean, 0, 1, 2, 3, 4, 5,
           cellB, cellA, cellG, 0, 0, 100, []))
     (Inr (record_commit, \<lambda>r. params13, True, Flat_Euclidean, 0, 1, 2, 3, 4, 5,
           cellB, cellA, cellGH, 169, 169, 100, [])) \<and>
   split_step (cellB, cellA, cellG) (cellB, cellA, cellGH) \<and>
   is_child cellG cellGH \<and> 0 < getSize cellGH"
proof -
  have sz: "getSize cellA = 0" "getSize cellB = 0" "getSize cellGH = 5"
    by (simp_all add: cellA_def cellB_def cellGH_def leaf_def)
  have r3: "process3_rel (record_commit, \<lambda>r. params4, True, Flat_Euclidean, 0, cellA, [])
                (record_commit, \<lambda>r. params4, True, Flat_Euclidean, 0, cellAB, [])"
    by (rule process3_rel.intros(1) [where prm = "\<lambda>r. params4" and this = 0 and x = params4
          and y = cellB, OF _ _ _ _ refl])
       (simp_all add: cellAB_def children_def params4_def BaseCorr3_ctor_def)
  then have "(process3_rel ^^ 1) (record_commit, \<lambda>r. params4, True, Flat_Euclidean, 0, cellA, [])
                (record_commit, \<lambda>r. params4, True, Flat_Euclidean, 0, cellAB, [])"
    by auto
  with recursion_terminates [where ?'p = "real \<times> real" and ?'s = "(real \<times> real) commit list"]
  have d: "1 + depth (cell3 (record_commit, \<lambda>r. params4, True, Flat_Euclidean, 0 :: ref, cellA,
                 [] :: (real \<times> real) commit list)) \<le>
           depth (cell3 (record_commit, \<lambda>r. params4, True, Flat_Euclidean, 0 :: ref, cellAB,
                 [] :: (real \<times> real) commit list))"
    by blast
  have r111: "process111_process111Sorted_rel
     (Inl (record_commit, \<lambda>r. params13, True, Flat_Euclidean, 0, 1, 2, 3, 4, 5,
           cellB, cellA, cellG, 0, 0, 100, []))
     (Inr (record_commit, \<lambda>r. params13, True, Flat_Euclidean, 0, 1, 2, 3, 4, 5,
           cellB, cellA, cellGH, 169, 169, 100, []))"
    by (rule rel111_splitI [where ?d2.0 = 13 and ?sp1.0 = False and ?sp2.0 = False
          and ?sp3.0 = True and ?d1.0 = "- 1" and ?d3.0 = "- 1" and u = "- 1" and v = "- 1"
          and calls = "[(cellB, cellA, cellG, 0, 0, 100), (cellB, cellA, cellH, 0, 0, 100)]"])
       (simp_all add: sz stop111_split_example decide_split_split_example split_calls_example)
  with recursion_terminates [where ?'p = "real \<times> real" and ?'s = "(real \<times> real) commit list"]
  have s: "split_step
      (cells111 (record_commit, \<lambda>r. params13, True, Flat_Euclidean, 0 :: ref, 1 :: ref, 2 :: ref,
         3 :: ref, 4 :: ref, 5 :: ref, cellB, cellA, cellG, 0 :: real, 0 :: real, 100 :: real,
         [] :: (real \<times> real) commit list))
      (cells111 (record_commit, \<lambda>r. params13, True, Flat_Euclidean, 0 :: ref, 1 :: ref, 2 :: ref,
         3 :: ref, 4 :: ref, 5 :: ref, cellB, cellA, cellGH, 169 :: real, 169 :: real,
         100 :: real, [] :: (real \<times> real) commit list))"
    by blast
  have c: "is_child cellG cellGH" "0 < getSize cellGH"
    by (simp_all add: is_child_def cellGH_def)
  from d have d': "1 + depth cellA \<le> depth cellAB" by (simp add: cell3_def)
  from s have s': "split_step (cellB, cellA, cellG) (cellB, cellA, cellGH)"
    by (simp add: cells111_def)
  from r3 d' r111 s' c show ?thesis by blast
qed

subsection \<open>Count conservation\<close>

text \<open>
  The count of triangles added by \<^verbatim>\<open>process111\<close>, \<^verbatim>\<open>process12\<close>, \<^verbatim>\<open>process3\<close> and the loops of
  the entry points, for any kernel commit that raises a measure of the state by the
  product of the numbers of points of the three cells, when no cell combination is pruned.
\<close>

lemma adds_Inr [simp]: "adds \<mu> k st (Inr s) = (\<mu> s = \<mu> st + k)"
  and adds_Inl [simp]: "adds \<mu> k st (Inl e) = False"
  by (simp_all add: adds_def)

lemma adds_ebind:
  assumes "adds \<mu> k1 st m" and "\<And>s. m = Inr s \<Longrightarrow> adds \<mu> k2 s (f s)"
    and "k = k1 + k2"
  shows "adds \<mu> k st (ebind m f)"
proof (cases m)
  case (Inl a)
  then show ?thesis using assms(1) by simp
next
  case (Inr s)
  then have "\<mu> s = \<mu> st + k1" using assms(1) by simp
  moreover obtain r where r: "f s = r" by simp
  moreover have "adds \<mu> k2 s r" using assms(2) [OF Inr] r by simp
  ultimately show ?thesis using Inr assms(3) r
    by (cases r) (simp_all add: ebind_def)
qed

lemma adds_run_calls:
  assumes "\<And>x s. x \<in> set xs \<Longrightarrow> adds \<mu> (g x) s (f x s)"
  shows "adds \<mu> (sum_list (map g xs)) st (run_calls f xs st)"
  using assms
proof (induction xs arbitrary: st)
  case Nil
  then show ?case by simp
next
  case (Cons x xs)
  show ?case
    unfolding run_calls.simps
  proof (rule adds_ebind)
    show "adds \<mu> (g x) st (f x st)" using Cons.prems by simp
    show "adds \<mu> (sum_list (map g xs)) s (run_calls f xs s)" for s
      using Cons.prems by (intro Cons.IH) simp
    show "sum_list (map g (x # xs)) = g x + sum_list (map g xs)" by simp
  qed
qed

lemma unit_cell_basic:
  assumes "unit_cell c"
  shows "getN c = int (length (pts c))" and "1 \<le> getN c" and "getW c \<noteq> 0"
    and "0 \<le> getSize c" and "getW c = real_of_int (getN c)"
proof -
  have "unit_cell c \<Longrightarrow> getN c = int (length (pts c))"
  proof (induction c rule: pts.induct)
    case (1 p s w n wk wg l r)
    then show ?case by (auto split: option.splits)
  qed
  with assms show n: "getN c = int (length (pts c))" by simp
  have "length (pts c) \<noteq> 0"
  proof (induction c rule: pts.induct)
    case (1 p s w n wk wg l r)
    then show ?case by (auto split: option.splits)
  qed
  then have "0 < length (pts c)" by simp
  with n show "1 \<le> getN c" by linarith
  show "getW c = real_of_int (getN c)" using assms by (cases c) simp
  with \<open>1 \<le> getN c\<close> show "getW c \<noteq> 0" by simp
  show "0 \<le> getSize c" using assms by (cases c) simp
qed

lemma unit_cell_leaf:
  assumes "unit_cell c" and "getLeft c = None"
  shows "getSize c = 0" and "getN c = 1"
  using assms by (cases c; simp)+

lemma unit_cell_split:
  assumes "unit_cell c" and "getSize c \<noteq> 0 \<or> getN c \<noteq> 1"
  shows "\<exists>l r. children A c = Inr (l, r)"
  using assms by (cases c) (auto simp: children_def split: option.splits)

lemma unit_cell_children:
  assumes "unit_cell c" and "children A c = Inr (l, r)"
  shows "getLeft c = Some l" and "getRight c = Some r" and "unit_cell l" and "unit_cell r"
    and "npts c = npts l + npts r" and "sep l r"
    and "set (pts l) \<subseteq> set (pts c)" and "set (pts r) \<subseteq> set (pts c)"
  using assms
  by (cases c; auto simp: children_def npts_def sep_def split: option.splits)+


lemma triples_okD:
  assumes "triples_ok prm R A M T" and "T a c e"
  shows "T a e c" and "T c a e" and "T c e a" and "T e a c" and "T e c a"
    and "unit_cell a" and "unit_cell c" and "unit_cell e"
    and "noprune111 prm R A M a c e"
proof -
  note r = assms(1) [unfolded triples_ok_def, rule_format]
  show 1: "T a e c" and 2: "T c a e" using r [OF assms(2)] by simp_all
  show 3: "T c e a" using r [OF 2] by simp
  show 4: "T e a c" using r [OF 1] by simp
  show 5: "T e c a" using r [OF 3] by simp
  show "unit_cell a" using r [OF assms(2)] by simp
  show "unit_cell c" using r [OF 2] by simp
  show "unit_cell e" using r [OF 4] by simp
  show "noprune111 prm R A M a c e" using r [OF assms(2)] by simp
qed

lemma triples_ok_child1:
  assumes ok: "triples_ok prm R A M T" and t: "T a c e" and ch: "children A' a = Inr (l, r)"
  shows "T l c e \<and> T r c e"
proof -
  from unit_cell_children(1,2) [OF triples_okD(6) [OF ok t] ch]
  show ?thesis using ok [unfolded triples_ok_def, rule_format, OF t] by simp
qed

lemma triples_ok_child2:
  assumes ok: "triples_ok prm R A M T" and t: "T a c e" and ch: "children A' c = Inr (l, r)"
  shows "T a l e \<and> T a r e"
  using triples_ok_child1 [OF ok triples_okD(2) [OF ok t] ch] triples_okD(2) [OF ok]
  by blast

lemma triples_ok_child3:
  assumes ok: "triples_ok prm R A M T" and t: "T a c e" and ch: "children A' e = Inr (l, r)"
  shows "T a c l \<and> T a c r"
  using triples_ok_child2 [OF ok triples_okD(1) [OF ok t] ch] triples_okD(1) [OF ok]
  by blast

lemma decide_split_sizes_all:
  assumes d: "decide_split P d1sq d2sq d3sq d2 s1 s2 s3 = (True, sp1, sp2, sp3, d1, d3, u, v)"
    and s: "0 \<le> s1" "0 \<le> s2" and d3: "0 \<le> d3sq"
  shows "(sp1 \<longrightarrow> 0 < s1) \<and> (sp2 \<longrightarrow> 0 < s2) \<and> (sp3 \<longrightarrow> 0 < s3) \<and> (sp1 \<or> sp2 \<or> sp3)"
proof (cases sp3)
  case False
  then show ?thesis using decide_split_sizes [OF d] by blast
next
  case True
  have e: "split3_expr P d2sq d3sq d2 s1 s3"
    using d True by (auto simp: decide_split_def Let_def split: if_splits)
  have t: "0 \<le> 0.7 * SQR s3 * d3sq" using d3 by (simp add: SQR_def)
  have sp: "sp1 = (SQR s1 * d2sq > 0.7 * SQR s3 * d3sq)" "sp2 = (SQR s2 * d2sq > 0.7 * SQR s3 * d3sq)"
    using d e by (simp_all add: decide_split_def Let_def)
  have "sp1 \<longrightarrow> s1 \<noteq> 0" "sp2 \<longrightarrow> s2 \<noteq> 0" using sp t by (auto simp: SQR_def)
  then show ?thesis using s True decide_split_sizes [OF d] by auto
qed

lemma split_calls_Inr:
  assumes u: "unit_cell c1" "unit_cell c2" "unit_cell c3"
    and z: "(sp1 \<longrightarrow> 0 < getSize c1) \<and> (sp2 \<longrightarrow> 0 < getSize c2) \<and> (sp3 \<longrightarrow> 0 < getSize c3) \<and>
            (sp1 \<or> sp2 \<or> sp3)"
  shows "\<exists>calls. split_calls A sp1 sp2 sp3 c1 c2 c3 d1sq d2sq d3sq = Inr calls"
proof -
  have c: "sp1 \<Longrightarrow> \<exists>l r. children A c1 = Inr (l, r)" "sp2 \<Longrightarrow> \<exists>l r. children A c2 = Inr (l, r)"
    "sp3 \<Longrightarrow> \<exists>l r. children A c3 = Inr (l, r)"
    using z u by (auto intro!: unit_cell_split)
  show ?thesis
  proof (cases sp3)
    case s3: True
    show ?thesis
    proof (cases sp2)
      case s2: True
      show ?thesis
      proof (cases sp1)
        case True
        with c s2 s3 show ?thesis by (auto simp: split_calls_def)
      next
        case False
        with c s2 s3 show ?thesis by (auto simp: split_calls_def)
      qed
    next
      case s2: False
      show ?thesis
      proof (cases sp1)
        case True
        with c s2 s3 show ?thesis by (auto simp: split_calls_def)
      next
        case False
        with c s2 s3 show ?thesis by (auto simp: split_calls_def)
      qed
    qed
  next
    case s3: False
    show ?thesis
    proof (cases sp2)
      case s2: True
      show ?thesis
      proof (cases sp1)
        case True
        with c s2 s3 show ?thesis by (auto simp: split_calls_def)
      next
        case False
        with c s2 s3 show ?thesis by (auto simp: split_calls_def)
      qed
    next
      case s2: False
      then have "sp1" using z s3 by simp
      with c s2 s3 show ?thesis by (auto simp: split_calls_def)
    qed
  qed
qed

lemma split_calls_count:
  fixes T :: "'p cell \<Rightarrow> 'p cell \<Rightarrow> 'p cell \<Rightarrow> bool"
  assumes ok: "triples_ok prm R A' M T" and t: "T c1 c2 c3"
    and sc: "split_calls A sp1 sp2 sp3 c1 c2 c3 d1sq d2sq d3sq = Inr calls"
  shows "(\<forall>x \<in> set calls. case x of (a1, a2, a3, y1, y2, y3) \<Rightarrow>
            T a1 a2 a3 \<and>
            (y1 = 0 \<or> y1 = d1sq \<and> a2 = c2 \<and> a3 = c3) \<and>
            (y2 = 0 \<or> y2 = d2sq \<and> a1 = c1 \<and> a3 = c3) \<and>
            (y3 = 0 \<or> y3 = d3sq \<and> a1 = c1 \<and> a2 = c2)) \<and>
         sum_list (map (\<lambda>(a1, a2, a3, y1, y2, y3). npts a1 * npts a2 * npts a3) calls) =
           npts c1 * npts c2 * npts c3"
proof -
  note u = triples_okD(6,7,8) [OF ok t]
  note k1 = triples_ok_child1 [OF ok] and k2 = triples_ok_child2 [OF ok]
    and k3 = triples_ok_child3 [OF ok]
  show ?thesis
  proof (cases sp3)
    case s3: True
    then obtain c3l c3r where c3: "children A c3 = Inr (c3l, c3r)"
      using sc by (auto simp: split_calls_def split: if_splits sum.splits)
    note n3 = unit_cell_children(5) [OF u(3) c3]
    note t3 = k3 [OF t c3]
    show ?thesis
    proof (cases sp2)
      case s2: True
      then obtain c2l c2r where c2: "children A c2 = Inr (c2l, c2r)"
        using sc s3 by (auto simp: split_calls_def split: if_splits sum.splits)
      note n2 = unit_cell_children(5) [OF u(2) c2]
      note t23 = k2 [OF t3 [THEN conjunct1] c2] k2 [OF t3 [THEN conjunct2] c2]
      show ?thesis
      proof (cases sp1)
        case True
        then obtain c1l c1r where c1: "children A c1 = Inr (c1l, c1r)"
          using sc s3 s2 by (auto simp: split_calls_def split: if_splits sum.splits)
        note n1 = unit_cell_children(5) [OF u(1) c1]
        note t123 = k1 [OF t23(1) [THEN conjunct1] c1] k1 [OF t23(1) [THEN conjunct2] c1]
          k1 [OF t23(2) [THEN conjunct1] c1] k1 [OF t23(2) [THEN conjunct2] c1]
        have "calls = [(c1l, c2l, c3l, 0, 0, 0), (c1l, c2l, c3r, 0, 0, 0),
                 (c1l, c2r, c3l, 0, 0, 0), (c1l, c2r, c3r, 0, 0, 0),
                 (c1r, c2l, c3l, 0, 0, 0), (c1r, c2l, c3r, 0, 0, 0),
                 (c1r, c2r, c3l, 0, 0, 0), (c1r, c2r, c3r, 0, 0, 0)]"
          using sc s3 s2 True c1 c2 c3 by (simp add: split_calls_def)
        then show ?thesis using t123 by (simp add: n1 n2 n3 algebra_simps)
      next
        case False
        have "calls = [(c1, c2l, c3l, 0, 0, 0), (c1, c2l, c3r, 0, 0, 0),
                 (c1, c2r, c3l, 0, 0, 0), (c1, c2r, c3r, 0, 0, 0)]"
          using sc s3 s2 False c2 c3 by (simp add: split_calls_def)
        then show ?thesis using t23 by (simp add: n2 n3 algebra_simps)
      qed
    next
      case s2: False
      show ?thesis
      proof (cases sp1)
        case True
        then obtain c1l c1r where c1: "children A c1 = Inr (c1l, c1r)"
          using sc s3 s2 by (auto simp: split_calls_def split: if_splits sum.splits)
        note n1 = unit_cell_children(5) [OF u(1) c1]
        note t13 = k1 [OF t3 [THEN conjunct1] c1] k1 [OF t3 [THEN conjunct2] c1]
        have "calls = [(c1l, c2, c3l, 0, 0, 0), (c1l, c2, c3r, 0, 0, 0),
                 (c1r, c2, c3l, 0, 0, 0), (c1r, c2, c3r, 0, 0, 0)]"
          using sc s3 s2 True c1 c3 by (simp add: split_calls_def)
        then show ?thesis using t13 by (simp add: n1 n3 algebra_simps)
      next
        case False
        have "calls = [(c1, c2, c3l, 0, 0, d3sq), (c1, c2, c3r, 0, 0, d3sq)]"
          using sc s3 s2 False c3 by (simp add: split_calls_def)
        then show ?thesis using t3 by (simp add: n3 algebra_simps)
      qed
    qed
  next
    case s3: False
    show ?thesis
    proof (cases sp2)
      case s2: True
      then obtain c2l c2r where c2: "children A c2 = Inr (c2l, c2r)"
        using sc s3 by (auto simp: split_calls_def split: if_splits sum.splits)
      note n2 = unit_cell_children(5) [OF u(2) c2]
      note t2 = k2 [OF t c2]
      show ?thesis
      proof (cases sp1)
        case True
        then obtain c1l c1r where c1: "children A c1 = Inr (c1l, c1r)"
          using sc s3 s2 by (auto simp: split_calls_def split: if_splits sum.splits)
        note n1 = unit_cell_children(5) [OF u(1) c1]
        note t12 = k1 [OF t2 [THEN conjunct1] c1] k1 [OF t2 [THEN conjunct2] c1]
        have "calls = [(c1l, c2l, c3, 0, 0, 0), (c1l, c2r, c3, 0, 0, 0),
                 (c1r, c2l, c3, 0, 0, 0), (c1r, c2r, c3, 0, 0, 0)]"
          using sc s3 s2 True c1 c2 by (simp add: split_calls_def)
        then show ?thesis using t12 by (simp add: n1 n2 algebra_simps)
      next
        case False
        have "calls = [(c1, c2l, c3, 0, d2sq, 0), (c1, c2r, c3, 0, d2sq, 0)]"
          using sc s3 s2 False c2 by (simp add: split_calls_def)
        then show ?thesis using t2 by (simp add: n2 algebra_simps)
      qed
    next
      case s2: False
      then obtain c1l c1r where c1: "children A c1 = Inr (c1l, c1r)"
        using sc s3 by (auto simp: split_calls_def split: if_splits sum.splits)
      note n1 = unit_cell_children(5) [OF u(1) c1]
      note t1 = k1 [OF t c1]
      have "calls = [(c1l, c2, c3, d1sq, 0, 0), (c1r, c2, c3, d1sq, 0, 0)]"
        using sc s3 s2 c1 by (simp add: split_calls_def)
      then show ?thesis using t1 by (simp add: n1 algebra_simps)
    qed
  qed
qed


lemma process111Sorted_count:
  fixes fin :: "('p, 's) finish" and \<mu> :: "'s \<Rightarrow> real"
  assumes IH: "\<And>a1 a2 a3 y1 y2 y3 s.
      depth a1 + depth a2 + depth a3 < n \<Longrightarrow> T a1 a2 a3 \<Longrightarrow>
      y1 = 0 \<or> y1 = centre_dsq M a2 a3 \<Longrightarrow> y2 = 0 \<or> y2 = centre_dsq M a1 a3 \<Longrightarrow>
      y3 = 0 \<or> y3 = centre_dsq M a1 a2 \<Longrightarrow>
      adds \<mu> (npts a1 * npts a2 * npts a3) s
        (process111 fin prm A M this bc132 bc213 bc231 bc312 bc321 a1 a2 a3 y1 y2 y3 s)"
    and step: "\<And>c1 c2 c3 d1 d2 d3 logr u v index st.
      0 \<le> index \<Longrightarrow> index < ntot (prm this) \<Longrightarrow>
      \<mu> (fin this c1 c2 c3 d1 d2 d3 logr u v index st) = \<mu> st + npts c1 * npts c2 * npts c3"
    and ok: "triples_ok prm R A M T" and mem: "this \<in> set R"
    and nonneg: "\<And>p q. 0 \<le> DistSq M p q 0 0"
    and n: "depth c1 + depth c2 + depth c3 = n"
    and t: "T c1 c2 c3"
    and d: "d1sq = centre_dsq M c2 c3" "d2sq = centre_dsq M c1 c3" "d3sq = centre_dsq M c1 c2"
    and sorted: "d1sq \<ge> d2sq" "d2sq \<ge> d3sq"
  shows "adds \<mu> (npts c1 * npts c2 * npts c3) st
           (process111Sorted fin prm A M this bc132 bc213 bc231 bc312 bc321
              c1 c2 c3 d1sq d2sq d3sq st)"
proof -
  note u = triples_okD(6,7,8) [OF ok t]
  have d3nn: "0 \<le> d3sq" unfolding d centre_dsq_def by (rule nonneg)
  have pass: "passes A (prm this) M c1 c2 c3 d1sq d2sq d3sq"
    using triples_okD(9) [OF ok t] sorted mem unfolding noprune111_def d by blast
  show ?thesis
  proof (cases rule: process111Sorted_cases [OF refl, where fin = fin and prm = prm and A = A
      and M = M and this = this and ?bc132.0 = bc132 and ?bc213.0 = bc213 and ?bc231.0 = bc231
      and ?bc312.0 = bc312 and ?bc321.0 = bc321 and ?c1.0 = c1 and ?c2.0 = c2 and ?c3.0 = c3
      and ?d1sq.0 = d1sq and ?d2sq.0 = d2sq and ?d3sq.0 = d3sq and st = st])
    case 1
    then show ?thesis using sorted by simp
  next
    case (2 d2)
    then show ?thesis using pass by (simp add: passes_def)
  next
    case (3 d2 sp1 sp2 sp3 d1 d3 u v)
    from pass 3(2,3)
    obtain x where c: "commit_bins A (prm this) (CCW M (getPos c1) (getPos c2) (getPos c3))
                         d1 d2 d3 u v = Inr (Some x)"
      by (auto simp: passes_def split: sum.splits option.splits)
    obtain logr v' index where x: "x = (logr, v', index)" by (cases x) auto
    from commit_spec_Some [OF commit_bins_Some [OF c [unfolded x]]]
    have "0 \<le> index" "index < ntot (prm this)" by simp_all
    from step [OF this]
    show ?thesis using 3(4) c x by simp
  next
    case (4 d2 sp1 sp2 sp3 d1 d3 u v)
    from decide_split_sizes_all [OF 4(3) unit_cell_basic(4) [OF u(1)]
        unit_cell_basic(4) [OF u(2)] d3nn] 4(4)
    show ?thesis by blast
  next
    case (5 d2 sp1 sp2 sp3 d1 d3 u v e)
    from split_calls_Inr [OF u decide_split_sizes_all [OF 5(3) unit_cell_basic(4) [OF u(1)]
        unit_cell_basic(4) [OF u(2)] d3nn], of A d1sq d2sq d3sq] 5(4)
    show ?thesis by simp
  next
    case (6 d2 sp1 sp2 sp3 d1 d3 u v calls)
    note sc = split_calls_count [OF ok t 6(5)]
    have "adds \<mu> (sum_list (map (\<lambda>(a1, a2, a3, y1, y2, y3). npts a1 * npts a2 * npts a3) calls))
            st (run_calls
               (\<lambda>(a1, a2, a3, x1, x2, x3) s.
                  process111 fin prm A M this bc132 bc213 bc231 bc312 bc321 a1 a2 a3 x1 x2 x3 s)
               calls st)"
    proof (rule adds_run_calls)
      fix x s assume x: "x \<in> set calls"
      obtain a1 a2 a3 y1 y2 y3 where xe: "x = (a1, a2, a3, y1, y2, y3)"
        by (metis surj_pair)
      from split_calls_depth [OF 6(5) x [unfolded xe]]
      have dep: "depth a1 + depth a2 + depth a3 < n" unfolding n .
      from sc [THEN conjunct1, rule_format, OF x] xe
      have p: "T a1 a2 a3" "y1 = 0 \<or> y1 = d1sq \<and> a2 = c2 \<and> a3 = c3"
        "y2 = 0 \<or> y2 = d2sq \<and> a1 = c1 \<and> a3 = c3" "y3 = 0 \<or> y3 = d3sq \<and> a1 = c1 \<and> a2 = c2"
        by simp_all
      have y: "y1 = 0 \<or> y1 = centre_dsq M a2 a3" "y2 = 0 \<or> y2 = centre_dsq M a1 a3"
        "y3 = 0 \<or> y3 = centre_dsq M a1 a2"
        using p(2,3,4) d by auto
      from IH [OF dep p(1) y]
      show "adds \<mu> ((case x of (a1, a2, a3, y1, y2, y3) \<Rightarrow> npts a1 * npts a2 * npts a3)) s
              ((case x of (a1, a2, a3, x1, x2, x3) \<Rightarrow>
              \<lambda>s. process111 fin prm A M this bc132 bc213 bc231 bc312 bc321 a1 a2 a3 x1 x2 x3 s) s)"
        by (simp add: xe)
    qed
    then show ?thesis using 6(6) sc by simp
  qed
qed


lemma process111_count:
  fixes fin :: "('p, 's) finish" and \<mu> :: "'s \<Rightarrow> real"
  assumes step: "\<And>this c1 c2 c3 d1 d2 d3 logr u v index st.
      this \<in> set R \<Longrightarrow> 0 \<le> index \<Longrightarrow> index < ntot (prm this) \<Longrightarrow>
      \<mu> (fin this c1 c2 c3 d1 d2 d3 logr u v index st) = \<mu> st + npts c1 * npts c2 * npts c3"
    and ok: "triples_ok prm R A M T"
    and nonneg: "\<And>p q. 0 \<le> DistSq M p q 0 0"
    and sym: "\<And>p q. DistSq M p q 0 0 = DistSq M q p 0 0"
  shows "T c1 c2 c3 \<Longrightarrow>
     this \<in> set R \<and> bc132 \<in> set R \<and> bc213 \<in> set R \<and> bc231 \<in> set R \<and> bc312 \<in> set R \<and>
       bc321 \<in> set R \<Longrightarrow>
     x1 = 0 \<or> x1 = centre_dsq M c2 c3 \<Longrightarrow> x2 = 0 \<or> x2 = centre_dsq M c1 c3 \<Longrightarrow>
     x3 = 0 \<or> x3 = centre_dsq M c1 c2 \<Longrightarrow>
     adds \<mu> (npts c1 * npts c2 * npts c3) st
       (process111 fin prm A M this bc132 bc213 bc231 bc312 bc321 c1 c2 c3 x1 x2 x3 st)"
proof (induction "depth c1 + depth c2 + depth c3"
    arbitrary: c1 c2 c3 x1 x2 x3 st this bc132 bc213 bc231 bc312 bc321 rule: less_induct)
  case less
  note t = less.prems(1) and refs = less.prems(2)
  note u = triples_okD(6,7,8) [OF ok t]
  note w = unit_cell_basic(3) [OF u(1)] unit_cell_basic(3) [OF u(2)] unit_cell_basic(3) [OF u(3)]
  define d1sq where "d1sq = (if x1 = 0 then DistSq M (getPos c2) (getPos c3) 0 0 else x1)"
  define d2sq where "d2sq = (if x2 = 0 then DistSq M (getPos c1) (getPos c3) 0 0 else x2)"
  define d3sq where "d3sq = (if x3 = 0 then DistSq M (getPos c1) (getPos c2) 0 0 else x3)"
  have d: "d1sq = centre_dsq M c2 c3" "d2sq = centre_dsq M c1 c3" "d3sq = centre_dsq M c1 c2"
    using less.prems(3-5) by (auto simp: d1sq_def d2sq_def d3sq_def centre_dsq_def)
  have cs: "centre_dsq M a c = centre_dsq M c a" for a c
    unfolding centre_dsq_def by (rule sym)
  have S: "\<And>th o1 o2 o3 o4 o5 a1 a2 a3 e1 e2 e3.
      depth a1 + depth a2 + depth a3 = depth c1 + depth c2 + depth c3 \<Longrightarrow>
      th \<in> set R \<and> o1 \<in> set R \<and> o2 \<in> set R \<and> o3 \<in> set R \<and> o4 \<in> set R \<and> o5 \<in> set R \<Longrightarrow>
      T a1 a2 a3 \<Longrightarrow>
      e1 = centre_dsq M a2 a3 \<Longrightarrow> e2 = centre_dsq M a1 a3 \<Longrightarrow> e3 = centre_dsq M a1 a2 \<Longrightarrow>
      e1 \<ge> e2 \<Longrightarrow> e2 \<ge> e3 \<Longrightarrow>
      adds \<mu> (npts a1 * npts a2 * npts a3) st
        (process111Sorted fin prm A M th o1 o2 o3 o4 o5 a1 a2 a3 e1 e2 e3 st)"
  proof -
    fix th o1 o2 o3 o4 o5 a1 a2 a3 e1 e2 e3
    assume n: "depth a1 + depth a2 + depth a3 = depth c1 + depth c2 + depth c3"
      and r: "th \<in> set R \<and> o1 \<in> set R \<and> o2 \<in> set R \<and> o3 \<in> set R \<and> o4 \<in> set R \<and> o5 \<in> set R"
      and t': "T a1 a2 a3"
      and e: "e1 = centre_dsq M a2 a3" "e2 = centre_dsq M a1 a3" "e3 = centre_dsq M a1 a2"
      and so: "e1 \<ge> e2" "e2 \<ge> e3"
    show "adds \<mu> (npts a1 * npts a2 * npts a3) st
        (process111Sorted fin prm A M th o1 o2 o3 o4 o5 a1 a2 a3 e1 e2 e3 st)"
    proof (rule process111Sorted_count [where T = T and R = R and M = M
          and n = "depth c1 + depth c2 + depth c3", OF _ _ ok _ nonneg n t' e so])
      show "th \<in> set R" using r by simp
      show "\<mu> (fin th c1 c2 c3 d1 d2 d3 logr u v index st) = \<mu> st + npts c1 * npts c2 * npts c3"
        if "0 \<le> index" "index < ntot (prm th)" for c1 c2 c3 d1 d2 d3 logr u v index st
        using step [OF _ that] r by simp
      show "adds \<mu> (npts b1 * npts b2 * npts b3) s
              (process111 fin prm A M th o1 o2 o3 o4 o5 b1 b2 b3 y1 y2 y3 s)"
        if "depth b1 + depth b2 + depth b3 < depth c1 + depth c2 + depth c3" "T b1 b2 b3"
          "y1 = 0 \<or> y1 = centre_dsq M b2 b3" "y2 = 0 \<or> y2 = centre_dsq M b1 b3"
          "y3 = 0 \<or> y3 = centre_dsq M b1 b2" for b1 b2 b3 y1 y2 y3 s
        using less.hyps [OF that(1,2) r that(3,4,5)] .
    qed
  qed
  note p = triples_okD(1-5) [OF ok t]
  have m: "npts c1 * npts c3 * npts c2 = npts c1 * npts c2 * npts c3"
    "npts c3 * npts c1 * npts c2 = npts c1 * npts c2 * npts c3"
    "npts c2 * npts c1 * npts c3 = npts c1 * npts c2 * npts c3"
    "npts c2 * npts c3 * npts c1 = npts c1 * npts c2 * npts c3"
    "npts c3 * npts c2 * npts c1 = npts c1 * npts c2 * npts c3"
    by simp_all
  show ?case
    unfolding process111_branches [OF w d1sq_def d2sq_def d3sq_def]
  proof (cases "d1sq > d2sq")
    case a: True
    show "adds \<mu> (npts c1 * npts c2 * npts c3) st
     (if d2sq < d1sq
      then if d3sq < d2sq
           then process111Sorted fin prm A M this bc132 bc213 bc231 bc312 bc321 c1 c2 c3 d1sq
                 d2sq d3sq st
           else if d3sq < d1sq
                then process111Sorted fin prm A M bc132 this bc312 bc321 bc213 bc231 c1 c3 c2
                      d1sq d3sq d2sq st
                else process111Sorted fin prm A M bc312 bc321 bc132 this bc231 bc213 c3 c1 c2
                      d3sq d1sq d2sq st
      else if d3sq < d1sq
           then process111Sorted fin prm A M bc213 bc231 this bc132 bc321 bc312 c2 c1 c3 d2sq
                 d1sq d3sq st
           else if d3sq < d2sq
                then process111Sorted fin prm A M bc231 bc213 bc321 bc312 this bc132 c2 c3 c1
                      d2sq d3sq d1sq st
                else process111Sorted fin prm A M bc321 bc312 bc231 bc213 bc132 this c3 c2 c1
                      d3sq d2sq d1sq st)"
    proof (cases "d2sq > d3sq")
      case True
      show ?thesis using a True refs d t by (simp add: S)
    next
      case b: False
      show ?thesis
      proof (cases "d1sq > d3sq")
        case True
        have "adds \<mu> (npts c1 * npts c3 * npts c2) st
          (process111Sorted fin prm A M bc132 this bc312 bc321 bc213 bc231 c1 c3 c2
                      d1sq d3sq d2sq st)"
          using a b True refs d p by (intro S) (simp_all add: cs)
        then show ?thesis using a b True by (simp add: m)
      next
        case False
        have "adds \<mu> (npts c3 * npts c1 * npts c2) st
          (process111Sorted fin prm A M bc312 bc321 bc132 this bc231 bc213 c3 c1 c2
                      d3sq d1sq d2sq st)"
          using a b False refs d p by (intro S) (simp_all add: cs)
        then show ?thesis using a b False by (simp add: m)
      qed
    qed
  next
    case a: False
    show "adds \<mu> (npts c1 * npts c2 * npts c3) st
     (if d2sq < d1sq
      then if d3sq < d2sq
           then process111Sorted fin prm A M this bc132 bc213 bc231 bc312 bc321 c1 c2 c3 d1sq
                 d2sq d3sq st
           else if d3sq < d1sq
                then process111Sorted fin prm A M bc132 this bc312 bc321 bc213 bc231 c1 c3 c2
                      d1sq d3sq d2sq st
                else process111Sorted fin prm A M bc312 bc321 bc132 this bc231 bc213 c3 c1 c2
                      d3sq d1sq d2sq st
      else if d3sq < d1sq
           then process111Sorted fin prm A M bc213 bc231 this bc132 bc321 bc312 c2 c1 c3 d2sq
                 d1sq d3sq st
           else if d3sq < d2sq
                then process111Sorted fin prm A M bc231 bc213 bc321 bc312 this bc132 c2 c3 c1
                      d2sq d3sq d1sq st
                else process111Sorted fin prm A M bc321 bc312 bc231 bc213 bc132 this c3 c2 c1
                      d3sq d2sq d1sq st)"
    proof (cases "d1sq > d3sq")
      case True
      have "adds \<mu> (npts c2 * npts c1 * npts c3) st
          (process111Sorted fin prm A M bc213 bc231 this bc132 bc321 bc312 c2 c1 c3 d2sq
                 d1sq d3sq st)"
        using a True refs d p by (intro S) (simp_all add: cs)
      then show ?thesis using a True by (simp add: m)
    next
      case b: False
      show ?thesis
      proof (cases "d2sq > d3sq")
        case True
        have "adds \<mu> (npts c2 * npts c3 * npts c1) st
          (process111Sorted fin prm A M bc231 bc213 bc321 bc312 this bc132 c2 c3 c1
                      d2sq d3sq d1sq st)"
          using a b True refs d p by (intro S) (simp_all add: cs)
        then show ?thesis using a b True by (simp add: m)
      next
        case False
        have "adds \<mu> (npts c3 * npts c2 * npts c1) st
          (process111Sorted fin prm A M bc321 bc312 bc231 bc213 bc132 this c3 c2 c1
                      d3sq d2sq d1sq st)"
          using a b False refs d p by (intro S) (simp_all add: cs)
        then show ?thesis using a b False by (simp add: m)
      qed
    qed
  qed
qed


lemma choose2_add: "choose2 (x + y) = choose2 x + choose2 y + x * y"
  by (simp add: choose2_def field_simps)

lemma choose3_add: "choose3 (x + y) = choose3 x + choose3 y + x * choose2 y + y * choose2 x"
  by (simp add: choose3_def choose2_def field_simps)

lemma choose2_1 [simp]: "choose2 1 = 0" and choose3_1 [simp]: "choose3 1 = 0"
  and choose3_2 [simp]: "choose3 2 = 0"
  by (simp_all add: choose2_def choose3_def)

lemma process12_count:
  fixes fin :: "('p, 's) finish" and \<mu> :: "'s \<Rightarrow> real"
  assumes step: "\<And>this c1 c2 c3 d1 d2 d3 logr u v index st.
      this \<in> set R \<Longrightarrow> 0 \<le> index \<Longrightarrow> index < ntot (prm this) \<Longrightarrow>
      \<mu> (fin this c1 c2 c3 d1 d2 d3 logr u v index st) = \<mu> st + npts c1 * npts c2 * npts c3"
    and ok: "triples_ok prm R A M T" and ok2: "pairs_ok prm R M T P2"
    and nonneg: "\<And>p q. 0 \<le> DistSq M p q 0 0"
    and sym: "\<And>p q. DistSq M p q 0 0 = DistSq M q p 0 0"
    and refs: "this \<in> set R \<and> bc212 \<in> set R \<and> bc221 \<in> set R"
  shows "P2 c1 c2 \<Longrightarrow>
     adds \<mu> (npts c1 * choose2 (npts c2)) st
       (process12 fin prm A M this bc212 bc221 c1 c2 st)"
proof (induction "depth c2" arbitrary: c2 st rule: less_induct)
  case less
  note p = less.prems
  note r = ok2 [unfolded pairs_ok_def, rule_format, OF p]
  have u: "unit_cell c1" "unit_cell c2" and np: "noprune12 prm R M c1 c2"
    using r by simp_all
  show ?case
  proof (cases "returns12 (prm this) M c1 c2")
    case True
    then have "\<not> 2 \<le> getN c2" using np refs by (auto simp: noprune12_def)
    with unit_cell_basic(2) [OF u(2)] have "getN c2 = 1" by simp
    then show ?thesis using True by (simp add: process12_unfold npts_def)
  next
    case False
    then have "getSize c2 \<noteq> 0" by (auto simp: returns12_def Let_def)
    then obtain l r where ch: "children A c2 = Inr (l, r)"
      using unit_cell_split [OF u(2), of A] by blast
    note k = unit_cell_children [OF u(2) ch]
    have c: "P2 c1 l" "P2 c1 r" "T c1 l r" using r k(1,2) by simp_all
    from children_depth [OF ch] have d: "depth l < depth c2" "depth r < depth c2" by simp_all
    have "adds \<mu> (npts c1 * choose2 (npts c2)) st
            (ebind (process12 fin prm A M this bc212 bc221 c1 l st) (\<lambda>st.
             ebind (process12 fin prm A M this bc212 bc221 c1 r st) (\<lambda>st.
             process111 fin prm A M this this bc212 bc221 bc212 bc221 c1 l r 0 0 0 st)))"
    proof (rule adds_ebind)
      show "adds \<mu> (npts c1 * choose2 (npts l)) st
              (process12 fin prm A M this bc212 bc221 c1 l st)"
        by (rule less.hyps [OF d(1) c(1)])
      show "adds \<mu> (npts c1 * choose2 (npts r) + npts c1 * npts l * npts r) s
              (ebind (process12 fin prm A M this bc212 bc221 c1 r s) (\<lambda>st.
               process111 fin prm A M this this bc212 bc221 bc212 bc221 c1 l r 0 0 0 st))" for s
      proof (rule adds_ebind)
        show "adds \<mu> (npts c1 * choose2 (npts r)) s
              (process12 fin prm A M this bc212 bc221 c1 r s)"
          by (rule less.hyps [OF d(2) c(2)])
        show "adds \<mu> (npts c1 * npts l * npts r) s'
                (process111 fin prm A M this this bc212 bc221 bc212 bc221 c1 l r 0 0 0 s')" for s'
          using refs
          by (intro process111_count [where T = T and R = R and M = M, OF step ok nonneg sym c(3)])
             simp_all
      qed simp
      show "npts c1 * choose2 (npts c2) =
            npts c1 * choose2 (npts l) +
            (npts c1 * choose2 (npts r) + npts c1 * npts l * npts r)"
        by (simp add: k(5) choose2_add algebra_simps)
    qed
    then show ?thesis using False ch by (simp add: process12_unfold)
  qed
qed

lemma process3_count:
  fixes fin :: "('p, 's) finish" and \<mu> :: "'s \<Rightarrow> real"
  assumes step: "\<And>this c1 c2 c3 d1 d2 d3 logr u v index st.
      this \<in> set R \<Longrightarrow> 0 \<le> index \<Longrightarrow> index < ntot (prm this) \<Longrightarrow>
      \<mu> (fin this c1 c2 c3 d1 d2 d3 logr u v index st) = \<mu> st + npts c1 * npts c2 * npts c3"
    and ok: "triples_ok prm R A M T" and ok2: "pairs_ok prm R M T P2"
    and ok1: "cells_ok prm R P2 P1"
    and nonneg: "\<And>p q. 0 \<le> DistSq M p q 0 0"
    and sym: "\<And>p q. DistSq M p q 0 0 = DistSq M q p 0 0"
    and refs: "this \<in> set R"
    and half: "0 < halfminsep (prm this)"
  shows "P1 c \<Longrightarrow> adds \<mu> (choose3 (npts c)) st (process3 fin prm A M this c st)"
proof (induction "depth c" arbitrary: c st rule: less_induct)
  case less
  note p = less.prems
  note r = ok1 [unfolded cells_ok_def, rule_format, OF p]
  have u: "unit_cell c" and np: "noprune3 prm R c" using r by simp_all
  show ?case
  proof (cases "returns3 (prm this) c")
    case True
    then have "\<not> 3 \<le> getN c" using np refs by (auto simp: noprune3_def)
    with unit_cell_basic(2) [OF u] have "getN c = 1 \<or> getN c = 2" by auto
    then show ?thesis using True by (auto simp: process3_unfold npts_def)
  next
    case False
    then have "getSize c \<noteq> 0" using half unit_cell_basic(3) [OF u]
      by (auto simp: returns3_def)
    then obtain l r where ch: "children A c = Inr (l, r)"
      using unit_cell_split [OF u, of A] by blast
    note k = unit_cell_children [OF u ch]
    have c: "P1 l" "P1 r" "P2 l r" "P2 r l" using r k(1,2) by simp_all
    from children_depth [OF ch] have d: "depth l < depth c" "depth r < depth c" by simp_all
    note q = process12_count [where T = T and R = R and M = M and ?P2.0 = P2 and this = this
        and ?bc212.0 = this and ?bc221.0 = this, OF step ok ok2 nonneg sym]
    have "adds \<mu> (choose3 (npts c)) st
            (ebind (process3 fin prm A M this l st) (\<lambda>st.
             ebind (process3 fin prm A M this r st) (\<lambda>st.
             ebind (process12 fin prm A M this this this l r st) (\<lambda>st.
             process12 fin prm A M this this this r l st))))"
    proof (rule adds_ebind)
      show "adds \<mu> (choose3 (npts l)) st (process3 fin prm A M this l st)"
        by (rule less.hyps [OF d(1) c(1)])
      show "adds \<mu> (choose3 (npts r) + (npts l * choose2 (npts r) + npts r * choose2 (npts l))) s
              (ebind (process3 fin prm A M this r s) (\<lambda>st.
               ebind (process12 fin prm A M this this this l r st) (\<lambda>st.
               process12 fin prm A M this this this r l st)))" for s
      proof (rule adds_ebind)
        show "adds \<mu> (choose3 (npts r)) s (process3 fin prm A M this r s)"
          by (rule less.hyps [OF d(2) c(2)])
        show "adds \<mu> (npts l * choose2 (npts r) + npts r * choose2 (npts l)) s'
                (ebind (process12 fin prm A M this this this l r s') (\<lambda>st.
                 process12 fin prm A M this this this r l st))" for s'
        proof (rule adds_ebind)
          show "adds \<mu> (npts l * choose2 (npts r)) s'
                  (process12 fin prm A M this this this l r s')"
            using refs c(3) by (intro q) simp_all
          show "adds \<mu> (npts r * choose2 (npts l)) s''
                  (process12 fin prm A M this this this r l s'')" for s''
            using refs c(4) by (intro q) simp_all
        qed simp
      qed simp
      show "choose3 (npts c) = choose3 (npts l) +
         (choose3 (npts r) + (npts l * choose2 (npts r) + npts r * choose2 (npts l)))"
        by (simp add: k(5) choose3_add)
    qed
    then show ?thesis using False ch by (simp add: process3_unfold)
  qed
qed

lemma subcells_self: "c \<in> set (subcells c)"
  by (cases c) simp

lemma subcells_trans:
  "x \<in> set (subcells c) \<Longrightarrow> y \<in> set (subcells x) \<Longrightarrow> y \<in> set (subcells c)"
proof (induction c rule: subcells.induct)
  case (1 p s w n wk wg l r)
  then show ?case by (auto split: option.splits)
qed

lemma subcells_children:
  assumes "x \<in> set (subcells c)" and "getLeft x = Some l \<and> getRight x = Some r"
  shows "l \<in> set (subcells c) \<and> r \<in> set (subcells c)"
proof -
  have "l \<in> set (subcells x)" "r \<in> set (subcells x)"
    using assms(2) by (cases x; simp add: subcells_self)+
  with assms(1) show ?thesis by (blast intro: subcells_trans)
qed

lemma subcells_unit:
  "unit_cell c \<Longrightarrow> x \<in> set (subcells c) \<Longrightarrow> unit_cell x \<and> set (pts x) \<subseteq> set (pts c)"
proof (induction c rule: subcells.induct)
  case (1 p s w n wk wg l r)
  then show ?case by (auto split: option.splits)
qed

lemma closed_field_cells:
  assumes "\<forall>c \<in> set f. unit_cell c"
  shows "closed_cells (set (field_cells f))"
  using assms unfolding closed_cells_def field_cells_def
  by (auto dest: subcells_unit subcells_children)

lemma field_cells_top: "c \<in> set f \<Longrightarrow> c \<in> set (field_cells f)"
  by (auto simp: field_cells_def intro: subcells_self)

lemma field_cells_pts:
  assumes "\<forall>c \<in> set f. unit_cell c" and "x \<in> set (field_cells f)"
  shows "set (pts x) \<subseteq> set (field_pts f)"
proof -
  from assms(2) obtain c where c: "c \<in> set f" "x \<in> set (subcells c)"
    by (auto simp: field_cells_def)
  from subcells_unit [OF _ c(2)] assms(1) c(1) have "set (pts x) \<subseteq> set (pts c)" by blast
  moreover have "set (pts c) \<subseteq> set (field_pts f)" using c(1) by (auto simp: field_pts_def)
  ultimately show ?thesis by blast
qed

lemma sep_sym: "sep a c \<Longrightarrow> sep c a"
  by (auto simp: sep_def)

lemma sep_child:
  assumes "unit_cell a" and "getLeft a = Some l \<and> getRight a = Some r"
  shows "sep l r" and "sep a c \<Longrightarrow> sep l c \<and> sep r c"
  using assms by (cases a; auto simp: sep_def)+

lemma closed_cellsD:
  assumes "closed_cells S" and "a \<in> S"
  shows "unit_cell a" and "getLeft a = Some l \<and> getRight a = Some r \<Longrightarrow> l \<in> S \<and> r \<in> S"
  using assms unfolding closed_cells_def by blast+

lemma triple_of_perm:
  assumes "triple_of S1 S2 S3 a c e"
  shows "triple_of S1 S2 S3 a e c" and "triple_of S1 S2 S3 c a e"
proof -
  from assms have s: "sep a c" "sep a e" "sep c e" by (simp_all add: triple_of_def sep3_def)
  note s' = s(1) [THEN sep_sym] s(2) [THEN sep_sym] s(3) [THEN sep_sym]
  have m: "a \<in> S1 \<and> c \<in> S2 \<and> e \<in> S3 \<or> a \<in> S1 \<and> e \<in> S2 \<and> c \<in> S3 \<or>
       c \<in> S1 \<and> a \<in> S2 \<and> e \<in> S3 \<or> c \<in> S1 \<and> e \<in> S2 \<and> a \<in> S3 \<or>
       e \<in> S1 \<and> a \<in> S2 \<and> c \<in> S3 \<or> e \<in> S1 \<and> c \<in> S2 \<and> a \<in> S3"
    using assms by (simp add: triple_of_def)
  show "triple_of S1 S2 S3 a e c" unfolding triple_of_def sep3_def using s s' m by blast
  show "triple_of S1 S2 S3 c a e" unfolding triple_of_def sep3_def using s s' m by blast
qed

lemma triple_of_unit:
  assumes c: "closed_cells S1" "closed_cells S2" "closed_cells S3"
    and t: "triple_of S1 S2 S3 a c e"
  shows "unit_cell a"
proof -
  from t have "a \<in> S1 \<or> a \<in> S2 \<or> a \<in> S3" unfolding triple_of_def by blast
  then show ?thesis using closed_cellsD(1) c by blast
qed

lemma triple_of_child:
  assumes c: "closed_cells S1" "closed_cells S2" "closed_cells S3"
    and t: "triple_of S1 S2 S3 a c e"
    and ch: "getLeft a = Some l \<and> getRight a = Some r"
  shows "triple_of S1 S2 S3 l c e" and "triple_of S1 S2 S3 r c e"
proof -
  note u = triple_of_unit [OF c t]
  from t have s: "sep a c" "sep a e" "sep c e" by (simp_all add: triple_of_def sep3_def)
  note sl = sep_child(2) [OF u ch s(1)] sep_child(2) [OF u ch s(2)]
  have m1: "a \<in> S1 \<Longrightarrow> l \<in> S1 \<and> r \<in> S1" and m2: "a \<in> S2 \<Longrightarrow> l \<in> S2 \<and> r \<in> S2"
    and m3: "a \<in> S3 \<Longrightarrow> l \<in> S3 \<and> r \<in> S3"
    using closed_cellsD(2) [OF c(1) _ ch] closed_cellsD(2) [OF c(2) _ ch]
      closed_cellsD(2) [OF c(3) _ ch] by blast+
  have m: "a \<in> S1 \<and> c \<in> S2 \<and> e \<in> S3 \<or> a \<in> S1 \<and> e \<in> S2 \<and> c \<in> S3 \<or>
       c \<in> S1 \<and> a \<in> S2 \<and> e \<in> S3 \<or> c \<in> S1 \<and> e \<in> S2 \<and> a \<in> S3 \<or>
       e \<in> S1 \<and> a \<in> S2 \<and> c \<in> S3 \<or> e \<in> S1 \<and> c \<in> S2 \<and> a \<in> S3"
    using t by (simp add: triple_of_def)
  show "triple_of S1 S2 S3 l c e" unfolding triple_of_def sep3_def
    using s(3) sl m m1 m2 m3 by blast
  show "triple_of S1 S2 S3 r c e" unfolding triple_of_def sep3_def
    using s(3) sl m m1 m2 m3 by blast
qed

lemma triples_ok_fields:
  assumes c: "closed_cells S1" "closed_cells S2" "closed_cells S3"
    and np: "\<forall>a c e. triple_of S1 S2 S3 a c e \<longrightarrow> noprune111 prm R A M a c e"
  shows "triples_ok prm R A M (triple_of S1 S2 S3)"
  unfolding triples_ok_def
proof (intro allI impI conjI)
  fix a c e l r
  assume t: "triple_of S1 S2 S3 a c e"
  show "triple_of S1 S2 S3 a e c" "triple_of S1 S2 S3 c a e"
    using triple_of_perm [OF t] by simp_all
  show "unit_cell a" by (rule triple_of_unit [OF c t])
  show "noprune111 prm R A M a c e" using np t by blast
  assume ch: "getLeft a = Some l \<and> getRight a = Some r"
  show "triple_of S1 S2 S3 l c e" "triple_of S1 S2 S3 r c e"
    using triple_of_child [OF c t ch] by simp_all
qed

lemma pairs_ok_fields:
  assumes c: "closed_cells S1" "closed_cells S2"
    and np: "\<forall>a c. pair_of S1 S2 a c \<longrightarrow> noprune12 prm R M a c"
  shows "pairs_ok prm R M (triple_of S1 S2 S2) (pair_of S1 S2)"
  unfolding pairs_ok_def
proof (intro allI impI conjI)
  fix a c l r
  assume t: "pair_of S1 S2 a c"
  then have m: "a \<in> S1" "c \<in> S2" "sep a c" by (simp_all add: pair_of_def)
  show "unit_cell a" using closed_cellsD(1) [OF c(1) m(1)] .
  show u: "unit_cell c" using closed_cellsD(1) [OF c(2) m(2)] .
  show "noprune12 prm R M a c" using np t by blast
  assume ch: "getLeft c = Some l \<and> getRight c = Some r"
  note s = sep_child(1) [OF u ch] sep_child(2) [OF u ch m(3) [THEN sep_sym]]
  note k = closed_cellsD(2) [OF c(2) m(2) ch]
  show "pair_of S1 S2 a l" "pair_of S1 S2 a r"
    using m(1) k s(2) sep_sym unfolding pair_of_def by blast+
  show "triple_of S1 S2 S2 a l r"
    using m(1) k s sep_sym unfolding triple_of_def sep3_def by blast
qed

lemma cells_ok_fields:
  assumes c: "closed_cells S"
    and np: "\<forall>a \<in> S. noprune3 prm R a"
  shows "cells_ok prm R (pair_of S S) (\<lambda>a. a \<in> S)"
  unfolding cells_ok_def
proof (intro allI impI conjI)
  fix a l r
  assume t: "a \<in> S"
  show u: "unit_cell a" using closed_cellsD(1) [OF c t] .
  show "noprune3 prm R a" using np t by blast
  assume ch: "getLeft a = Some l \<and> getRight a = Some r"
  note s = sep_child(1) [OF u ch]
  show m: "l \<in> S" "r \<in> S" using closed_cellsD(2) [OF c t ch] by simp_all
  show "pair_of S S l r" "pair_of S S r l" using m s sep_sym unfolding pair_of_def by blast+
qed


lemma field_pts_Cons [simp]: "field_pts (c # cs) = pts c @ field_pts cs"
  and field_pts_Nil [simp]: "field_pts [] = []"
  by (simp_all add: field_pts_def)

lemma sep_distinct:
  assumes "distinct (pts a @ field_pts cs)" and "c \<in> set cs"
  shows "sep a c"
proof -
  have "set (pts c) \<subseteq> set (field_pts cs)" using assms(2) by (auto simp: field_pts_def)
  then show ?thesis using assms(1) unfolding sep_def by auto
qed

lemma sep_distinct2:
  assumes "distinct (field_pts f @ field_pts g)" and "a \<in> set f" and "c \<in> set g"
  shows "sep a c"
proof -
  have "set (pts a) \<subseteq> set (field_pts f)" "set (pts c) \<subseteq> set (field_pts g)"
    using assms(2,3) by (auto simp: field_pts_def)
  then show ?thesis using assms(1) unfolding sep_def by auto
qed

lemma auto_loop_k_count:
  fixes fin :: "('p, 's) finish" and \<mu> :: "'s \<Rightarrow> real"
  assumes step: "\<And>this c1 c2 c3 d1 d2 d3 logr u v index st.
      this \<in> set R \<Longrightarrow> 0 \<le> index \<Longrightarrow> index < ntot (prm this) \<Longrightarrow>
      \<mu> (fin this c1 c2 c3 d1 d2 d3 logr u v index st) = \<mu> st + npts c1 * npts c2 * npts c3"
    and ok: "triples_ok prm R A M T"
    and nonneg: "\<And>p q. 0 \<le> DistSq M p q 0 0"
    and sym: "\<And>p q. DistSq M p q 0 0 = DistSq M q p 0 0"
    and refs: "bc3 \<in> set R"
  shows "\<forall>c3 \<in> set cs. T c1 c2 c3 \<Longrightarrow>
     adds \<mu> (npts c1 * npts c2 * sum_list (map npts cs)) st
       (auto_loop_k fin prm A M bc3 c1 c2 cs st)"
proof (induction cs arbitrary: st)
  case Nil
  then show ?case by simp
next
  case (Cons c3 cs)
  show ?case unfolding auto_loop_k.simps
  proof (rule adds_ebind)
    show "adds \<mu> (npts c1 * npts c2 * npts c3) st
            (process111 fin prm A M bc3 bc3 bc3 bc3 bc3 bc3 c1 c2 c3 0 0 0 st)"
      using refs Cons.prems
      by (intro process111_count [where T = T and R = R and M = M, OF step ok nonneg sym])
         simp_all
    show "adds \<mu> (npts c1 * npts c2 * sum_list (map npts cs)) s
            (auto_loop_k fin prm A M bc3 c1 c2 cs s)" for s
      using Cons.prems by (intro Cons.IH) simp
    show "npts c1 * npts c2 * sum_list (map npts (c3 # cs)) =
          npts c1 * npts c2 * npts c3 + npts c1 * npts c2 * sum_list (map npts cs)"
      by (simp add: algebra_simps)
  qed
qed

lemma auto_loop_j_count:
  fixes fin :: "('p, 's) finish" and \<mu> :: "'s \<Rightarrow> real"
  assumes step: "\<And>this c1 c2 c3 d1 d2 d3 logr u v index st.
      this \<in> set R \<Longrightarrow> 0 \<le> index \<Longrightarrow> index < ntot (prm this) \<Longrightarrow>
      \<mu> (fin this c1 c2 c3 d1 d2 d3 logr u v index st) = \<mu> st + npts c1 * npts c2 * npts c3"
    and ok: "triples_ok prm R A M (triple_of S S S)"
    and ok2: "pairs_ok prm R M (triple_of S S S) (pair_of S S)"
    and nonneg: "\<And>p q. 0 \<le> DistSq M p q 0 0"
    and sym: "\<And>p q. DistSq M p q 0 0 = DistSq M q p 0 0"
    and refs: "bc3 \<in> set R"
    and c1: "c1 \<in> S"
  shows "set cs \<subseteq> S \<Longrightarrow> distinct (pts c1 @ field_pts cs) \<Longrightarrow>
     adds \<mu> (npts c1 * choose2 (sum_list (map npts cs)) +
             sum_list (map npts cs) * choose2 (npts c1)) st
       (auto_loop_j fin prm A M bc3 c1 cs st)"
proof (induction cs arbitrary: st)
  case Nil
  then show ?case by (simp add: choose2_def)
next
  case (Cons c2 cs)
  have c2: "c2 \<in> S" and cs: "set cs \<subseteq> S" using Cons.prems(1) by simp_all
  have s12: "sep c1 c2" using sep_distinct [OF Cons.prems(2), of c2] by simp
  have d1: "distinct (pts c1 @ field_pts cs)" and d2: "distinct (pts c2 @ field_pts cs)"
    using Cons.prems(2) by auto
  have p: "pair_of S S c1 c2" "pair_of S S c2 c1"
    using c1 c2 s12 sep_sym [OF s12] by (simp_all add: pair_of_def)
  have t: "\<forall>c3 \<in> set cs. triple_of S S S c1 c2 c3"
  proof
    fix c3 assume m: "c3 \<in> set cs"
    from sep_distinct [OF d1 m] sep_distinct [OF d2 m] s12 c1 c2 cs m
    show "triple_of S S S c1 c2 c3" unfolding triple_of_def sep3_def by blast
  qed
  note q = process12_count [where T = "triple_of S S S" and R = R and M = M
      and ?P2.0 = "pair_of S S" and this = bc3 and ?bc212.0 = bc3 and ?bc221.0 = bc3,
      OF step ok ok2 nonneg sym]
  define n1 where "n1 = npts c1"
  define n2 where "n2 = npts c2"
  define m where "m = sum_list (map npts cs)"
  show ?case unfolding auto_loop_j.simps
  proof (rule adds_ebind)
    show "adds \<mu> (n1 * choose2 n2) st (process12 fin prm A M bc3 bc3 bc3 c1 c2 st)"
      unfolding n1_def n2_def using refs p(1) by (intro q) simp_all
    show "adds \<mu> (n2 * choose2 n1 + (n1 * n2 * m + (n1 * choose2 m + m * choose2 n1))) s
            (ebind (process12 fin prm A M bc3 bc3 bc3 c2 c1 s) (\<lambda>st.
             ebind (auto_loop_k fin prm A M bc3 c1 c2 cs st)
               (auto_loop_j fin prm A M bc3 c1 cs)))" for s
    proof (rule adds_ebind)
      show "adds \<mu> (n2 * choose2 n1) s (process12 fin prm A M bc3 bc3 bc3 c2 c1 s)"
        unfolding n1_def n2_def using refs p(2) by (intro q) simp_all
      show "adds \<mu> (n1 * n2 * m + (n1 * choose2 m + m * choose2 n1)) s'
              (ebind (auto_loop_k fin prm A M bc3 c1 c2 cs s')
                 (auto_loop_j fin prm A M bc3 c1 cs))" for s'
      proof (rule adds_ebind)
        show "adds \<mu> (n1 * n2 * m) s' (auto_loop_k fin prm A M bc3 c1 c2 cs s')"
          unfolding n1_def n2_def m_def
          by (rule auto_loop_k_count [where T = "triple_of S S S" and R = R and M = M,
                OF step ok nonneg sym refs t])
        show "adds \<mu> (n1 * choose2 m + m * choose2 n1) s''
                (auto_loop_j fin prm A M bc3 c1 cs s'')" for s''
          unfolding n1_def m_def by (rule Cons.IH [OF cs d1])
      qed simp
    qed simp
    show "npts c1 * choose2 (sum_list (map npts (c2 # cs))) +
          sum_list (map npts (c2 # cs)) * choose2 (npts c1) =
          n1 * choose2 n2 +
          (n2 * choose2 n1 + (n1 * n2 * m + (n1 * choose2 m + m * choose2 n1)))"
      by (simp add: n1_def n2_def m_def choose2_add algebra_simps)
  qed
qed

lemma auto_loop_i_count:
  fixes fin :: "('p, 's) finish" and \<mu> :: "'s \<Rightarrow> real"
  assumes step: "\<And>this c1 c2 c3 d1 d2 d3 logr u v index st.
      this \<in> set R \<Longrightarrow> 0 \<le> index \<Longrightarrow> index < ntot (prm this) \<Longrightarrow>
      \<mu> (fin this c1 c2 c3 d1 d2 d3 logr u v index st) = \<mu> st + npts c1 * npts c2 * npts c3"
    and ok: "triples_ok prm R A M (triple_of S S S)"
    and ok2: "pairs_ok prm R M (triple_of S S S) (pair_of S S)"
    and ok1: "cells_ok prm R (pair_of S S) (\<lambda>a. a \<in> S)"
    and nonneg: "\<And>p q. 0 \<le> DistSq M p q 0 0"
    and sym: "\<And>p q. DistSq M p q 0 0 = DistSq M q p 0 0"
    and refs: "bc3 \<in> set R"
    and half: "0 < halfminsep (prm bc3)"
  shows "set cs \<subseteq> S \<Longrightarrow> distinct (field_pts cs) \<Longrightarrow>
     adds \<mu> (choose3 (sum_list (map npts cs))) st (auto_loop_i fin prm A M bc3 cs st)"
proof (induction cs arbitrary: st)
  case Nil
  then show ?case by (simp add: choose3_def)
next
  case (Cons c1 cs)
  have c1: "c1 \<in> S" and cs: "set cs \<subseteq> S" using Cons.prems(1) by simp_all
  have d1: "distinct (pts c1 @ field_pts cs)" and d: "distinct (field_pts cs)"
    using Cons.prems(2) by simp_all
  define n1 where "n1 = npts c1"
  define m where "m = sum_list (map npts cs)"
  show ?case unfolding auto_loop_i.simps
  proof (rule adds_ebind)
    show "adds \<mu> (choose3 n1) st (process3 fin prm A M bc3 c1 st)"
      unfolding n1_def
      by (rule process3_count [where T = "triple_of S S S" and R = R and M = M
            and ?P2.0 = "pair_of S S" and ?P1.0 = "\<lambda>a. a \<in> S",
            OF step ok ok2 ok1 nonneg sym refs half c1])
    show "adds \<mu> ((n1 * choose2 m + m * choose2 n1) + choose3 m) s
            (ebind (auto_loop_j fin prm A M bc3 c1 cs s) (auto_loop_i fin prm A M bc3 cs))" for s
    proof (rule adds_ebind)
      show "adds \<mu> (n1 * choose2 m + m * choose2 n1) s (auto_loop_j fin prm A M bc3 c1 cs s)"
        unfolding n1_def m_def
        by (rule auto_loop_j_count [where R = R and M = M and S = S,
              OF step ok ok2 nonneg sym refs c1 cs d1])
      show "adds \<mu> (choose3 m) s' (auto_loop_i fin prm A M bc3 cs s')" for s'
        unfolding m_def by (rule Cons.IH [OF cs d])
    qed simp
    show "choose3 (sum_list (map npts (c1 # cs))) =
          choose3 n1 + ((n1 * choose2 m + m * choose2 n1) + choose3 m)"
      by (simp add: n1_def m_def choose3_add)
  qed
qed


lemma cross12_loop_k_count:
  fixes fin :: "('p, 's) finish" and \<mu> :: "'s \<Rightarrow> real"
  assumes step: "\<And>this c1 c2 c3 d1 d2 d3 logr u v index st.
      this \<in> set R \<Longrightarrow> 0 \<le> index \<Longrightarrow> index < ntot (prm this) \<Longrightarrow>
      \<mu> (fin this c1 c2 c3 d1 d2 d3 logr u v index st) = \<mu> st + npts c1 * npts c2 * npts c3"
    and ok: "triples_ok prm R A M T"
    and nonneg: "\<And>p q. 0 \<le> DistSq M p q 0 0"
    and sym: "\<And>p q. DistSq M p q 0 0 = DistSq M q p 0 0"
    and refs: "bc122 \<in> set R \<and> bc212 \<in> set R \<and> bc221 \<in> set R"
  shows "\<forall>c3 \<in> set cs. T c1 c2 c3 \<Longrightarrow>
     adds \<mu> (npts c1 * npts c2 * sum_list (map npts cs)) st
       (cross12_loop_k fin prm A M bc122 bc212 bc221 c1 c2 cs st)"
proof (induction cs arbitrary: st)
  case Nil
  then show ?case by simp
next
  case (Cons c3 cs)
  show ?case unfolding cross12_loop_k.simps
  proof (rule adds_ebind)
    show "adds \<mu> (npts c1 * npts c2 * npts c3) st
            (process111 fin prm A M bc122 bc122 bc212 bc221 bc212 bc221 c1 c2 c3 0 0 0 st)"
      using refs Cons.prems
      by (intro process111_count [where T = T and R = R and M = M, OF step ok nonneg sym])
         simp_all
    show "adds \<mu> (npts c1 * npts c2 * sum_list (map npts cs)) s
            (cross12_loop_k fin prm A M bc122 bc212 bc221 c1 c2 cs s)" for s
      using Cons.prems by (intro Cons.IH) simp
    show "npts c1 * npts c2 * sum_list (map npts (c3 # cs)) =
          npts c1 * npts c2 * npts c3 + npts c1 * npts c2 * sum_list (map npts cs)"
      by (simp add: algebra_simps)
  qed
qed

lemma cross12_loop_j_count:
  fixes fin :: "('p, 's) finish" and \<mu> :: "'s \<Rightarrow> real"
  assumes step: "\<And>this c1 c2 c3 d1 d2 d3 logr u v index st.
      this \<in> set R \<Longrightarrow> 0 \<le> index \<Longrightarrow> index < ntot (prm this) \<Longrightarrow>
      \<mu> (fin this c1 c2 c3 d1 d2 d3 logr u v index st) = \<mu> st + npts c1 * npts c2 * npts c3"
    and ok: "triples_ok prm R A M (triple_of S1 S2 S2)"
    and ok2: "pairs_ok prm R M (triple_of S1 S2 S2) (pair_of S1 S2)"
    and nonneg: "\<And>p q. 0 \<le> DistSq M p q 0 0"
    and sym: "\<And>p q. DistSq M p q 0 0 = DistSq M q p 0 0"
    and refs: "bc122 \<in> set R \<and> bc212 \<in> set R \<and> bc221 \<in> set R"
    and c1: "c1 \<in> S1"
  shows "set cs \<subseteq> S2 \<Longrightarrow> distinct (pts c1 @ field_pts cs) \<Longrightarrow>
     adds \<mu> (npts c1 * choose2 (sum_list (map npts cs))) st
       (cross12_loop_j fin prm A M bc122 bc212 bc221 c1 cs st)"
proof (induction cs arbitrary: st)
  case Nil
  then show ?case by (simp add: choose2_def)
next
  case (Cons c2 cs)
  have c2: "c2 \<in> S2" and cs: "set cs \<subseteq> S2" using Cons.prems(1) by simp_all
  have s12: "sep c1 c2" using sep_distinct [OF Cons.prems(2), of c2] by simp
  have d1: "distinct (pts c1 @ field_pts cs)" and d2: "distinct (pts c2 @ field_pts cs)"
    using Cons.prems(2) by auto
  have p: "pair_of S1 S2 c1 c2" using c1 c2 s12 by (simp add: pair_of_def)
  have t: "\<forall>c3 \<in> set cs. triple_of S1 S2 S2 c1 c2 c3"
  proof
    fix c3 assume m: "c3 \<in> set cs"
    from sep_distinct [OF d1 m] sep_distinct [OF d2 m] s12 c1 c2 cs m
    show "triple_of S1 S2 S2 c1 c2 c3" unfolding triple_of_def sep3_def by blast
  qed
  define n1 where "n1 = npts c1"
  define n2 where "n2 = npts c2"
  define m where "m = sum_list (map npts cs)"
  show ?case unfolding cross12_loop_j.simps
  proof (rule adds_ebind)
    show "adds \<mu> (n1 * choose2 n2) st (process12 fin prm A M bc122 bc212 bc221 c1 c2 st)"
      unfolding n1_def n2_def
      by (rule process12_count [where T = "triple_of S1 S2 S2" and R = R and M = M
            and ?P2.0 = "pair_of S1 S2", OF step ok ok2 nonneg sym refs p])
    show "adds \<mu> (n1 * n2 * m + n1 * choose2 m) s
            (ebind (cross12_loop_k fin prm A M bc122 bc212 bc221 c1 c2 cs s)
               (cross12_loop_j fin prm A M bc122 bc212 bc221 c1 cs))" for s
    proof (rule adds_ebind)
      show "adds \<mu> (n1 * n2 * m) s (cross12_loop_k fin prm A M bc122 bc212 bc221 c1 c2 cs s)"
        unfolding n1_def n2_def m_def
        by (rule cross12_loop_k_count [where T = "triple_of S1 S2 S2" and R = R and M = M,
              OF step ok nonneg sym refs t])
      show "adds \<mu> (n1 * choose2 m) s'
              (cross12_loop_j fin prm A M bc122 bc212 bc221 c1 cs s')" for s'
        unfolding n1_def m_def by (rule Cons.IH [OF cs d1])
    qed simp
    show "npts c1 * choose2 (sum_list (map npts (c2 # cs))) =
          n1 * choose2 n2 + (n1 * n2 * m + n1 * choose2 m)"
      by (simp add: n1_def n2_def m_def choose2_add algebra_simps)
  qed
qed

lemma cross12_loop_i_count:
  fixes fin :: "('p, 's) finish" and \<mu> :: "'s \<Rightarrow> real"
  assumes step: "\<And>this c1 c2 c3 d1 d2 d3 logr u v index st.
      this \<in> set R \<Longrightarrow> 0 \<le> index \<Longrightarrow> index < ntot (prm this) \<Longrightarrow>
      \<mu> (fin this c1 c2 c3 d1 d2 d3 logr u v index st) = \<mu> st + npts c1 * npts c2 * npts c3"
    and ok: "triples_ok prm R A M (triple_of S1 S2 S2)"
    and ok2: "pairs_ok prm R M (triple_of S1 S2 S2) (pair_of S1 S2)"
    and nonneg: "\<And>p q. 0 \<le> DistSq M p q 0 0"
    and sym: "\<And>p q. DistSq M p q 0 0 = DistSq M q p 0 0"
    and refs: "bc122 \<in> set R \<and> bc212 \<in> set R \<and> bc221 \<in> set R"
    and f2: "set f2 \<subseteq> S2"
  shows "set cs \<subseteq> S1 \<Longrightarrow> distinct (field_pts cs @ field_pts f2) \<Longrightarrow>
     adds \<mu> (sum_list (map npts cs) * choose2 (sum_list (map npts f2))) st
       (cross12_loop_i fin prm A M bc122 bc212 bc221 cs f2 st)"
proof (induction cs arbitrary: st)
  case Nil
  then show ?case by simp
next
  case (Cons c1 cs)
  have c1: "c1 \<in> S1" and cs: "set cs \<subseteq> S1" using Cons.prems(1) by simp_all
  have d1: "distinct (pts c1 @ field_pts f2)" and d: "distinct (field_pts cs @ field_pts f2)"
    using Cons.prems(2) by auto
  show ?case unfolding cross12_loop_i.simps
  proof (rule adds_ebind)
    show "adds \<mu> (npts c1 * choose2 (sum_list (map npts f2))) st
            (cross12_loop_j fin prm A M bc122 bc212 bc221 c1 f2 st)"
      by (rule cross12_loop_j_count [where R = R and M = M and ?S1.0 = S1 and ?S2.0 = S2,
            OF step ok ok2 nonneg sym refs c1 f2 d1])
    show "adds \<mu> (sum_list (map npts cs) * choose2 (sum_list (map npts f2))) s
            (cross12_loop_i fin prm A M bc122 bc212 bc221 cs f2 s)" for s
      by (rule Cons.IH [OF cs d])
    show "sum_list (map npts (c1 # cs)) * choose2 (sum_list (map npts f2)) =
          npts c1 * choose2 (sum_list (map npts f2)) +
          sum_list (map npts cs) * choose2 (sum_list (map npts f2))"
      by (simp add: algebra_simps)
  qed
qed

lemma cross_loop_k_count:
  fixes fin :: "('p, 's) finish" and \<mu> :: "'s \<Rightarrow> real"
  assumes step: "\<And>this c1 c2 c3 d1 d2 d3 logr u v index st.
      this \<in> set R \<Longrightarrow> 0 \<le> index \<Longrightarrow> index < ntot (prm this) \<Longrightarrow>
      \<mu> (fin this c1 c2 c3 d1 d2 d3 logr u v index st) = \<mu> st + npts c1 * npts c2 * npts c3"
    and ok: "triples_ok prm R A M T"
    and nonneg: "\<And>p q. 0 \<le> DistSq M p q 0 0"
    and sym: "\<And>p q. DistSq M p q 0 0 = DistSq M q p 0 0"
    and refs: "bc123 \<in> set R \<and> bc132 \<in> set R \<and> bc213 \<in> set R \<and> bc231 \<in> set R \<and>
               bc312 \<in> set R \<and> bc321 \<in> set R"
  shows "\<forall>c3 \<in> set cs. T c1 c2 c3 \<Longrightarrow>
     adds \<mu> (npts c1 * npts c2 * sum_list (map npts cs)) st
       (cross_loop_k fin prm A M bc123 bc132 bc213 bc231 bc312 bc321 c1 c2 cs st)"
proof (induction cs arbitrary: st)
  case Nil
  then show ?case by simp
next
  case (Cons c3 cs)
  show ?case unfolding cross_loop_k.simps
  proof (rule adds_ebind)
    show "adds \<mu> (npts c1 * npts c2 * npts c3) st
            (process111 fin prm A M bc123 bc132 bc213 bc231 bc312 bc321 c1 c2 c3 0 0 0 st)"
      using refs Cons.prems
      by (intro process111_count [where T = T and R = R and M = M, OF step ok nonneg sym])
         simp_all
    show "adds \<mu> (npts c1 * npts c2 * sum_list (map npts cs)) s
            (cross_loop_k fin prm A M bc123 bc132 bc213 bc231 bc312 bc321 c1 c2 cs s)" for s
      using Cons.prems by (intro Cons.IH) simp
    show "npts c1 * npts c2 * sum_list (map npts (c3 # cs)) =
          npts c1 * npts c2 * npts c3 + npts c1 * npts c2 * sum_list (map npts cs)"
      by (simp add: algebra_simps)
  qed
qed

lemma cross_loop_j_count:
  fixes fin :: "('p, 's) finish" and \<mu> :: "'s \<Rightarrow> real"
  assumes step: "\<And>this c1 c2 c3 d1 d2 d3 logr u v index st.
      this \<in> set R \<Longrightarrow> 0 \<le> index \<Longrightarrow> index < ntot (prm this) \<Longrightarrow>
      \<mu> (fin this c1 c2 c3 d1 d2 d3 logr u v index st) = \<mu> st + npts c1 * npts c2 * npts c3"
    and ok: "triples_ok prm R A M T"
    and nonneg: "\<And>p q. 0 \<le> DistSq M p q 0 0"
    and sym: "\<And>p q. DistSq M p q 0 0 = DistSq M q p 0 0"
    and refs: "bc123 \<in> set R \<and> bc132 \<in> set R \<and> bc213 \<in> set R \<and> bc231 \<in> set R \<and>
               bc312 \<in> set R \<and> bc321 \<in> set R"
  shows "\<forall>c2 \<in> set cs. \<forall>c3 \<in> set f3. T c1 c2 c3 \<Longrightarrow>
     adds \<mu> (npts c1 * sum_list (map npts cs) * sum_list (map npts f3)) st
       (cross_loop_j fin prm A M bc123 bc132 bc213 bc231 bc312 bc321 c1 cs f3 st)"
proof (induction cs arbitrary: st)
  case Nil
  then show ?case by simp
next
  case (Cons c2 cs)
  show ?case unfolding cross_loop_j.simps
  proof (rule adds_ebind)
    show "adds \<mu> (npts c1 * npts c2 * sum_list (map npts f3)) st
            (cross_loop_k fin prm A M bc123 bc132 bc213 bc231 bc312 bc321 c1 c2 f3 st)"
      using Cons.prems
      by (intro cross_loop_k_count [where T = T and R = R and M = M,
            OF step ok nonneg sym refs]) auto
    show "adds \<mu> (npts c1 * sum_list (map npts cs) * sum_list (map npts f3)) s
            (cross_loop_j fin prm A M bc123 bc132 bc213 bc231 bc312 bc321 c1 cs f3 s)" for s
      using Cons.prems by (intro Cons.IH) simp
    show "npts c1 * sum_list (map npts (c2 # cs)) * sum_list (map npts f3) =
          npts c1 * npts c2 * sum_list (map npts f3) +
          npts c1 * sum_list (map npts cs) * sum_list (map npts f3)"
      by (simp add: algebra_simps)
  qed
qed

lemma cross_loop_i_count:
  fixes fin :: "('p, 's) finish" and \<mu> :: "'s \<Rightarrow> real"
  assumes step: "\<And>this c1 c2 c3 d1 d2 d3 logr u v index st.
      this \<in> set R \<Longrightarrow> 0 \<le> index \<Longrightarrow> index < ntot (prm this) \<Longrightarrow>
      \<mu> (fin this c1 c2 c3 d1 d2 d3 logr u v index st) = \<mu> st + npts c1 * npts c2 * npts c3"
    and ok: "triples_ok prm R A M T"
    and nonneg: "\<And>p q. 0 \<le> DistSq M p q 0 0"
    and sym: "\<And>p q. DistSq M p q 0 0 = DistSq M q p 0 0"
    and refs: "bc123 \<in> set R \<and> bc132 \<in> set R \<and> bc213 \<in> set R \<and> bc231 \<in> set R \<and>
               bc312 \<in> set R \<and> bc321 \<in> set R"
  shows "\<forall>c1 \<in> set cs. \<forall>c2 \<in> set f2. \<forall>c3 \<in> set f3. T c1 c2 c3 \<Longrightarrow>
     adds \<mu> (sum_list (map npts cs) * sum_list (map npts f2) * sum_list (map npts f3)) st
       (cross_loop_i fin prm A M bc123 bc132 bc213 bc231 bc312 bc321 cs f2 f3 st)"
proof (induction cs arbitrary: st)
  case Nil
  then show ?case by simp
next
  case (Cons c1 cs)
  show ?case unfolding cross_loop_i.simps
  proof (rule adds_ebind)
    show "adds \<mu> (npts c1 * sum_list (map npts f2) * sum_list (map npts f3)) st
            (cross_loop_j fin prm A M bc123 bc132 bc213 bc231 bc312 bc321 c1 f2 f3 st)"
      using Cons.prems
      by (intro cross_loop_j_count [where T = T and R = R and M = M,
            OF step ok nonneg sym refs]) auto
    show "adds \<mu> (sum_list (map npts cs) * sum_list (map npts f2) * sum_list (map npts f3)) s
            (cross_loop_i fin prm A M bc123 bc132 bc213 bc231 bc312 bc321 cs f2 f3 s)" for s
      using Cons.prems by (intro Cons.IH) simp
    show "sum_list (map npts (c1 # cs)) * sum_list (map npts f2) * sum_list (map npts f3) =
          npts c1 * sum_list (map npts f2) * sum_list (map npts f3) +
          sum_list (map npts cs) * sum_list (map npts f2) * sum_list (map npts f3)"
      by (simp add: algebra_simps)
  qed
qed

lemma sum_list_update_one:
  fixes f g :: "'a \<Rightarrow> real"
  assumes "distinct xs" and "x \<in> set xs" and "\<And>y. y \<noteq> x \<Longrightarrow> g y = f y" and "g x = f x + k"
  shows "sum_list (map g xs) = sum_list (map f xs) + k"
  using assms(1,2)
proof (induction xs)
  case Nil
  then show ?case by simp
next
  case (Cons a xs)
  show ?case
  proof (cases "a = x")
    case True
    then have "x \<notin> set xs" using Cons.prems by simp
    then have "\<And>y. y \<in> set xs \<Longrightarrow> g y = f y" using assms(3) by metis
    then have "sum_list (map g xs) = sum_list (map f xs)"
      by (intro arg_cong [where f = sum_list] map_cong refl)
    then show ?thesis using True assms(4) by simp
  next
    case False
    then have "sum_list (map g xs) = sum_list (map f xs) + k"
      using Cons by simp
    then show ?thesis using False assms(3) by simp
  qed
qed

lemma total_ntri_step:
  assumes "this \<in> set R" and "0 \<le> index" and "index < ntot (prm this)"
  shows "total_ntri prm R
           (finishProcess_at D Project this c1 c2 c3 d1 d2 d3 logr u v index st) =
         total_ntri prm R st + npts c1 * npts c2 * npts c3"
proof -
  define st' where "st' = finishProcess_at D Project this c1 c2 c3 d1 d2 d3 logr u v index st"
  define k where "k = npts c1 * npts c2 * npts c3"
  have other: "st' r = st r" if "r \<noteq> this" for r
    using that by (simp add: st'_def finishProcess_at_def)
  have n: "ntri (st' this) = (ntri (st this))(index := ntri (st this) index + k)"
    by (simp add: st'_def finishProcess_at_def finishProcess_def Let_def k_def npts_def)
  have inner: "(\<Sum>i \<leftarrow> [0..ntot (prm this) - 1]. ntri (st' this) i) =
               (\<Sum>i \<leftarrow> [0..ntot (prm this) - 1]. ntri (st this) i) + k"
    by (rule sum_list_update_one [where x = index]) (use assms(2,3) in \<open>simp_all add: n\<close>)
  have "(\<Sum>r \<leftarrow> remdups R. \<Sum>i \<leftarrow> [0..ntot (prm r) - 1]. ntri (st' r) i) =
        (\<Sum>r \<leftarrow> remdups R. \<Sum>i \<leftarrow> [0..ntot (prm r) - 1]. ntri (st r) i) + k"
    by (rule sum_list_update_one [where x = this])
       (use assms(1) inner in \<open>simp_all add: other\<close>)
  then show ?thesis unfolding total_ntri_def st'_def k_def .
qed

lemma decide_split_coords [simp]:
  "decide_split (P\<lparr>coords := C\<rparr>) d1sq d2sq d3sq d2 s1 s2 s3 =
   decide_split P d1sq d2sq d3sq d2 s1 s2 s3"
  by (simp add: decide_split_def split3_expr_def s1ps3_after_def d2split_after_def
        Let_def split del: if_split cong: if_cong)

lemma commit_bins_coords [simp]:
  "commit_bins A (P\<lparr>coords := C\<rparr>) ccw d1 d2 d3 u v = commit_bins A P ccw d1 d2 d3 u v"
  unfolding commit_bins_def by (simp add: Let_def split del: if_split cong: if_cong)

lemma passes_coords [simp]:
  "passes A (P\<lparr>coords := C\<rparr>) M c1 c2 c3 d1sq d2sq d3sq = passes A P M c1 c2 c3 d1sq d2sq d3sq"
  unfolding passes_def by simp

lemma returns12_coords [simp]: "returns12 (P\<lparr>coords := C\<rparr>) M c1 c2 = returns12 P M c1 c2"
  unfolding returns12_def by simp

lemma returns3_coords [simp]: "returns3 (P\<lparr>coords := C\<rparr>) c = returns3 P c"
  unfolding returns3_def by simp


lemma npts_sum:
  assumes "\<forall>c \<in> set f. unit_cell c"
  shows "sum_list (map npts f) = real (length (field_pts f))"
  using assms
proof (induction f)
  case Nil
  then show ?case by simp
next
  case (Cons c f)
  then have "npts c = real (length (pts c))"
    using unit_cell_basic(1) [of c] by (simp add: npts_def)
  then show ?case using Cons by simp
qed

lemma adds_same:
  assumes "adds \<mu> k st1 res" and "\<mu> st1 = \<mu> st"
  shows "adds \<mu> k st res"
  using assms by (cases res) simp_all

lemma with_coords_base:
  "base (with_coords C this st r) = (if r = this then (base (st r))\<lparr>coords := C\<rparr> else base (st r))"
  by (simp add: with_coords_def)

lemma with_coords_total:
  "total_ntri prm R (with_coords C this st) = total_ntri prm R st"
  unfolding total_ntri_def with_coords_def
  by (intro arg_cong [where f = sum_list] map_cong refl) simp

lemma with_coords_noprune111:
  "noprune111 (\<lambda>r. base (with_coords C this st r)) R A M a c e =
   noprune111 (\<lambda>r. base (st r)) R A M a c e"
  unfolding noprune111_def with_coords_base by (auto cong: if_cong)

lemma with_coords_noprune12:
  "noprune12 (\<lambda>r. base (with_coords C this st r)) R M a c = noprune12 (\<lambda>r. base (st r)) R M a c"
  unfolding noprune12_def with_coords_base by (auto cong: if_cong)

lemma with_coords_noprune3:
  "noprune3 (\<lambda>r. base (with_coords C this st r)) R a = noprune3 (\<lambda>r. base (st r)) R a"
  unfolding noprune3_def with_coords_base by (auto cong: if_cong)

lemma with_coords_step:
  assumes "this' \<in> set R" and "0 \<le> index" and "index < ntot (base (with_coords C this st r'))"
    and "r' = this'"
  shows "total_ntri (\<lambda>r. base (st r)) R
           (finishProcess_at D Project this' c1 c2 c3 d1 d2 d3 logr u v index s) =
         total_ntri (\<lambda>r. base (st r)) R s + npts c1 * npts c2 * npts c3"
  using assms by (intro total_ntri_step) (simp_all add: with_coords_base split: if_splits)

lemma no_pruning111_all:
  assumes "no_pruning111 prm R A M L1 L2 L3"
  shows "\<forall>a c e. triple_of (set L1) (set L2) (set L3) a c e \<longrightarrow> noprune111 prm R A M a c e"
proof (intro allI impI)
  fix a c e assume t: "triple_of (set L1) (set L2) (set L3) a c e"
  then have "a \<in> set (L1 @ L2 @ L3)" "c \<in> set (L1 @ L2 @ L3)" "e \<in> set (L1 @ L2 @ L3)"
    unfolding triple_of_def by auto
  with assms t show "noprune111 prm R A M a c e" unfolding no_pruning111_def by blast
qed

lemma valid_fields_append:
  assumes "valid_fields (f @ g)"
  shows "\<forall>c \<in> set f. unit_cell c" and "\<forall>c \<in> set g. unit_cell c"
    and "distinct (field_pts f @ field_pts g)"
  using assms by (simp_all add: valid_fields_def field_pts_def)

lemma process_auto_count:
  fixes M :: "'p metric"
  assumes vm: "valid_metric M" and ok: "auto_ok A M C this field st"
  shows "adds (total_ntri (\<lambda>r. base (st r)) [this])
           (choose3 (real (length (field_pts field)))) st
           (process_auto D Project A M C this field st)"
proof -
  define S where "S = set (field_cells field)"
  define st1 where "st1 = with_coords C this st"
  define prm1 where "prm1 = (\<lambda>r. base (st1 r))"
  note o = ok [unfolded auto_ok_def Let_def]
  have f: "field \<noteq> []" and co: "coords (base (st this)) = - 1 \<or> coords (base (st this)) = C"
    and vf: "\<forall>c \<in> set field. unit_cell c" "distinct (field_pts field)"
    and half: "0 < halfminsep (base (st this))"
    and np: "no_pruning111 (\<lambda>r. base (st r)) [this] A M (field_cells field) (field_cells field)
               (field_cells field)"
      "no_pruning12 (\<lambda>r. base (st r)) [this] M (field_cells field) (field_cells field)"
      "no_pruning3 (\<lambda>r. base (st r)) [this] (field_cells field)"
    using o by (simp_all add: valid_fields_def)
  have nonneg: "\<And>p q. 0 \<le> DistSq M p q 0 0" and sym: "\<And>p q. DistSq M p q 0 0 = DistSq M q p 0 0"
    using vm unfolding valid_metric_def by blast+
  have e: "process_auto D Project A M C this field st =
           auto_loop_i (finishProcess_at D Project) prm1 A M this field st1"
    using f co by (simp add: process_auto_def prm1_def st1_def with_coords_def Let_def)
  have cl: "closed_cells S" unfolding S_def by (rule closed_field_cells [OF vf(1)])
  have t: "triples_ok prm1 [this] A M (triple_of S S S)"
    unfolding prm1_def st1_def S_def
    by (rule triples_ok_fields [OF cl [unfolded S_def] cl [unfolded S_def] cl [unfolded S_def]])
       (use no_pruning111_all [OF np(1)] in \<open>simp add: with_coords_noprune111\<close>)
  have p: "pairs_ok prm1 [this] M (triple_of S S S) (pair_of S S)"
    unfolding prm1_def st1_def S_def
    by (rule pairs_ok_fields [OF cl [unfolded S_def] cl [unfolded S_def]])
       (use np(2) in \<open>simp add: with_coords_noprune12 no_pruning12_def pair_of_def\<close>)
  have c: "cells_ok prm1 [this] (pair_of S S) (\<lambda>a. a \<in> S)"
    unfolding prm1_def st1_def S_def
    by (rule cells_ok_fields [OF cl [unfolded S_def]])
       (use np(3) in \<open>simp add: with_coords_noprune3 no_pruning3_def\<close>)
  have step: "\<And>this' c1 c2 c3 d1 d2 d3 logr u v index s.
      this' \<in> set [this] \<Longrightarrow> 0 \<le> index \<Longrightarrow> index < ntot (prm1 this') \<Longrightarrow>
      total_ntri (\<lambda>r. base (st r)) [this]
        (finishProcess_at D Project this' c1 c2 c3 d1 d2 d3 logr u v index s) =
      total_ntri (\<lambda>r. base (st r)) [this] s + npts c1 * npts c2 * npts c3"
    unfolding prm1_def st1_def by (rule with_coords_step [OF _ _ _ refl])
  have h: "0 < halfminsep (prm1 this)"
    using half by (simp add: prm1_def st1_def with_coords_base)
  have sub: "set field \<subseteq> S" unfolding S_def by (auto intro: field_cells_top)
  have "adds (total_ntri (\<lambda>r. base (st r)) [this]) (choose3 (sum_list (map npts field))) st1
          (auto_loop_i (finishProcess_at D Project) prm1 A M this field st1)"
    by (rule auto_loop_i_count [where R = "[this]" and M = M and S = S and prm = prm1
          and fin = "finishProcess_at D Project"
          and \<mu> = "total_ntri (\<lambda>r. base (st r)) [this]",
          OF step t p c nonneg sym _ h sub vf(2)]) simp_all
  then show ?thesis
    unfolding e npts_sum [OF vf(1)]
    by (rule adds_same) (simp add: st1_def with_coords_total)
qed

lemma process_cross12_count:
  fixes M :: "'p metric"
  assumes vm: "valid_metric M"
    and ok: "cross12_ok A M C this corr212 corr221 field1 field2 st"
  shows "adds (total_ntri (\<lambda>r. base (st r)) [this, corr212, corr221])
           (real (length (field_pts field1)) * choose2 (real (length (field_pts field2)))) st
           (process_cross12 D Project A M C this corr212 corr221 field1 field2 st)"
proof -
  define S1 where "S1 = set (field_cells field1)"
  define S2 where "S2 = set (field_cells field2)"
  define R where "R = [this, corr212, corr221]"
  define st1 where "st1 = with_coords C this st"
  define prm1 where "prm1 = (\<lambda>r. base (st1 r))"
  note o = ok [unfolded cross12_ok_def Let_def, folded R_def]
  have f: "field1 \<noteq> []" "field2 \<noteq> []"
    and co: "coords (base (st this)) = - 1 \<or> coords (base (st this)) = C"
    and vf: "valid_fields (field1 @ field2)"
    and np: "no_pruning111 (\<lambda>r. base (st r)) R A M (field_cells field1) (field_cells field2)
               (field_cells field2)"
      "no_pruning12 (\<lambda>r. base (st r)) R M (field_cells field1) (field_cells field2)"
    using o by simp_all
  note v = valid_fields_append [OF vf]
  have nonneg: "\<And>p q. 0 \<le> DistSq M p q 0 0" and sym: "\<And>p q. DistSq M p q 0 0 = DistSq M q p 0 0"
    using vm unfolding valid_metric_def by blast+
  have e: "process_cross12 D Project A M C this corr212 corr221 field1 field2 st =
           cross12_loop_i (finishProcess_at D Project) prm1 A M this corr212 corr221
             field1 field2 st1"
    using f co by (simp add: process_cross12_def prm1_def st1_def with_coords_def Let_def)
  have cl: "closed_cells S1" "closed_cells S2"
    unfolding S1_def S2_def by (rule closed_field_cells [OF v(1)], rule closed_field_cells [OF v(2)])
  have t: "triples_ok prm1 R A M (triple_of S1 S2 S2)"
    unfolding prm1_def st1_def S1_def S2_def
    by (rule triples_ok_fields [OF cl(1) [unfolded S1_def] cl(2) [unfolded S2_def]
          cl(2) [unfolded S2_def]])
       (use no_pruning111_all [OF np(1)] in \<open>simp add: with_coords_noprune111\<close>)
  have p: "pairs_ok prm1 R M (triple_of S1 S2 S2) (pair_of S1 S2)"
    unfolding prm1_def st1_def S1_def S2_def
    by (rule pairs_ok_fields [OF cl(1) [unfolded S1_def] cl(2) [unfolded S2_def]])
       (use np(2) in \<open>simp add: with_coords_noprune12 no_pruning12_def pair_of_def\<close>)
  have step: "\<And>this' c1 c2 c3 d1 d2 d3 logr u v index s.
      this' \<in> set R \<Longrightarrow> 0 \<le> index \<Longrightarrow> index < ntot (prm1 this') \<Longrightarrow>
      total_ntri (\<lambda>r. base (st r)) R
        (finishProcess_at D Project this' c1 c2 c3 d1 d2 d3 logr u v index s) =
      total_ntri (\<lambda>r. base (st r)) R s + npts c1 * npts c2 * npts c3"
    unfolding prm1_def st1_def by (rule with_coords_step [OF _ _ _ refl])
  have sub: "set field1 \<subseteq> S1" "set field2 \<subseteq> S2"
    unfolding S1_def S2_def by (auto intro: field_cells_top)
  have "adds (total_ntri (\<lambda>r. base (st r)) R)
          (sum_list (map npts field1) * choose2 (sum_list (map npts field2))) st1
          (cross12_loop_i (finishProcess_at D Project) prm1 A M this corr212 corr221
             field1 field2 st1)"
    by (rule cross12_loop_i_count [where R = R and M = M and ?S1.0 = S1 and ?S2.0 = S2
          and prm = prm1 and fin = "finishProcess_at D Project"
          and \<mu> = "total_ntri (\<lambda>r. base (st r)) R",
          OF step t p nonneg sym _ sub(2) sub(1) v(3)]) (simp_all add: R_def)
  then show ?thesis
    unfolding e npts_sum [OF v(1)] npts_sum [OF v(2)] R_def [symmetric]
    by (rule adds_same) (simp add: st1_def with_coords_total)
qed

lemma process_cross_count:
  fixes M :: "'p metric"
  assumes vm: "valid_metric M"
    and ok: "cross_ok A M C this corr132 corr213 corr231 corr312 corr321 field1 field2 field3 st"
  shows "adds (total_ntri (\<lambda>r. base (st r)) [this, corr132, corr213, corr231, corr312, corr321])
           (real (length (field_pts field1)) * real (length (field_pts field2)) *
            real (length (field_pts field3))) st
           (process_cross D Project A M C this corr132 corr213 corr231 corr312 corr321
              field1 field2 field3 st)"
proof -
  define S1 where "S1 = set (field_cells field1)"
  define S2 where "S2 = set (field_cells field2)"
  define S3 where "S3 = set (field_cells field3)"
  define R where "R = [this, corr132, corr213, corr231, corr312, corr321]"
  define st1 where "st1 = with_coords C this st"
  define prm1 where "prm1 = (\<lambda>r. base (st1 r))"
  note o = ok [unfolded cross_ok_def Let_def, folded R_def]
  have f: "field1 \<noteq> []" "field2 \<noteq> []" "field3 \<noteq> []"
    and co: "coords (base (st this)) = - 1 \<or> coords (base (st this)) = C"
    and vf: "valid_fields (field1 @ field2 @ field3)"
    and np: "no_pruning111 (\<lambda>r. base (st r)) R A M (field_cells field1) (field_cells field2)
               (field_cells field3)"
    using o by simp_all
  note v1 = valid_fields_append [OF vf]
  have vf23: "valid_fields (field2 @ field3)"
    using vf by (simp add: valid_fields_def field_pts_def)
  note v2 = valid_fields_append [OF vf23]
  have nonneg: "\<And>p q. 0 \<le> DistSq M p q 0 0" and sym: "\<And>p q. DistSq M p q 0 0 = DistSq M q p 0 0"
    using vm unfolding valid_metric_def by blast+
  have e: "process_cross D Project A M C this corr132 corr213 corr231 corr312 corr321
              field1 field2 field3 st =
           cross_loop_i (finishProcess_at D Project) prm1 A M
             this corr132 corr213 corr231 corr312 corr321 field1 field2 field3 st1"
    using f co by (simp add: process_cross_def prm1_def st1_def with_coords_def Let_def)
  have cl: "closed_cells S1" "closed_cells S2" "closed_cells S3"
    unfolding S1_def S2_def S3_def
    by (rule closed_field_cells [OF v1(1)], rule closed_field_cells [OF v2(1)],
        rule closed_field_cells [OF v2(2)])
  have t: "triples_ok prm1 R A M (triple_of S1 S2 S3)"
    unfolding prm1_def st1_def S1_def S2_def S3_def
    by (rule triples_ok_fields [OF cl(1) [unfolded S1_def] cl(2) [unfolded S2_def]
          cl(3) [unfolded S3_def]])
       (use no_pruning111_all [OF np] in \<open>simp add: with_coords_noprune111\<close>)
  have step: "\<And>this' c1 c2 c3 d1 d2 d3 logr u v index s.
      this' \<in> set R \<Longrightarrow> 0 \<le> index \<Longrightarrow> index < ntot (prm1 this') \<Longrightarrow>
      total_ntri (\<lambda>r. base (st r)) R
        (finishProcess_at D Project this' c1 c2 c3 d1 d2 d3 logr u v index s) =
      total_ntri (\<lambda>r. base (st r)) R s + npts c1 * npts c2 * npts c3"
    unfolding prm1_def st1_def by (rule with_coords_step [OF _ _ _ refl])
  have tr: "\<forall>c1 \<in> set field1. \<forall>c2 \<in> set field2. \<forall>c3 \<in> set field3. triple_of S1 S2 S3 c1 c2 c3"
  proof (intro ballI)
    fix c1 c2 c3 assume m: "c1 \<in> set field1" "c2 \<in> set field2" "c3 \<in> set field3"
    have d12: "distinct (field_pts field1 @ field_pts field2)"
      and d13: "distinct (field_pts field1 @ field_pts field3)"
      and d23: "distinct (field_pts field2 @ field_pts field3)"
      using vf by (auto simp: valid_fields_def field_pts_def)
    from sep_distinct2 [OF d12 m(1,2)] sep_distinct2 [OF d13 m(1,3)] sep_distinct2 [OF d23 m(2,3)]
      field_cells_top [OF m(1)] field_cells_top [OF m(2)] field_cells_top [OF m(3)]
    show "triple_of S1 S2 S3 c1 c2 c3"
      unfolding triple_of_def sep3_def S1_def S2_def S3_def by blast
  qed
  have "adds (total_ntri (\<lambda>r. base (st r)) R)
          (sum_list (map npts field1) * sum_list (map npts field2) * sum_list (map npts field3))
          st1
          (cross_loop_i (finishProcess_at D Project) prm1 A M
             this corr132 corr213 corr231 corr312 corr321 field1 field2 field3 st1)"
    by (rule cross_loop_i_count [where R = R and M = M and T = "triple_of S1 S2 S3"
          and prm = prm1 and fin = "finishProcess_at D Project"
          and \<mu> = "total_ntri (\<lambda>r. base (st r)) R",
          OF step t nonneg sym _ tr]) (simp_all add: R_def)
  then show ?thesis
    unfolding e npts_sum [OF v1(1)] npts_sum [OF v2(1)] npts_sum [OF v2(2)] R_def [symmetric]
    by (rule adds_same) (simp add: st1_def with_coords_total)
qed

subsection \<open>Count conservation of the entry points\<close>

lemma sqrt_sq: "0 \<le> x \<Longrightarrow> y = x * x \<Longrightarrow> sqrt y = x"
  by (simp add: real_sqrt_mult)

lemma sqrt_examples:
  "sqrt 48400 = 220" "sqrt 75625 = 275" "sqrt 27225 = 165" "sqrt 48841 = 221"
  "sqrt 20736 = 144" "sqrt 34596 = 186"
  by (rule sqrt_sq; simp)+

lemma valid_metric_Flat: "valid_metric Flat_Euclidean"
proof -
  have "SQR (x - y) = SQR (y - x)" for x y :: real
    by (simp add: SQR_def algebra_simps)
  moreover have "0 \<le> SQR x" for x :: real
    by (simp add: SQR_def)
  ultimately show ?thesis
    by (simp add: valid_metric_def Flat_Euclidean_def)
qed

lemma cellQ_fields:
  "getW cellQ = 2" "getW cellP = 1" "getW cellO = 1" "getW cellQ1 = 1" "getW cellQ2 = 1"
  "getSize cellQ = 21" "getSize cellP = 0" "getSize cellO = 0" "getSize cellQ1 = 0"
  "getSize cellQ2 = 0"
  "getPos cellQ = (220, 0)" "getPos cellP = (220, 165)" "getPos cellO = (0, 0)"
  "getPos cellQ1 = (220, 21)" "getPos cellQ2 = (220, - 21)"
  by (simp_all add: cellQ_def cellQ1_def cellQ2_def cellP_def cellO_def leaf_def)

lemma cellQ_dsq:
  "DistSq Flat_Euclidean (220, 165) (0, 0) 0 0 = 75625"
  "DistSq Flat_Euclidean (0, 0) (220, 165) 0 0 = 75625"
  "DistSq Flat_Euclidean (220, 0) (0, 0) 0 0 = 48400"
  "DistSq Flat_Euclidean (0, 0) (220, 0) 0 0 = 48400"
  "DistSq Flat_Euclidean (220, 0) (220, 165) 0 0 = 27225"
  "DistSq Flat_Euclidean (220, 165) (220, 0) 0 0 = 27225"
  "DistSq Flat_Euclidean (220, 21) (0, 0) 0 0 = 48841"
  "DistSq Flat_Euclidean (0, 0) (220, 21) 0 0 = 48841"
  "DistSq Flat_Euclidean (220, - 21) (0, 0) 0 0 = 48841"
  "DistSq Flat_Euclidean (0, 0) (220, - 21) 0 0 = 48841"
  "DistSq Flat_Euclidean (220, 21) (220, 165) 0 0 = 20736"
  "DistSq Flat_Euclidean (220, 165) (220, 21) 0 0 = 20736"
  "DistSq Flat_Euclidean (220, - 21) (220, 165) 0 0 = 34596"
  "DistSq Flat_Euclidean (220, 165) (220, - 21) 0 0 = 34596"
  by (simp_all add: Flat_Euclidean_def SQR_def)

lemma params221_fields:
  "minsep (params221 s) = 221" "minsepsq (params221 s) = 48841" "maxsep (params221 s) = 442"
  "maxsepsq (params221 s) = 195364" "minu (params221 s) = 0" "minusq (params221 s) = 0"
  "maxu (params221 s) = 1" "maxusq (params221 s) = 1" "minv (params221 s) = 0"
  "minvsq (params221 s) = 0" "maxv (params221 s) = 1" "maxvsq (params221 s) = 1"
  "b (params221 s) = s" "bu (params221 s) = s" "bv (params221 s) = s"
  "busq (params221 s) = s * s" "bvsq (params221 s) = s * s"
  "ntot (params221 s) = 2" "coords (params221 s) = - 1" "halfminsep (params221 s) = 221 / 2"
  by (simp_all add: params221_def BaseCorr3_ctor_def SQR_def)

lemma stop111_Q:
  "stop111 75625 48400 27225 21 0 0 221 48841 442 195364 0 0 1 1 0 0 1 1 = (False, 220)"
  by (simp add: stop111_def SQR_def Let_def sqrt_examples)

lemma decide_split_Q_wide:
  "decide_split (params221 (1/5)) 75625 48400 27225 220 21 0 0 =
      (False, False, False, False, 275, 165, 3 / 4, 1 / 3)"
  by (simp add: decide_split_def split3_expr_def s1ps3_after_def d2split_after_def SQR_def
        Let_def params221_fields sqrt_examples)

lemma commit_bins_Q_wide:
  "commit_bins A (params221 (1/5)) ccw 275 220 165 (3 / 4) (1 / 3) = Inr None"
  by (simp add: commit_bins_def Let_def params221_fields)

lemma cellQ_run:
  fixes fin :: "(real \<times> real, 's) finish"
  assumes "prm 0 = (params221 (1/5))\<lparr>coords := C\<rparr>"
  shows "process111 fin prm A Flat_Euclidean 0 1 2 3 4 5 cellQ cellP cellO 0 0 0 st = Inr st"
proof -
  have "process111 fin prm A Flat_Euclidean 0 1 2 3 4 5 cellQ cellP cellO 0 0 0 st =
        process111Sorted fin prm A Flat_Euclidean 0 1 2 3 4 5 cellQ cellP cellO
          75625 48400 27225 st"
    by (simp add: process111.simps Let_def cellQ_fields cellQ_dsq)
  also have "\<dots> = Inr st"
    by (subst process111Sorted_nosplit [where P = "(params221 (1/5))\<lparr>coords := C\<rparr>"
          and ?d2.0 = 220 and ?d1.0 = 275
          and ?d3.0 = 165 and u = "3 / 4" and v = "1 / 3" and ?sp1.0 = False
          and ?sp2.0 = False and ?sp3.0 = False])
       (simp_all add: assms cellQ_fields params221_fields stop111_Q decide_split_Q_wide
          commit_bins_Q_wide)
  finally show ?thesis .
qed

lemma point_triangles_in_ranges:
  "triangle_in_ranges (params221 s) Flat_Euclidean (220, 21) (220, 165) (0, 0)"
  "triangle_in_ranges (params221 s) Flat_Euclidean (220, - 21) (220, 165) (0, 0)"
  by (simp_all add: triangle_in_ranges_def in_ranges_def cellQ_dsq Let_def sqrt_examples
        params221_fields)

lemma cellQ_pts:
  "pts cellQ = [(220, 21), (220, - 21)]" "pts cellQ1 = [(220, 21)]" "pts cellQ2 = [(220, - 21)]"
  "pts cellP = [(220, 165)]" "pts cellO = [(0, 0)]"
  by (simp_all add: cellQ_def cellQ1_def cellQ2_def cellP_def cellO_def leaf_def)

lemma cellQ_unit:
  "unit_cell cellQ" "unit_cell cellQ1" "unit_cell cellQ2" "unit_cell cellP" "unit_cell cellO"
  by (simp_all add: cellQ_def cellQ1_def cellQ2_def cellP_def cellO_def leaf_def)

lemma cellQ_valid_fields: "valid_fields ([cellQ] @ [cellP] @ [cellO])"
  by (simp add: valid_fields_def cellQ_unit cellQ_pts)

text \<open>
  Claim C1 as stated fails. The fields \<open>{(220, 21), (220, -21)}\<close>, \<open>{(220, 165)}\<close> and
  \<open>{(0, 0)}\<close> hold points of weight 1; with \<open>minsep = 221\<close>, \<open>maxsep = 442\<close>, \<open>u\<close> and \<open>v\<close> in
  \<open>[0, 1)\<close> and \<open>b = bu = bv = 1/5\<close> both triangles have \<open>d2 = 221\<close>, \<open>u\<close> and \<open>v\<close> in the accepted
  ranges. The cross-correlation of the three fields does not split the cell of the first
  field and drops it at the range check of the centre triangle (\<open>d2 = 220 < minsep\<close>): it
  returns with the accumulators as they were, so the total of \<open>ntri\<close> is 0 and not
  \<open>N1 N2 N3 = 2\<close>, with assertions on or off.
\<close>

theorem count_conservation_counterexample:
  "valid_metric Flat_Euclidean \<and> valid_fields ([cellQ] @ [cellP] @ [cellO]) \<and>
   field_pts [cellQ] = [(220, 21), (220, - 21)] \<and> field_pts [cellP] = [(220, 165)] \<and>
   field_pts [cellO] = [(0, 0)] \<and>
   triangle_in_ranges (params221 (1/5)) Flat_Euclidean (220, 21) (220, 165) (0, 0) \<and>
   triangle_in_ranges (params221 (1/5)) Flat_Euclidean (220, - 21) (220, 165) (0, 0) \<and>
   (\<forall>A. process_cross NData no_projection A Flat_Euclidean 1 0 1 2 3 4 5
          [cellQ] [cellP] [cellO] (zero_store (params221 (1/5))) =
        Inr (with_coords 1 0 (zero_store (params221 (1/5))))) \<and>
   total_ntri (\<lambda>r. params221 (1/5)) [0, 1, 2, 3, 4, 5]
     (with_coords 1 0 (zero_store (params221 (1/5)))) = 0 \<and>
   real (length (field_pts [cellQ])) * real (length (field_pts [cellP])) *
     real (length (field_pts [cellO])) = 2"
proof -
  have run: "process_cross NData no_projection A Flat_Euclidean 1 0 1 2 3 4 5
          [cellQ] [cellP] [cellO] (zero_store (params221 (1/5))) =
        Inr (with_coords 1 0 (zero_store (params221 (1/5))))" for A
  proof -
    have "process_cross NData no_projection A Flat_Euclidean 1 0 1 2 3 4 5
          [cellQ] [cellP] [cellO] (zero_store (params221 (1/5))) =
        process111 (finishProcess_at NData no_projection)
          (\<lambda>r. base (with_coords 1 0 (zero_store (params221 (1/5))) r)) A Flat_Euclidean
          0 1 2 3 4 5 cellQ cellP cellO 0 0 0 (with_coords 1 0 (zero_store (params221 (1/5))))"
      by (simp add: process_cross_def Let_def with_coords_def zero_store_def params221_fields
            ebind_def split: sum.splits)
    also have "\<dots> = Inr (with_coords 1 0 (zero_store (params221 (1/5))))"
      by (rule cellQ_run [where C = 1]) (simp add: with_coords_def zero_store_def)
    finally show ?thesis .
  qed
  have tot: "total_ntri (\<lambda>r. params221 (1/5)) [0, 1, 2, 3, 4, 5]
     (with_coords 1 0 (zero_store (params221 (1/5)))) = 0"
    by (simp add: total_ntri_def with_coords_def zero_store_def)
  show ?thesis
    using valid_metric_Flat cellQ_valid_fields point_triangles_in_ranges [of "1/5"] run tot
    by (simp add: cellQ_pts)
qed

text \<open>
  Claim C1, amended. For a metric with symmetric, non-negative squared distances, fields of
  points of weight 1 at distinct positions, and parameters under which no combination of
  cells is pruned (for every triple of separate cells of the fields, in the order that
  sorts the distances of its centres, \<^verbatim>\<open>stop111\<close> is false and the triple is split or passes
  the range checks of the commit; \<^verbatim>\<open>process12\<close> does not return early when the second cell
  holds two points or more, nor \<^verbatim>\<open>process3\<close> when the cell holds three or more; \<open>minsep > 0\<close>
  for the auto-correlation): the auto-correlation of a field of \<open>N\<close> points returns normally
  and raises the total of \<open>ntri\<close> over all bins by \<open>N (N - 1) (N - 2) / 6\<close>; the
  cross-correlation of fields of \<open>N1\<close> and \<open>N2\<close> points raises the total over the three
  accumulators by \<open>N1 N2 (N2 - 1) / 2\<close>; and the cross-correlation of three fields of \<open>N1\<close>,
  \<open>N2\<close>, \<open>N3\<close> points raises the total over the six accumulators by \<open>N1 N2 N3\<close>. This
  holds with assertions on or off, for every kernel and coordinate kind.
\<close>

theorem count_conservation:
  fixes M :: "'p metric"
  assumes "valid_metric M"
  shows
    "(auto_ok A M C this field st \<longrightarrow>
        adds (total_ntri (\<lambda>r. base (st r)) [this])
          (choose3 (real (length (field_pts field)))) st
          (process_auto D Project A M C this field st)) \<and>
     (cross12_ok A M C this corr212 corr221 f1 f2 st \<longrightarrow>
        adds (total_ntri (\<lambda>r. base (st r)) [this, corr212, corr221])
          (real (length (field_pts f1)) * choose2 (real (length (field_pts f2)))) st
          (process_cross12 D Project A M C this corr212 corr221 f1 f2 st)) \<and>
     (cross_ok A M C this corr132 corr213 corr231 corr312 corr321 g1 g2 g3 st \<longrightarrow>
        adds (total_ntri (\<lambda>r. base (st r)) [this, corr132, corr213, corr231, corr312, corr321])
          (real (length (field_pts g1)) * real (length (field_pts g2)) *
           real (length (field_pts g3))) st
          (process_cross D Project A M C this corr132 corr213 corr231 corr312 corr321
             g1 g2 g3 st))"
proof (intro conjI impI)
  assume "auto_ok A M C this field st"
  then show "adds (total_ntri (\<lambda>r. base (st r)) [this])
          (choose3 (real (length (field_pts field)))) st
          (process_auto D Project A M C this field st)"
    by (rule process_auto_count [OF assms])
next
  assume "cross12_ok A M C this corr212 corr221 f1 f2 st"
  then show "adds (total_ntri (\<lambda>r. base (st r)) [this, corr212, corr221])
          (real (length (field_pts f1)) * choose2 (real (length (field_pts f2)))) st
          (process_cross12 D Project A M C this corr212 corr221 f1 f2 st)"
    by (rule process_cross12_count [OF assms])
next
  assume "cross_ok A M C this corr132 corr213 corr231 corr312 corr321 g1 g2 g3 st"
  then show "adds (total_ntri (\<lambda>r. base (st r))
            [this, corr132, corr213, corr231, corr312, corr321])
          (real (length (field_pts g1)) * real (length (field_pts g2)) *
           real (length (field_pts g3))) st
          (process_cross D Project A M C this corr132 corr213 corr231 corr312 corr321
             g1 g2 g3 st)"
    by (rule process_cross_count [OF assms])
qed

lemma passes_Q:
  "passes True (params221 (1/10)) Flat_Euclidean cellQ cellP cellO 75625 48400 27225"
proof -
  have "decide_split (params221 (1/10)) 75625 48400 27225 220 21 0 0 =
      (True, True, False, False, 275, 165, 3 / 4, 1 / 3)"
    by (simp add: decide_split_def split3_expr_def s1ps3_after_def d2split_after_def SQR_def
        Let_def params221_fields sqrt_examples)
  then show ?thesis
    by (simp add: passes_def cellQ_fields params221_fields stop111_Q)
qed

lemma passes_Q1:
  "passes True (params221 (1/10)) Flat_Euclidean cellQ1 cellP cellO 75625 48841 20736"
proof -
  have s: "stop111 75625 48841 20736 0 0 0 221 48841 442 195364 0 0 1 1 0 0 1 1 = (False, 221)"
    by (simp add: stop111_def SQR_def Let_def sqrt_examples)
  have d: "decide_split (params221 (1/10)) 75625 48841 20736 221 0 0 0 =
      (False, False, False, False, 275, 144, 144 / 221, 3 / 8)"
    by (simp add: decide_split_def split3_expr_def s1ps3_after_def d2split_after_def SQR_def
        Let_def params221_fields sqrt_examples)
  have c: "commit_bins True (params221 (1/10)) True 275 221 144 (144 / 221) (3 / 8) =
      Inr (Some (ln 221, 3 / 8, 1))"
    by (simp add: commit_bins_def Let_def params221_def BaseCorr3_ctor_def)
  have ccw: "CCW Flat_Euclidean (220, 21) (220, 165) (0, 0)"
    by (simp add: Flat_Euclidean_def)
  show ?thesis
    by (simp add: passes_def cellQ_fields params221_fields s d c ccw)
qed

lemma passes_Q2:
  "passes True (params221 (1/10)) Flat_Euclidean cellQ2 cellP cellO 75625 48841 34596"
proof -
  have s: "stop111 75625 48841 34596 0 0 0 221 48841 442 195364 0 0 1 1 0 0 1 1 = (False, 221)"
    by (simp add: stop111_def SQR_def Let_def sqrt_examples)
  have d: "decide_split (params221 (1/10)) 75625 48841 34596 221 0 0 0 =
      (False, False, False, False, 275, 186, 186 / 221, 9 / 31)"
    by (simp add: decide_split_def split3_expr_def s1ps3_after_def d2split_after_def SQR_def
        Let_def params221_fields sqrt_examples)
  have c: "commit_bins True (params221 (1/10)) True 275 221 186 (186 / 221) (9 / 31) =
      Inr (Some (ln 221, 9 / 31, 1))"
    by (simp add: commit_bins_def Let_def params221_def BaseCorr3_ctor_def)
  have ccw: "CCW Flat_Euclidean (220, - 21) (220, 165) (0, 0)"
    by (simp add: Flat_Euclidean_def)
  show ?thesis
    by (simp add: passes_def cellQ_fields params221_fields s d c ccw)
qed

lemma cellQ_field_cells:
  "field_cells [cellQ] = [cellQ, cellQ1, cellQ2]" "field_cells [cellP] = [cellP]"
  "field_cells [cellO] = [cellO]"
  by (simp_all add: field_cells_def cellQ_def cellQ1_def cellQ2_def cellP_def cellO_def leaf_def)

lemma cellQ_centre_dsq:
  "centre_dsq Flat_Euclidean cellP cellO = 75625" "centre_dsq Flat_Euclidean cellO cellP = 75625"
  "centre_dsq Flat_Euclidean cellQ cellO = 48400" "centre_dsq Flat_Euclidean cellO cellQ = 48400"
  "centre_dsq Flat_Euclidean cellQ cellP = 27225" "centre_dsq Flat_Euclidean cellP cellQ = 27225"
  "centre_dsq Flat_Euclidean cellQ1 cellO = 48841" "centre_dsq Flat_Euclidean cellO cellQ1 = 48841"
  "centre_dsq Flat_Euclidean cellQ2 cellO = 48841" "centre_dsq Flat_Euclidean cellO cellQ2 = 48841"
  "centre_dsq Flat_Euclidean cellQ1 cellP = 20736" "centre_dsq Flat_Euclidean cellP cellQ1 = 20736"
  "centre_dsq Flat_Euclidean cellQ2 cellP = 34596" "centre_dsq Flat_Euclidean cellP cellQ2 = 34596"
  by (simp_all add: centre_dsq_def cellQ_fields cellQ_dsq)

lemma cellQ_no_pruning:
  "no_pruning111 (\<lambda>r. params221 (1/10)) R True Flat_Euclidean
     [cellQ, cellQ1, cellQ2] [cellP] [cellO]"
  unfolding no_pruning111_def
proof (intro ballI impI)
  fix a c e
  assume "triple_of (set [cellQ, cellQ1, cellQ2]) (set [cellP]) (set [cellO]) a c e"
  then have "(a \<in> {cellQ, cellQ1, cellQ2} \<and> c = cellP \<and> e = cellO) \<or>
             (a \<in> {cellQ, cellQ1, cellQ2} \<and> e = cellP \<and> c = cellO) \<or>
             (c \<in> {cellQ, cellQ1, cellQ2} \<and> a = cellP \<and> e = cellO) \<or>
             (c \<in> {cellQ, cellQ1, cellQ2} \<and> e = cellP \<and> a = cellO) \<or>
             (e \<in> {cellQ, cellQ1, cellQ2} \<and> a = cellP \<and> c = cellO) \<or>
             (e \<in> {cellQ, cellQ1, cellQ2} \<and> c = cellP \<and> a = cellO)"
    unfolding triple_of_def by simp
  then show "noprune111 (\<lambda>r. params221 (1/10)) R True Flat_Euclidean a c e"
    by (elim disjE conjE insertE emptyE)
       (simp_all add: noprune111_def cellQ_centre_dsq passes_Q passes_Q1 passes_Q2)
qed

lemma cellQ_cross_ok:
  "cross_ok True Flat_Euclidean 1 0 1 2 3 4 5 [cellQ] [cellP] [cellO]
     (zero_store (params221 (1/10)))"
  unfolding cross_ok_def Let_def cellQ_field_cells
  using cellQ_valid_fields cellQ_no_pruning [of "[0, 1, 2, 3, 4, 5]"]
  by (simp add: zero_store_def params221_fields)


lemma cellD_facts:
  "getW cellD = 1" "getW cellE = 1" "getW cellF = 1"
  "getSize cellD = 0" "getSize cellE = 0" "getSize cellF = 0"
  "getN cellD = 1" "getN cellE = 1" "getN cellF = 1"
  "getPos cellD = (4, 0)" "getPos cellE = (4, - 3)" "getPos cellF = (0, 0)"
  "pts cellD = [(4, 0)]" "pts cellE = [(4, - 3)]" "pts cellF = [(0, 0)]"
  "unit_cell cellD" "unit_cell cellE" "unit_cell cellF"
  "subcells cellD = [cellD]" "subcells cellE = [cellE]" "subcells cellF = [cellF]"
  by (simp_all add: cellD_def cellE_def cellF_def leaf_def)

lemma cellD_centre_dsq:
  "centre_dsq Flat_Euclidean cellE cellF = 25" "centre_dsq Flat_Euclidean cellF cellE = 25"
  "centre_dsq Flat_Euclidean cellD cellF = 16" "centre_dsq Flat_Euclidean cellF cellD = 16"
  "centre_dsq Flat_Euclidean cellD cellE = 9" "centre_dsq Flat_Euclidean cellE cellD = 9"
  by (simp_all add: centre_dsq_def cellD_facts Flat_Euclidean_def SQR_def)

lemma cellD_sep:
  "sep cellD cellE" "sep cellE cellD" "sep cellD cellF" "sep cellF cellD"
  "sep cellE cellF" "sep cellF cellE"
  "\<not> sep cellD cellD" "\<not> sep cellE cellE" "\<not> sep cellF cellF"
  by (simp_all add: sep_def cellD_facts)

lemma params4_fields:
  "minsep params4 = 4" "minsepsq params4 = 16" "maxsep params4 = 8"
  "maxsepsq params4 = 64" "minu params4 = 0" "minusq params4 = 0"
  "maxu params4 = 1" "maxusq params4 = 1" "minv params4 = 0"
  "minvsq params4 = 0" "maxv params4 = 1" "maxvsq params4 = 1"
  "ntot params4 = 2" "coords params4 = - 1" "halfminsep params4 = 2"
  by (simp_all add: params4_def BaseCorr3_ctor_def SQR_def)

lemma passes_D:
  "passes True params4 Flat_Euclidean cellD cellE cellF 25 16 9"
proof -
  have r: "sqrt 16 = 4" "sqrt 25 = 5" "sqrt 9 = 3" by (rule sqrt_sq; simp)+
  have s: "stop111 25 16 9 0 0 0 4 16 8 64 0 0 1 1 0 0 1 1 = (False, 4)"
    by (simp add: stop111_def SQR_def Let_def r)
  have d: "decide_split params4 25 16 9 4 0 0 0 =
      (False, False, False, False, 5, 3, 3 / 4, 1 / 3)"
    by (simp add: decide_split_def split3_expr_def Let_def r)
  have c: "commit_bins True params4 False 5 4 3 (3 / 4) (1 / 3) = Inr (Some (ln 4, - (1 / 3), 0))"
    by (simp add: commit_bins_def Let_def params4_def BaseCorr3_ctor_def)
  have ccw: "\<not> CCW Flat_Euclidean (4, 0) (4, - 3) (0, 0)"
    by (simp add: Flat_Euclidean_def)
  show ?thesis
    by (simp add: passes_def cellD_facts params4_fields s d c ccw)
qed

lemma cellD_noprune111:
  assumes "sep3 a c e" and "a \<in> {cellD, cellE, cellF}" and "c \<in> {cellD, cellE, cellF}"
    and "e \<in> {cellD, cellE, cellF}"
  shows "noprune111 (\<lambda>r. params4) R True Flat_Euclidean a c e"
  using assms(2,3,4,1)
  by (elim insertE emptyE)
     (simp_all add: sep3_def cellD_sep noprune111_def cellD_centre_dsq passes_D)

lemma cellD_auto_ok:
  "auto_ok True Flat_Euclidean 1 0 [cellD, cellE, cellF] (zero_store params4)"
proof -
  have fc: "field_cells [cellD, cellE, cellF] = [cellD, cellE, cellF]"
    by (simp add: field_cells_def cellD_facts)
  have 1: "no_pruning111 (\<lambda>r. params4) [0] True Flat_Euclidean
             [cellD, cellE, cellF] [cellD, cellE, cellF] [cellD, cellE, cellF]"
    unfolding no_pruning111_def
  proof (intro ballI impI)
    fix a c e
    assume m: "a \<in> set ([cellD, cellE, cellF] @ [cellD, cellE, cellF] @ [cellD, cellE, cellF])"
      "c \<in> set ([cellD, cellE, cellF] @ [cellD, cellE, cellF] @ [cellD, cellE, cellF])"
      "e \<in> set ([cellD, cellE, cellF] @ [cellD, cellE, cellF] @ [cellD, cellE, cellF])"
      and t: "triple_of (set [cellD, cellE, cellF]) (set [cellD, cellE, cellF])
                (set [cellD, cellE, cellF]) a c e"
    from t have s: "sep3 a c e" by (simp add: triple_of_def)
    from m have "a \<in> {cellD, cellE, cellF}" "c \<in> {cellD, cellE, cellF}"
      "e \<in> {cellD, cellE, cellF}" by auto
    from cellD_noprune111 [OF s this]
    show "noprune111 (\<lambda>r. params4) [0] True Flat_Euclidean a c e" .
  qed
  have 2: "no_pruning12 (\<lambda>r. params4) [0] Flat_Euclidean
             [cellD, cellE, cellF] [cellD, cellE, cellF]"
    by (simp add: no_pruning12_def noprune12_def cellD_facts)
  have 3: "no_pruning3 (\<lambda>r. params4) [0] [cellD, cellE, cellF]"
    by (simp add: no_pruning3_def noprune3_def cellD_facts)
  show ?thesis
    unfolding auto_ok_def Let_def fc
    using 1 2 3
    by (simp add: zero_store_def params4_fields valid_fields_def cellD_facts)
qed

lemma cellD_cross12_ok:
  "cross12_ok True Flat_Euclidean 1 0 1 2 [cellD] [cellE, cellF] (zero_store params4)"
proof -
  have fc: "field_cells [cellD] = [cellD]" "field_cells [cellE, cellF] = [cellE, cellF]"
    by (simp_all add: field_cells_def cellD_facts)
  have 1: "no_pruning111 (\<lambda>r. params4) [0, 1, 2] True Flat_Euclidean
             [cellD] [cellE, cellF] [cellE, cellF]"
    unfolding no_pruning111_def
  proof (intro ballI impI)
    fix a c e
    assume m: "a \<in> set ([cellD] @ [cellE, cellF] @ [cellE, cellF])"
      "c \<in> set ([cellD] @ [cellE, cellF] @ [cellE, cellF])"
      "e \<in> set ([cellD] @ [cellE, cellF] @ [cellE, cellF])"
      and t: "triple_of (set [cellD]) (set [cellE, cellF]) (set [cellE, cellF]) a c e"
    from t have s: "sep3 a c e" by (simp add: triple_of_def)
    from m have "a \<in> {cellD, cellE, cellF}" "c \<in> {cellD, cellE, cellF}"
      "e \<in> {cellD, cellE, cellF}" by auto
    from cellD_noprune111 [OF s this]
    show "noprune111 (\<lambda>r. params4) [0, 1, 2] True Flat_Euclidean a c e" .
  qed
  have 2: "no_pruning12 (\<lambda>r. params4) [0, 1, 2] Flat_Euclidean [cellD] [cellE, cellF]"
    by (simp add: no_pruning12_def noprune12_def cellD_facts)
  show ?thesis
    unfolding cross12_ok_def Let_def fc
    using 1 2
    by (simp add: zero_store_def params4_fields valid_fields_def cellD_facts)
qed

lemma adds_Ex:
  assumes "adds \<mu> k st res" and "\<mu> st = 0"
  shows "\<exists>st'. res = Inr st' \<and> \<mu> st' = k"
  using assms by (cases res) simp_all

lemma total_ntri_zero: "total_ntri prm R (zero_store P) = 0"
  by (simp add: total_ntri_def zero_store_def)

text \<open>
  The theorem at three fields of one point each, \<open>(4, 0)\<close>, \<open>(4, -3)\<close>, \<open>(0, 0)\<close>, as one
  field and as a field of one and a field of two points (one triangle each time), and at
  the fields of the counterexample with \<open>b = bu = bv = 1/10\<close>, where the cell of two points
  is split and both triangles are counted.
\<close>

theorem count_conservation_witness:
  "valid_metric Flat_Euclidean \<and>
   auto_ok True Flat_Euclidean 1 0 [cellD, cellE, cellF] (zero_store params4) \<and>
   (\<exists>st'. process_auto NData no_projection True Flat_Euclidean 1 0 [cellD, cellE, cellF]
            (zero_store params4) = Inr st' \<and>
          total_ntri (\<lambda>r. params4) [0] st' = 1) \<and>
   cross12_ok True Flat_Euclidean 1 0 1 2 [cellD] [cellE, cellF] (zero_store params4) \<and>
   (\<exists>st'. process_cross12 NData no_projection True Flat_Euclidean 1 0 1 2 [cellD] [cellE, cellF]
            (zero_store params4) = Inr st' \<and>
          total_ntri (\<lambda>r. params4) [0, 1, 2] st' = 1) \<and>
   cross_ok True Flat_Euclidean 1 0 1 2 3 4 5 [cellQ] [cellP] [cellO]
     (zero_store (params221 (1/10))) \<and>
   (\<exists>st'. process_cross NData no_projection True Flat_Euclidean 1 0 1 2 3 4 5
            [cellQ] [cellP] [cellO] (zero_store (params221 (1/10))) = Inr st' \<and>
          total_ntri (\<lambda>r. params221 (1/10)) [0, 1, 2, 3, 4, 5] st' = 2)"
proof -
  note th = count_conservation [OF valid_metric_Flat, where A = True and C = 1 and this = 0
      and D = NData and Project = no_projection and ?corr212.0 = 1 and ?corr221.0 = 2
      and ?corr132.0 = 1 and ?corr213.0 = 2 and ?corr231.0 = 3 and ?corr312.0 = 4
      and ?corr321.0 = 5]
  have b: "(\<lambda>r. base (zero_store P r)) = (\<lambda>r. P)" for P
    by (simp add: zero_store_def)
  have a1: "adds (total_ntri (\<lambda>r. params4) [0]) 1 (zero_store params4)
      (process_auto NData no_projection True Flat_Euclidean 1 0 [cellD, cellE, cellF]
         (zero_store params4))"
    using th [where field = "[cellD, cellE, cellF]" and st = "zero_store params4",
      THEN conjunct1, rule_format, OF cellD_auto_ok]
    by (simp add: b cellD_facts field_pts_def choose3_def)
  have 1: "\<exists>st'. process_auto NData no_projection True Flat_Euclidean 1 0 [cellD, cellE, cellF]
            (zero_store params4) = Inr st' \<and> total_ntri (\<lambda>r. params4) [0] st' = 1"
    by (rule adds_Ex [where \<mu> = "total_ntri (\<lambda>r. params4) [0]", OF a1]) (rule total_ntri_zero)
  have a2: "adds (total_ntri (\<lambda>r. params4) [0, 1, 2]) 1 (zero_store params4)
      (process_cross12 NData no_projection True Flat_Euclidean 1 0 1 2 [cellD] [cellE, cellF]
         (zero_store params4))"
    using th [where ?f1.0 = "[cellD]" and ?f2.0 = "[cellE, cellF]" and st = "zero_store params4",
      THEN conjunct2, THEN conjunct1, rule_format, OF cellD_cross12_ok]
    by (simp add: b cellD_facts field_pts_def choose2_def)
  have 2: "\<exists>st'. process_cross12 NData no_projection True Flat_Euclidean 1 0 1 2 [cellD]
            [cellE, cellF] (zero_store params4) = Inr st' \<and>
          total_ntri (\<lambda>r. params4) [0, 1, 2] st' = 1"
    by (rule adds_Ex [where \<mu> = "total_ntri (\<lambda>r. params4) [0, 1, 2]", OF a2])
       (rule total_ntri_zero)
  have a3: "adds (total_ntri (\<lambda>r. params221 (1/10)) [0, 1, 2, 3, 4, 5]) 2
      (zero_store (params221 (1/10)))
      (process_cross NData no_projection True Flat_Euclidean 1 0 1 2 3 4 5
            [cellQ] [cellP] [cellO] (zero_store (params221 (1/10))))"
    using th [where ?g1.0 = "[cellQ]" and ?g2.0 = "[cellP]" and ?g3.0 = "[cellO]"
      and st = "zero_store (params221 (1/10))",
      THEN conjunct2, THEN conjunct2, rule_format, OF cellQ_cross_ok]
    by (simp add: b cellQ_pts field_pts_def)
  have 3: "\<exists>st'. process_cross NData no_projection True Flat_Euclidean 1 0 1 2 3 4 5
            [cellQ] [cellP] [cellO] (zero_store (params221 (1/10))) = Inr st' \<and>
          total_ntri (\<lambda>r. params221 (1/10)) [0, 1, 2, 3, 4, 5] st' = 2"
    by (rule adds_Ex [where \<mu> = "total_ntri (\<lambda>r. params221 (1/10)) [0, 1, 2, 3, 4, 5]", OF a3])
       (rule total_ntri_zero)
  from valid_metric_Flat cellD_auto_ok 1 cellD_cross12_ok 2 cellQ_cross_ok 3
  show ?thesis by blast
qed

end
